(* ===== verification/Prelude.thy ===== *)
theory Prelude
  imports Main "HOL-Library.Word" "HOL-Library.Monad_Syntax"
begin

text \<open>
  What every component of the development shares: the widths of the machine
  integers, the result types of fallible code and their sequencing, and generic
  facts on lists and on \<open>successively\<close>.

  Two kinds of failure occur in the C code and they are kept apart. Code that
  has no defined result, because of undefined behaviour (a read through a
  dangling or null pointer, a buffer overrun, an out-of-range conversion) or
  because a loop never ends, is \<open>None\<close>; a call of \<open>exit\<close> is the outcome
  \<open>Exit\<close> with the status and the state the process ends in.
\<close>

type_synonym u64 = "64 word"
type_synonym u32 = "32 word"
type_synonym addr = nat

definition NULL :: addr where
  "NULL = 0"

named_theorems heap_simps \<open>reads, writes and frames of the list heap\<close>
named_theorems text_simps \<open>scanning and printing of text\<close>
named_theorems double_simps \<open>arithmetic on doubles\<close>


subsection \<open>Outcomes\<close>

datatype ('s, 'a) outcome = Done 'a | Exit int 's

type_synonym ('s, 'a) result = "('s, 'a) outcome option"

definition bnd :: "('s, 'a) result \<Rightarrow> ('a \<Rightarrow> ('s, 'b) result) \<Rightarrow> ('s, 'b) result" where
  "bnd m f = (case m of None \<Rightarrow> None | Some (Exit c s) \<Rightarrow> Some (Exit c s) | Some (Done x) \<Rightarrow> f x)"

definition total :: "'a option \<Rightarrow> ('s, 'a) result" where
  "total m = map_option Done m"

lemma bnd_simps [simp]:
  "bnd (Some (Done x)) f = f x"
  "bnd (Some (Exit c s)) f = Some (Exit c s)"
  "bnd None f = None"
  by (simp_all add: bnd_def)

lemma total_simps [simp]:
  "total (Some x) = Some (Done x)"
  "total None = None"
  by (simp_all add: total_def)

lemma bnd_assoc: "bnd (bnd m f) g = bnd m (\<lambda>x. bnd (f x) g)"
  by (auto simp: bnd_def split: option.splits outcome.splits)

lemma bnd_Done_iff: "bnd m f = Some (Done y) \<longleftrightarrow> (\<exists>x. m = Some (Done x) \<and> f x = Some (Done y))"
  by (auto simp: bnd_def split: option.splits outcome.splits)

lemma total_Done_iff [simp]: "total m = Some (Done x) \<longleftrightarrow> m = Some x"
  by (auto simp: total_def)


subsection \<open>Lists\<close>

lemma last_Cons_mem: "last (p # xs) \<in> insert p (set xs)"
  by (cases xs rule: rev_cases) auto

lemma hd_snoc_mem: "hd (ys @ [p]) \<in> insert p (set ys)"
  by (cases ys) auto

lemma distinct_last_butlast: "distinct (p # xs) \<Longrightarrow> last (p # xs) \<notin> set (butlast (p # xs))"
  by (cases xs rule: rev_cases) auto

lemma distinct_hd_tl: "distinct zs \<Longrightarrow> zs \<noteq> [] \<Longrightarrow> hd zs \<notin> set (tl zs)"
  by (cases zs) auto

lemma successively_cong_set:
  assumes "\<And>x y. x \<in> set (butlast zs) \<Longrightarrow> y \<in> set (tl zs) \<Longrightarrow> P x y = Q x y"
  shows "successively P zs = successively Q zs"
  using assms
proof (induction zs rule: induct_list012)
  case (3 x y zs)
  have "successively P (y # zs) = successively Q (y # zs)"
    by (rule 3) (use 3(3) in auto)
  then show ?case using 3(3)[of x y] by simp
qed auto



subsection \<open>Machine integers\<close>

lemma unat_u64_less: "unat (w :: u64) < 2 ^ 64"
proof -
  have "unat w < 2 ^ LENGTH(64)" by (rule unsigned_less)
  then show ?thesis by simp
qed

lemma unat_of_nat_u64: "n < 2 ^ 64 \<Longrightarrow> unat (of_nat n :: u64) = n"
  by (simp add: unat_of_nat take_bit_nat_eq_self)

end
