(* ===== verification/List_Head.thy ===== *)
theory List_Head
  imports Prelude
begin

text \<open>
  \<open>include/zsr/list.h\<close>: intrusive circular doubly linked lists. The heap of
  \<open>struct list_head\<close> cells is a partial map from addresses; an access outside
  its domain is undefined behaviour, \<open>None\<close>. Every inline function is translated
  store by store in the order of the C statements. \<open>ring h p xs\<close> says that the
  cell at \<open>p\<close> heads a well-linked circular list whose entries are \<open>xs\<close>; each
  operation is shown to refine an operation on \<open>xs\<close> and to change no other cell.
\<close>

record list_head =
  lh_next :: addr
  lh_prev :: addr

type_synonym links = "addr \<rightharpoonup> list_head"

definition rd_next :: "addr \<Rightarrow> links \<Rightarrow> addr option" where
  "rd_next a h = map_option lh_next (h a)"

definition rd_prev :: "addr \<Rightarrow> links \<Rightarrow> addr option" where
  "rd_prev a h = map_option lh_prev (h a)"

definition wr_next :: "addr \<Rightarrow> addr \<Rightarrow> links \<Rightarrow> links option" where
  "wr_next a v h = (case h a of None \<Rightarrow> None | Some n \<Rightarrow> Some (h(a \<mapsto> n\<lparr>lh_next := v\<rparr>)))"

definition wr_prev :: "addr \<Rightarrow> addr \<Rightarrow> links \<Rightarrow> links option" where
  "wr_prev a v h = (case h a of None \<Rightarrow> None | Some n \<Rightarrow> Some (h(a \<mapsto> n\<lparr>lh_prev := v\<rparr>)))"


subsection \<open>The operations of list.h\<close>

definition INIT_LIST_HEAD :: "addr \<Rightarrow> links \<Rightarrow> links option" where
  "INIT_LIST_HEAD list h = do {
     h \<leftarrow> wr_next list list h;
     wr_prev list list h
   }"

definition raw_list_add :: "addr \<Rightarrow> addr \<Rightarrow> addr \<Rightarrow> links \<Rightarrow> links option" where
  "raw_list_add new prev nxt h = do {
     h \<leftarrow> wr_prev nxt new h;
     h \<leftarrow> wr_next new nxt h;
     h \<leftarrow> wr_prev new prev h;
     wr_next prev new h
   }"

definition list_add :: "addr \<Rightarrow> addr \<Rightarrow> links \<Rightarrow> links option" where
  "list_add new head h = do {
     nxt \<leftarrow> rd_next head h;
     raw_list_add new head nxt h
   }"

definition list_add_tail :: "addr \<Rightarrow> addr \<Rightarrow> links \<Rightarrow> links option" where
  "list_add_tail new head h = do {
     prev \<leftarrow> rd_prev head h;
     raw_list_add new prev head h
   }"

definition raw_list_del :: "addr \<Rightarrow> addr \<Rightarrow> links \<Rightarrow> links option" where
  "raw_list_del prev nxt h = do {
     h \<leftarrow> wr_prev nxt prev h;
     wr_next prev nxt h
   }"

definition list_del_entry :: "addr \<Rightarrow> links \<Rightarrow> links option" where
  "list_del_entry entry h = do {
     prev \<leftarrow> rd_prev entry h;
     nxt \<leftarrow> rd_next entry h;
     raw_list_del prev nxt h
   }"

definition list_del :: "addr \<Rightarrow> links \<Rightarrow> links option" where
  "list_del entry h = do {
     prev \<leftarrow> rd_prev entry h;
     nxt \<leftarrow> rd_next entry h;
     h \<leftarrow> raw_list_del prev nxt h;
     h \<leftarrow> wr_next entry NULL h;
     wr_prev entry NULL h
   }"

definition list_replace :: "addr \<Rightarrow> addr \<Rightarrow> links \<Rightarrow> links option" where
  "list_replace old new h = do {
     n \<leftarrow> rd_next old h;
     h \<leftarrow> wr_next new n h;
     n \<leftarrow> rd_next new h;
     h \<leftarrow> wr_prev n new h;
     p \<leftarrow> rd_prev old h;
     h \<leftarrow> wr_prev new p h;
     p \<leftarrow> rd_prev new h;
     wr_next p new h
   }"

definition list_replace_init :: "addr \<Rightarrow> addr \<Rightarrow> links \<Rightarrow> links option" where
  "list_replace_init old new h = do {
     h \<leftarrow> list_replace old new h;
     INIT_LIST_HEAD old h
   }"

definition list_del_init :: "addr \<Rightarrow> links \<Rightarrow> links option" where
  "list_del_init entry h = do {
     h \<leftarrow> list_del_entry entry h;
     INIT_LIST_HEAD entry h
   }"

definition list_move :: "addr \<Rightarrow> addr \<Rightarrow> links \<Rightarrow> links option" where
  "list_move list head h = do {
     h \<leftarrow> list_del_entry list h;
     list_add list head h
   }"

definition list_move_tail :: "addr \<Rightarrow> addr \<Rightarrow> links \<Rightarrow> links option" where
  "list_move_tail list head h = do {
     h \<leftarrow> list_del_entry list h;
     list_add_tail list head h
   }"

definition list_is_last :: "addr \<Rightarrow> addr \<Rightarrow> links \<Rightarrow> bool option" where
  "list_is_last list head h = do { n \<leftarrow> rd_next list h; Some (n = head) }"

definition list_empty :: "addr \<Rightarrow> links \<Rightarrow> bool option" where
  "list_empty head h = do { n \<leftarrow> rd_next head h; Some (n = head) }"

definition list_empty_careful :: "addr \<Rightarrow> links \<Rightarrow> bool option" where
  "list_empty_careful head h = do {
     nxt \<leftarrow> rd_next head h;
     if nxt = head then do { p \<leftarrow> rd_prev head h; Some (nxt = p) } else Some False
   }"

definition list_rotate_left :: "addr \<Rightarrow> links \<Rightarrow> links option" where
  "list_rotate_left head h = do {
     e \<leftarrow> list_empty head h;
     if \<not> e then do { first \<leftarrow> rd_next head h; list_move_tail first head h } else Some h
   }"

definition list_is_singular :: "addr \<Rightarrow> links \<Rightarrow> bool option" where
  "list_is_singular head h = do {
     e \<leftarrow> list_empty head h;
     if \<not> e then do { n \<leftarrow> rd_next head h; p \<leftarrow> rd_prev head h; Some (n = p) } else Some False
   }"

definition raw_list_cut_position :: "addr \<Rightarrow> addr \<Rightarrow> addr \<Rightarrow> links \<Rightarrow> links option" where
  "raw_list_cut_position list head entry h = do {
     new_first \<leftarrow> rd_next entry h;
     n \<leftarrow> rd_next head h;
     h \<leftarrow> wr_next list n h;
     n \<leftarrow> rd_next list h;
     h \<leftarrow> wr_prev n list h;
     h \<leftarrow> wr_prev list entry h;
     h \<leftarrow> wr_next entry list h;
     h \<leftarrow> wr_next head new_first h;
     wr_prev new_first head h
   }"

definition list_cut_position :: "addr \<Rightarrow> addr \<Rightarrow> addr \<Rightarrow> links \<Rightarrow> links option" where
  "list_cut_position list head entry h = do {
     e \<leftarrow> list_empty head h;
     if e then Some h else do {
       s \<leftarrow> list_is_singular head h;
       n \<leftarrow> rd_next head h;
       if s \<and> n \<noteq> entry \<and> head \<noteq> entry then Some h
       else if entry = head then INIT_LIST_HEAD list h
       else raw_list_cut_position list head entry h
     }
   }"

definition raw_list_splice :: "addr \<Rightarrow> addr \<Rightarrow> addr \<Rightarrow> links \<Rightarrow> links option" where
  "raw_list_splice list prev nxt h = do {
     first \<leftarrow> rd_next list h;
     last \<leftarrow> rd_prev list h;
     h \<leftarrow> wr_prev first prev h;
     h \<leftarrow> wr_next prev first h;
     h \<leftarrow> wr_next last nxt h;
     wr_prev nxt last h
   }"

definition list_splice :: "addr \<Rightarrow> addr \<Rightarrow> links \<Rightarrow> links option" where
  "list_splice list head h = do {
     e \<leftarrow> list_empty list h;
     if \<not> e then do { n \<leftarrow> rd_next head h; raw_list_splice list head n h } else Some h
   }"

definition list_splice_tail :: "addr \<Rightarrow> addr \<Rightarrow> links \<Rightarrow> links option" where
  "list_splice_tail list head h = do {
     e \<leftarrow> list_empty list h;
     if \<not> e then do { p \<leftarrow> rd_prev head h; raw_list_splice list p head h } else Some h
   }"

definition list_splice_init :: "addr \<Rightarrow> addr \<Rightarrow> links \<Rightarrow> links option" where
  "list_splice_init list head h = do {
     e \<leftarrow> list_empty list h;
     if \<not> e then do {
       n \<leftarrow> rd_next head h;
       h \<leftarrow> raw_list_splice list head n h;
       INIT_LIST_HEAD list h
     } else Some h
   }"

definition list_splice_tail_init :: "addr \<Rightarrow> addr \<Rightarrow> links \<Rightarrow> links option" where
  "list_splice_tail_init list head h = do {
     e \<leftarrow> list_empty list h;
     if \<not> e then do {
       p \<leftarrow> rd_prev head h;
       h \<leftarrow> raw_list_splice list p head h;
       INIT_LIST_HEAD list h
     } else Some h
   }"


subsection \<open>Single stores\<close>

definition upd_next :: "addr \<Rightarrow> addr \<Rightarrow> links \<Rightarrow> links" where
  "upd_next a v h = h(a \<mapsto> (the (h a))\<lparr>lh_next := v\<rparr>)"

definition upd_prev :: "addr \<Rightarrow> addr \<Rightarrow> links \<Rightarrow> links" where
  "upd_prev a v h = h(a \<mapsto> (the (h a))\<lparr>lh_prev := v\<rparr>)"

lemma wr_next_eq [heap_simps]: "a \<in> dom h \<Longrightarrow> wr_next a v h = Some (upd_next a v h)"
  by (auto simp: wr_next_def upd_next_def)

lemma wr_prev_eq [heap_simps]: "a \<in> dom h \<Longrightarrow> wr_prev a v h = Some (upd_prev a v h)"
  by (auto simp: wr_prev_def upd_prev_def)

lemma dom_upd [heap_simps]:
  "dom (upd_next a v h) = insert a (dom h)"
  "dom (upd_prev a v h) = insert a (dom h)"
  by (auto simp: upd_next_def upd_prev_def)

lemma rd_upd [heap_simps]:
  "rd_next b (upd_next a v h) = (if b = a then Some v else rd_next b h)"
  "rd_prev b (upd_prev a v h) = (if b = a then Some v else rd_prev b h)"
  "a \<in> dom h \<Longrightarrow> rd_prev b (upd_next a v h) = rd_prev b h"
  "a \<in> dom h \<Longrightarrow> rd_next b (upd_prev a v h) = rd_next b h"
  by (auto simp: upd_next_def upd_prev_def rd_next_def rd_prev_def)

lemma upd_other [heap_simps]:
  "b \<noteq> a \<Longrightarrow> upd_next a v h b = h b"
  "b \<noteq> a \<Longrightarrow> upd_prev a v h b = h b"
  by (auto simp: upd_next_def upd_prev_def)

lemma rd_dom:
  "rd_next a h = Some v \<Longrightarrow> a \<in> dom h"
  "rd_prev a h = Some v \<Longrightarrow> a \<in> dom h"
  by (auto simp: rd_next_def rd_prev_def)

definition same_except :: "addr set \<Rightarrow> links \<Rightarrow> links \<Rightarrow> bool" where
  "same_except A h h' \<longleftrightarrow> dom h' = dom h \<and> (\<forall>a. a \<notin> A \<longrightarrow> h' a = h a)"

lemma same_exceptD:
  "same_except A h h' \<Longrightarrow> a \<notin> A \<Longrightarrow> h' a = h a"
  "same_except A h h' \<Longrightarrow> dom h' = dom h"
  by (auto simp: same_except_def)

lemma same_except_refl [simp]: "same_except A h h"
  by (simp add: same_except_def)

lemma same_except_trans [trans]:
  "same_except A h h' \<Longrightarrow> same_except A h' h'' \<Longrightarrow> same_except A h h''"
  by (simp add: same_except_def)

lemma same_except_join:
  "same_except A h h' \<Longrightarrow> same_except B h' h'' \<Longrightarrow> A \<union> B \<subseteq> C \<Longrightarrow> same_except C h h''"
  unfolding same_except_def by (metis Un_iff subset_iff)

lemma same_except_mono: "same_except A h h' \<Longrightarrow> A \<subseteq> B \<Longrightarrow> same_except B h h'"
  by (auto simp: same_except_def)


subsection \<open>Linked chains and rings\<close>

definition link :: "links \<Rightarrow> addr \<Rightarrow> addr \<Rightarrow> bool" where
  "link h a b \<longleftrightarrow> rd_next a h = Some b \<and> rd_prev b h = Some a"

abbreviation chain :: "links \<Rightarrow> addr list \<Rightarrow> bool" where
  "chain h \<equiv> successively (link h)"

definition ring :: "links \<Rightarrow> addr \<Rightarrow> addr list \<Rightarrow> bool" where
  "ring h p xs \<longleftrightarrow> distinct (p # xs) \<and> chain h (p # xs @ [p])"

lemma chain_upd [heap_simps]:
  "u \<in> dom h \<Longrightarrow> u \<notin> set (butlast zs) \<Longrightarrow> chain (upd_next u v h) zs = chain h zs"
  "u \<in> dom h \<Longrightarrow> u \<notin> set (tl zs) \<Longrightarrow> chain (upd_prev u v h) zs = chain h zs"
  by (rule successively_cong_set; auto simp: link_def heap_simps)+

lemma chain_same_except:
  "same_except A h h' \<Longrightarrow> set zs \<inter> A = {} \<Longrightarrow> chain h' zs = chain h zs"
  by (rule successively_cong_set)
     (auto simp: link_def rd_next_def rd_prev_def same_except_def
       dest!: in_set_butlastD list.set_sel(2) [rotated])

lemma ring_frame:
  "same_except A h h' \<Longrightarrow> insert p (set xs) \<inter> A = {} \<Longrightarrow> ring h' p xs = ring h p xs"
  using chain_same_except [of A h h' "p # xs @ [p]"] by (auto simp: ring_def)

lemma ring_keep:
  "ring h p xs \<Longrightarrow> same_except A h h' \<Longrightarrow> insert p (set xs) \<inter> A = {} \<Longrightarrow> ring h' p xs"
  by (simp only: ring_frame)

lemma ring_split:
  "ring h p (xs @ ys) \<longleftrightarrow> distinct (p # xs @ ys) \<and> chain h (p # xs) \<and> chain h (ys @ [p])
     \<and> link h (last (p # xs)) (hd (ys @ [p]))"
  using successively_append_iff [of "link h" "p # xs" "ys @ [p]"]
  by (auto simp: ring_def)

lemma link_dom: "link h a b \<Longrightarrow> a \<in> dom h \<and> b \<in> dom h"
  by (auto simp: link_def dest: rd_dom)

lemma chain_dom: "chain h (x # y # zs) \<Longrightarrow> set (x # y # zs) \<subseteq> dom h"
proof (induction zs arbitrary: x y)
  case (Cons z zs)
  then show ?case using Cons.IH [of y z] by (auto dest!: link_dom)
qed (auto dest!: link_dom)

lemma ring_dom: "ring h p xs \<Longrightarrow> insert p (set xs) \<subseteq> dom h"
  using chain_dom [of h p "hd (xs @ [p])" "tl (xs @ [p])"] by (auto simp: ring_def)

lemma ring_distinct: "ring h p xs \<Longrightarrow> distinct (p # xs)"
  by (simp add: ring_def)

lemma ring_next: "ring h p xs \<Longrightarrow> rd_next p h = Some (hd (xs @ [p]))"
  by (cases xs) (auto simp: ring_def link_def)

lemma ring_prev: "ring h p xs \<Longrightarrow> rd_prev p h = Some (last (p # xs))"
  using ring_split [of h p xs "[]"] by (simp add: link_def)

lemma ring_entry:
  assumes "ring h p (xs @ n # ys)"
  shows "rd_next n h = Some (hd (ys @ [p]))" "rd_prev n h = Some (last (p # xs))"
  using assms ring_split [of h p xs "n # ys"] ring_split [of h p "xs @ [n]" ys]
  by (simp_all add: link_def)

lemma ring_Nil: "ring h p [] \<longleftrightarrow> link h p p"
  by (simp add: ring_def)

text \<open>A cell heads at most one list.\<close>

lemma chain_unique:
  "chain h (a # xs @ [p]) \<Longrightarrow> chain h (a # ys @ [p]) \<Longrightarrow> p \<notin> set xs \<Longrightarrow> p \<notin> set ys \<Longrightarrow> xs = ys"
proof (induction xs arbitrary: a ys)
  case Nil
  then show ?case by (cases ys) (auto simp: link_def)
next
  case (Cons x xs)
  then show ?case by (cases ys) (auto simp: link_def)
qed

lemma ring_unique: "ring h p xs \<Longrightarrow> ring h p ys \<Longrightarrow> xs = ys"
  by (auto simp: ring_def intro: chain_unique)



subsection \<open>What the operations do to the lists\<close>

text \<open>
  \<open>refines R p xs ops\<close>-style statements: each operation returns, the ring at the
  head now holds the new list, and only the named cells were written.
\<close>

lemma INIT_LIST_HEAD_ring:
  assumes "p \<in> dom h"
  shows "\<exists>h'. INIT_LIST_HEAD p h = Some h' \<and> ring h' p [] \<and> same_except {p} h h'"
  using assms
  by (auto simp: INIT_LIST_HEAD_def heap_simps ring_Nil link_def same_except_def)

lemma chain_cong:
  "(\<And>a. a \<in> set (butlast zs) \<Longrightarrow> rd_next a h' = rd_next a h) \<Longrightarrow>
   (\<And>a. a \<in> set (tl zs) \<Longrightarrow> rd_prev a h' = rd_prev a h) \<Longrightarrow> chain h' zs = chain h zs"
  by (rule successively_cong_set) (auto simp: link_def)

lemma ring_joint:
  assumes "ring h p (xs @ ys)"
  obtains l r where "l = last (p # xs)" "r = hd (ys @ [p])" "l \<in> dom h" "r \<in> dom h"
    "chain h (p # xs)" "chain h (ys @ [p])" "link h l r"
    "l \<in> insert p (set xs)" "r \<in> insert p (set ys)"
    "l \<notin> set (butlast (p # xs))" "l \<notin> set ys" "r \<notin> set xs" "r \<notin> set (tl (ys @ [p]))"
    "set (butlast (p # xs)) \<subseteq> insert p (set xs)" "set (tl (ys @ [p])) \<subseteq> insert p (set ys)"
proof (rule that [OF refl refl])
  from assms have d: "distinct (p # xs @ ys)"
    by (rule ring_distinct)
  show mem: "last (p # xs) \<in> insert p (set xs)" "hd (ys @ [p]) \<in> insert p (set ys)"
    by (rule last_Cons_mem hd_snoc_mem)+
  then show "last (p # xs) \<in> dom h" "hd (ys @ [p]) \<in> dom h"
    using ring_dom [OF assms] by auto
  show "chain h (p # xs)" "chain h (ys @ [p])" "link h (last (p # xs)) (hd (ys @ [p]))"
    using assms by (simp_all only: ring_split)
  show "last (p # xs) \<notin> set (butlast (p # xs))"
    using d by (intro distinct_last_butlast) simp
  show "hd (ys @ [p]) \<notin> set (tl (ys @ [p]))"
    using d by (intro distinct_hd_tl) auto
  show "last (p # xs) \<notin> set ys" "hd (ys @ [p]) \<notin> set xs"
    using mem d by auto
  show "set (butlast (p # xs)) \<subseteq> insert p (set xs)"
    by (auto dest: in_set_butlastD)
  show "set (tl (ys @ [p])) \<subseteq> insert p (set ys)"
    by (cases ys) auto
qed

lemma ring_joinI:
  "distinct (p # xs @ ys) \<Longrightarrow> chain h (p # xs) \<Longrightarrow> chain h (ys @ [p]) \<Longrightarrow>
   link h (last (p # xs)) (hd (ys @ [p])) \<Longrightarrow> ring h p (xs @ ys)"
  by (simp only: ring_split simp_thms)

lemma ring_insertI:
  "distinct (p # xs @ n # ys) \<Longrightarrow> chain h (p # xs) \<Longrightarrow> chain h (ys @ [p]) \<Longrightarrow>
   link h (last (p # xs)) n \<Longrightarrow> link h n (hd (ys @ [p])) \<Longrightarrow> ring h p (xs @ n # ys)"
  by (rule ring_joinI) (simp_all add: successively_Cons del: last.simps)

lemma raw_list_add_ring:
  assumes ring: "ring h p (xs @ ys)" and n: "n \<in> dom h" "n \<notin> insert p (set (xs @ ys))"
  shows "\<exists>h'. raw_list_add n (last (p # xs)) (hd (ys @ [p])) h = Some h'
    \<and> ring h' p (xs @ n # ys) \<and> same_except {n, last (p # xs), hd (ys @ [p])} h h'"
proof -
  obtain l r where l: "l = last (p # xs)" and r: "r = hd (ys @ [p])"
    and lr: "l \<in> dom h" "r \<in> dom h" and paths: "chain h (p # xs)" "chain h (ys @ [p])"
    and out: "l \<in> insert p (set xs)" "r \<in> insert p (set ys)" "l \<notin> set (butlast (p # xs))"
      "l \<notin> set ys" "r \<notin> set xs" "r \<notin> set (tl (ys @ [p]))"
      "set (butlast (p # xs)) \<subseteq> insert p (set xs)" "set (tl (ys @ [p])) \<subseteq> insert p (set ys)"
    using ring by (rule ring_joint)
  let ?h = "upd_next l n (upd_prev n l (upd_next n r (upd_prev r n h)))"
  have nx: "rd_next a ?h = (if a = l then Some n else if a = n then Some r else rd_next a h)"
    and pv: "rd_prev a ?h = (if a = n then Some l else if a = r then Some n else rd_prev a h)" for a
    using n(1) lr by (simp_all add: heap_simps)
  have "chain ?h (p # xs) = chain h (p # xs)"
    by (rule chain_cong) (use n out in \<open>auto simp: nx pv simp del: butlast.simps\<close>)
  moreover have "chain ?h (ys @ [p]) = chain h (ys @ [p])"
    by (rule chain_cong) (use n out in \<open>auto simp: nx pv\<close>)
  moreover have "link ?h l n" "link ?h n r"
    using n out by (auto simp: link_def nx pv)
  ultimately have "ring ?h p (xs @ n # ys)"
    using paths n ring_distinct [OF ring] by (intro ring_insertI) (simp_all del: last.simps flip: l r)
  moreover have "same_except {n, l, r} h ?h"
    using n lr by (auto simp: same_except_def heap_simps)
  moreover have "raw_list_add n l r h = Some ?h"
    using n lr by (simp add: raw_list_add_def heap_simps)
  ultimately show ?thesis
    unfolding l r by blast
qed

lemma list_add_ring:
  assumes "ring h p xs" "n \<in> dom h" "n \<notin> insert p (set xs)"
  shows "\<exists>h'. list_add n p h = Some h' \<and> ring h' p (n # xs)
    \<and> same_except {n, p, hd (xs @ [p])} h h'"
  using raw_list_add_ring [of h p "[]" xs n] assms by (auto simp: list_add_def ring_next)

lemma list_add_tail_ring:
  assumes "ring h p xs" "n \<in> dom h" "n \<notin> insert p (set xs)"
  shows "\<exists>h'. list_add_tail n p h = Some h' \<and> ring h' p (xs @ [n])
    \<and> same_except {n, last (p # xs), p} h h'"
  using raw_list_add_ring [of h p xs "[]" n] assms
  by (simp add: list_add_tail_def ring_prev del: last.simps)

text \<open>Around an entry: its neighbours, and the paths on both sides of it.\<close>

lemma ring_around:
  assumes "ring h p (xs @ n # ys)"
  obtains l r where "l = last (p # xs)" "r = hd (ys @ [p])" "l \<in> dom h" "r \<in> dom h" "n \<in> dom h"
    "rd_prev n h = Some l" "rd_next n h = Some r"
    "chain h (p # xs)" "chain h (ys @ [p])" "n \<noteq> l" "n \<noteq> r"
    "l \<in> insert p (set xs)" "r \<in> insert p (set ys)"
    "l \<notin> set (butlast (p # xs))" "l \<notin> set ys" "r \<notin> set xs" "r \<notin> set (tl (ys @ [p]))"
    "set (butlast (p # xs)) \<subseteq> insert p (set xs)" "set (tl (ys @ [p])) \<subseteq> insert p (set ys)"
proof -
  have d: "distinct (p # xs @ n # ys)"
    using assms by (rule ring_distinct)
  from assms have assms': "ring h p ((xs @ [n]) @ ys)" by simp
  from assms obtain l where l: "l = last (p # xs)" "l \<in> dom h" "chain h (p # xs)" "link h l n"
    "l \<in> insert p (set xs)" "l \<notin> set (butlast (p # xs))" "l \<notin> set (n # ys)"
    "set (butlast (p # xs)) \<subseteq> insert p (set xs)"
    by (rule ring_joint) simp
  from assms' obtain r where r: "r = hd (ys @ [p])" "r \<in> dom h" "chain h (ys @ [p])" "link h n r"
    "r \<in> insert p (set ys)" "r \<notin> set (xs @ [n])" "r \<notin> set (tl (ys @ [p]))"
    "set (tl (ys @ [p])) \<subseteq> insert p (set ys)"
    by (rule ring_joint) simp
  show thesis
    by (rule that [of l r]) (use l r link_dom [OF l(4)] in \<open>auto simp: link_def\<close>)
qed

lemma raw_list_del_ring:
  assumes ring: "ring h p (xs @ n # ys)"
  shows "\<exists>h'. raw_list_del (last (p # xs)) (hd (ys @ [p])) h = Some h'
    \<and> ring h' p (xs @ ys) \<and> same_except {last (p # xs), hd (ys @ [p])} h h'"
proof -
  obtain l r where l: "l = last (p # xs)" and r: "r = hd (ys @ [p])"
    and lr: "l \<in> dom h" "r \<in> dom h" and paths: "chain h (p # xs)" "chain h (ys @ [p])"
    and out: "l \<in> insert p (set xs)" "r \<in> insert p (set ys)" "l \<notin> set (butlast (p # xs))"
      "l \<notin> set ys" "r \<notin> set xs" "r \<notin> set (tl (ys @ [p]))"
      "set (butlast (p # xs)) \<subseteq> insert p (set xs)" "set (tl (ys @ [p])) \<subseteq> insert p (set ys)"
    using ring by (rule ring_around)
  let ?h = "upd_next l r (upd_prev r l h)"
  have nx: "rd_next a ?h = (if a = l then Some r else rd_next a h)"
    and pv: "rd_prev a ?h = (if a = r then Some l else rd_prev a h)" for a
    using lr by (simp_all add: heap_simps)
  have "chain ?h (p # xs) = chain h (p # xs)"
    by (rule chain_cong) (use out in \<open>auto simp: nx pv simp del: butlast.simps\<close>)
  moreover have "chain ?h (ys @ [p]) = chain h (ys @ [p])"
    by (rule chain_cong) (use out in \<open>auto simp: nx pv\<close>)
  moreover have "link ?h l r"
    by (simp add: link_def nx pv)
  ultimately have "ring ?h p (xs @ ys)"
    using paths ring_distinct [OF ring] by (intro ring_joinI) (simp_all del: last.simps flip: l r)
  moreover have "same_except {l, r} h ?h"
    using lr by (auto simp: same_except_def heap_simps)
  moreover have "raw_list_del l r h = Some ?h"
    using lr by (simp add: raw_list_del_def heap_simps)
  ultimately show ?thesis
    unfolding l r by blast
qed

lemma list_del_entry_ring:
  assumes "ring h p (xs @ n # ys)"
  shows "\<exists>h'. list_del_entry n h = Some h' \<and> ring h' p (xs @ ys)
    \<and> same_except {last (p # xs), hd (ys @ [p])} h h'"
  using raw_list_del_ring [OF assms] ring_entry [OF assms]
  by (simp add: list_del_entry_def del: last.simps)

text \<open>Writes into a cell outside a ring keep it.\<close>

lemma upd_same_except:
  "a \<in> dom h \<Longrightarrow> same_except {a} h (upd_next a v h)"
  "a \<in> dom h \<Longrightarrow> same_except {a} h (upd_prev a v h)"
  by (auto simp: same_except_def heap_simps)

lemma list_del_ring:
  assumes ring: "ring h p (xs @ n # ys)"
  shows "\<exists>h'. list_del n h = Some h' \<and> ring h' p (xs @ ys)
    \<and> same_except {n, last (p # xs), hd (ys @ [p])} h h'
    \<and> rd_next n h' = Some NULL \<and> rd_prev n h' = Some NULL"
proof -
  from raw_list_del_ring [OF ring] obtain h1 where h1:
    "raw_list_del (last (p # xs)) (hd (ys @ [p])) h = Some h1" "ring h1 p (xs @ ys)"
    "same_except {last (p # xs), hd (ys @ [p])} h h1"
    by blast
  let ?h = "upd_prev n NULL (upd_next n NULL h1)"
  have n: "n \<in> dom h1" "n \<notin> insert p (set (xs @ ys))"
    using same_exceptD(2) [OF h1(3)] ring_dom [OF ring] ring_distinct [OF ring] by auto
  have "same_except {n} h1 ?h"
    using n by (auto simp: same_except_def heap_simps)
  then have "ring ?h p (xs @ ys)" "same_except {n, last (p # xs), hd (ys @ [p])} h ?h"
    using n by (auto intro: ring_keep [OF h1(2)] same_except_join [OF h1(3)] simp del: last.simps)
  moreover have "list_del n h = Some ?h"
    using h1 n ring_entry [OF ring] by (simp add: list_del_def heap_simps del: last.simps)
  moreover have "rd_next n ?h = Some NULL" "rd_prev n ?h = Some NULL"
    using n by (simp_all add: heap_simps)
  ultimately show ?thesis by blast
qed

lemma list_del_init_ring:
  assumes ring: "ring h p (xs @ n # ys)"
  shows "\<exists>h'. list_del_init n h = Some h' \<and> ring h' p (xs @ ys) \<and> ring h' n []
    \<and> same_except {n, last (p # xs), hd (ys @ [p])} h h'"
proof -
  from list_del_entry_ring [OF ring] obtain h1 where h1:
    "list_del_entry n h = Some h1" "ring h1 p (xs @ ys)"
    "same_except {last (p # xs), hd (ys @ [p])} h h1"
    by blast
  have n: "n \<in> dom h1" "n \<notin> insert p (set (xs @ ys))"
    using same_exceptD(2) [OF h1(3)] ring_dom [OF ring] ring_distinct [OF ring] by auto
  from INIT_LIST_HEAD_ring [OF n(1)] obtain h2 where h2:
    "INIT_LIST_HEAD n h1 = Some h2" "ring h2 n []" "same_except {n} h1 h2"
    by blast
  have "ring h2 p (xs @ ys)" "same_except {n, last (p # xs), hd (ys @ [p])} h h2"
    using h2(3) n by (auto intro: ring_keep [OF h1(2)] same_except_join [OF h1(3)] simp del: last.simps)
  then show ?thesis
    using h1(1) h2 by (simp add: list_del_init_def)
qed

lemma list_replace_ring:
  assumes ring: "ring h p (xs @ old # ys)" and n: "n \<in> dom h" "n \<notin> insert p (set (xs @ old # ys))"
  shows "\<exists>h'. list_replace old n h = Some h' \<and> ring h' p (xs @ n # ys)
    \<and> same_except {n, last (p # xs), hd (ys @ [p])} h h'"
proof -
  obtain l r where l: "l = last (p # xs)" and r: "r = hd (ys @ [p])"
    and lr: "l \<in> dom h" "r \<in> dom h" "old \<in> dom h" and paths: "chain h (p # xs)" "chain h (ys @ [p])"
    and rd: "rd_prev old h = Some l" "rd_next old h = Some r"
    and out: "old \<noteq> l" "old \<noteq> r" "l \<in> insert p (set xs)" "r \<in> insert p (set ys)"
      "l \<notin> set (butlast (p # xs))" "l \<notin> set ys" "r \<notin> set xs" "r \<notin> set (tl (ys @ [p]))"
      "set (butlast (p # xs)) \<subseteq> insert p (set xs)" "set (tl (ys @ [p])) \<subseteq> insert p (set ys)"
    using ring by (rule ring_around)
  let ?h = "upd_next l n (upd_prev n l (upd_prev r n (upd_next n r h)))"
  have ne: "n \<noteq> l" "n \<noteq> r" "n \<noteq> old"
    using n out by auto
  have nx: "rd_next a ?h = (if a = l then Some n else if a = n then Some r else rd_next a h)"
    and pv: "rd_prev a ?h = (if a = n then Some l else if a = r then Some n else rd_prev a h)" for a
    using n(1) lr by (simp_all add: heap_simps)
  have "chain ?h (p # xs) = chain h (p # xs)"
    by (rule chain_cong) (use n out in \<open>auto simp: nx pv simp del: butlast.simps\<close>)
  moreover have "chain ?h (ys @ [p]) = chain h (ys @ [p])"
    by (rule chain_cong) (use n out in \<open>auto simp: nx pv\<close>)
  moreover have "link ?h l n" "link ?h n r"
    using ne by (auto simp: link_def nx pv)
  ultimately have "ring ?h p (xs @ n # ys)"
    using paths n ring_distinct [OF ring] by (intro ring_insertI) (simp_all del: last.simps flip: l r)
  moreover have "same_except {n, l, r} h ?h"
    using n lr by (auto simp: same_except_def heap_simps)
  moreover have "list_replace old n h = Some ?h"
    using n(1) lr ne out(1,2) rd by (simp add: list_replace_def heap_simps)
  ultimately show ?thesis
    unfolding l r by blast
qed

lemma list_move_ring:
  assumes ring: "ring h p (xs @ n # ys)"
  shows "\<exists>h'. list_move n p h = Some h' \<and> ring h' p (n # xs @ ys)
    \<and> same_except (insert p (set (xs @ n # ys))) h h'"
    and "\<exists>h'. list_move_tail n p h = Some h' \<and> ring h' p (xs @ ys @ [n])
    \<and> same_except (insert p (set (xs @ n # ys))) h h'"
proof -
  let ?A = "insert p (set (xs @ n # ys))"
  from list_del_entry_ring [OF ring] obtain h1 where h1:
    "list_del_entry n h = Some h1" "ring h1 p (xs @ ys)"
    "same_except {last (p # xs), hd (ys @ [p])} h h1"
    by blast
  have n: "n \<in> dom h1" "n \<notin> insert p (set (xs @ ys))"
    using same_exceptD(2) [OF h1(3)] ring_dom [OF ring] ring_distinct [OF ring] by auto
  have 1: "same_except ?A h h1"
    using last_Cons_mem [of p xs] hd_snoc_mem [of ys p]
    by (intro same_except_mono [OF h1(3)]) auto
  from list_add_ring [OF h1(2) n] obtain h2 where h2: "list_add n p h1 = Some h2"
    "ring h2 p (n # xs @ ys)" "same_except {n, p, hd ((xs @ ys) @ [p])} h1 h2"
    by blast
  have "same_except ?A h1 h2"
    using hd_snoc_mem [of "xs @ ys" p] by (intro same_except_mono [OF h2(3)]) auto
  with 1 h1 h2 show "\<exists>h'. list_move n p h = Some h' \<and> ring h' p (n # xs @ ys) \<and> same_except ?A h h'"
    by (auto simp: list_move_def intro: same_except_trans)
  from list_add_tail_ring [OF h1(2) n] obtain h3 where h3: "list_add_tail n p h1 = Some h3"
    "ring h3 p ((xs @ ys) @ [n])" "same_except {n, last (p # xs @ ys), p} h1 h3"
    by blast
  have "same_except ?A h1 h3"
    using last_Cons_mem [of p "xs @ ys"] by (intro same_except_mono [OF h3(3)]) auto
  with 1 h1 h3 show "\<exists>h'. list_move_tail n p h = Some h' \<and> ring h' p (xs @ ys @ [n]) \<and> same_except ?A h h'"
    by (auto simp: list_move_tail_def intro: same_except_trans)
qed

lemma list_empty_ring: "ring h p xs \<Longrightarrow> list_empty p h = Some (xs = [])"
  by (cases xs) (auto simp: list_empty_def ring_next dest: ring_distinct)

lemma list_empty_careful_ring: "ring h p xs \<Longrightarrow> list_empty_careful p h = Some (xs = [])"
  by (cases xs) (auto simp: list_empty_careful_def ring_next ring_prev dest: ring_distinct)

lemma list_is_last_ring:
  "ring h p (xs @ n # ys) \<Longrightarrow> list_is_last n p h = Some (ys = [])"
  using ring_entry(1) [of h p xs n ys] ring_distinct [of h p "xs @ n # ys"]
  by (cases ys) (auto simp: list_is_last_def)

lemma hd_eq_last_singleton: "distinct xs \<Longrightarrow> xs \<noteq> [] \<Longrightarrow> hd xs = last xs \<longleftrightarrow> length xs = 1"
proof (cases xs)
  case (Cons x ys)
  assume "distinct xs"
  then show ?thesis using Cons last_in_set [of ys] by (cases "ys = []") auto
qed simp

lemma list_is_singular_ring: "ring h p xs \<Longrightarrow> list_is_singular p h = Some (length xs = 1)"
  using hd_eq_last_singleton [of xs] ring_distinct [of h p xs]
  by (simp add: list_is_singular_def list_empty_ring ring_next ring_prev)

lemma list_rotate_left_ring:
  assumes "ring h p xs"
  shows "\<exists>h'. list_rotate_left p h = Some h' \<and> ring h' p (rotate1 xs)
    \<and> same_except (insert p (set xs)) h h'"
proof (cases xs)
  case Nil
  then show ?thesis
    using assms by (simp add: list_rotate_left_def list_empty_ring)
next
  case (Cons x ys)
  then show ?thesis
    using assms list_move_ring(2) [of h p "[]" x ys]
    by (simp add: list_rotate_left_def list_empty_ring ring_next)
qed

lemma ring_segment:
  assumes "ring h q zs" "zs \<noteq> []"
  shows "rd_next q h = Some (hd zs)" "rd_prev q h = Some (last zs)" "chain h zs"
    "hd zs \<in> set zs" "last zs \<in> set zs" "hd zs \<notin> set (tl zs)" "last zs \<notin> set (butlast zs)"
proof -
  show "rd_next q h = Some (hd zs)" "rd_prev q h = Some (last zs)"
    using assms by (simp_all add: ring_next ring_prev)
  have "chain h (q # zs)"
    using assms(1) ring_split [of h q zs "[]"] by (simp only: append_Nil2) blast
  then show "chain h zs"
    using assms(2) by (simp add: successively_Cons)
  have "distinct zs"
    using ring_distinct [OF assms(1)] by simp
  then show "hd zs \<notin> set (tl zs)" "last zs \<notin> set (butlast zs)"
    using assms(2) distinct_hd_tl [of zs] distinct_last_butlast [of "hd zs" "tl zs"] by simp_all
  show "hd zs \<in> set zs" "last zs \<in> set zs"
    using assms(2) by simp_all
qed

lemma ring_join3I:
  assumes "distinct (p # xs @ zs @ ys)" "zs \<noteq> []" "chain h (p # xs)" "chain h zs" "chain h (ys @ [p])"
    "link h (last (p # xs)) (hd zs)" "link h (last zs) (hd (ys @ [p]))"
  shows "ring h p (xs @ zs @ ys)"
  by (rule ring_joinI)
     (use assms in \<open>simp_all add: successively_append_iff del: last.simps successively.simps\<close>)

lemma raw_list_splice_ring:
  assumes ring: "ring h p (xs @ ys)" and q: "ring h q zs" "zs \<noteq> []"
    and disj: "insert q (set zs) \<inter> insert p (set (xs @ ys)) = {}"
  shows "\<exists>h'. raw_list_splice q (last (p # xs)) (hd (ys @ [p])) h = Some h'
    \<and> ring h' p (xs @ zs @ ys) \<and> same_except (insert p (set (xs @ zs @ ys))) h h'"
proof -
  obtain l r where l: "l = last (p # xs)" and r: "r = hd (ys @ [p])"
    and lr: "l \<in> dom h" "r \<in> dom h" and paths: "chain h (p # xs)" "chain h (ys @ [p])"
    and out: "l \<in> insert p (set xs)" "r \<in> insert p (set ys)" "l \<notin> set (butlast (p # xs))"
      "l \<notin> set ys" "r \<notin> set xs" "r \<notin> set (tl (ys @ [p]))"
      "set (butlast (p # xs)) \<subseteq> insert p (set xs)" "set (tl (ys @ [p])) \<subseteq> insert p (set ys)"
    using ring by (rule ring_joint)
  define f e where fe: "f = hd zs" "e = last zs"
  note seg = ring_segment [OF q, folded fe]
  have fe_dom: "f \<in> dom h" "e \<in> dom h"
    using ring_dom [OF q(1)] seg(4,5) by auto
  let ?h = "upd_prev r e (upd_next e r (upd_next l f (upd_prev f l h)))"
  have ne: "f \<noteq> r" "e \<noteq> l"
    using seg(4,5) out(1,2) disj by auto
  have nx: "rd_next a ?h = (if a = e then Some r else if a = l then Some f else rd_next a h)"
    and pv: "rd_prev a ?h = (if a = r then Some e else if a = f then Some l else rd_prev a h)" for a
    using lr fe_dom by (simp_all add: heap_simps)
  have mem: "e \<notin> insert p (set (xs @ ys))" "f \<notin> insert p (set (xs @ ys))"
    "l \<notin> set zs" "r \<notin> set zs"
    using disj seg(4,5) out(1,2) by auto
  have "chain ?h (p # xs) = chain h (p # xs)"
    by (rule chain_cong) (use out mem in \<open>auto simp: nx pv simp del: butlast.simps\<close>)
  moreover have "chain ?h (ys @ [p]) = chain h (ys @ [p])"
    by (rule chain_cong) (use out mem in \<open>auto simp: nx pv\<close>)
  moreover have "chain ?h zs = chain h zs"
    by (rule chain_cong)
       (use seg(6,7) mem in \<open>auto simp: nx pv dest: in_set_butlastD list.set_sel(2) [OF q(2)]\<close>)
  moreover have "link ?h l f" "link ?h e r"
    using ne by (auto simp: link_def nx pv)
  ultimately have "ring ?h p (xs @ zs @ ys)"
    using paths seg(3) q(2) disj ring_distinct [OF ring] ring_distinct [OF q(1)]
    by (intro ring_join3I) (auto simp del: last.simps successively.simps simp flip: l r fe)
  moreover have "same_except {l, r, f, e} h ?h"
    using lr fe_dom by (auto simp: same_except_def heap_simps)
  then have "same_except (insert p (set (xs @ zs @ ys))) h ?h"
    by (rule same_except_mono) (use out(1,2) seg(4,5) in auto)
  moreover have "raw_list_splice q l r h = Some ?h"
    using lr fe_dom seg(1,2) by (simp add: raw_list_splice_def heap_simps)
  ultimately show ?thesis
    unfolding l r by blast
qed

lemma list_splice_ring:
  assumes p: "ring h p xs" and q: "ring h q zs"
    and disj: "insert q (set zs) \<inter> insert p (set xs) = {}"
  shows "\<exists>h'. list_splice q p h = Some h' \<and> ring h' p (zs @ xs)
    \<and> same_except (insert p (set (zs @ xs))) h h'"
    and "\<exists>h'. list_splice_tail q p h = Some h' \<and> ring h' p (xs @ zs)
    \<and> same_except (insert p (set (xs @ zs))) h h'"
proof -
  show "\<exists>h'. list_splice q p h = Some h' \<and> ring h' p (zs @ xs)
    \<and> same_except (insert p (set (zs @ xs))) h h'"
    using raw_list_splice_ring [of h p "[]" xs q zs] assms
    by (cases "zs = []") (simp_all add: list_splice_def list_empty_ring ring_next)
  show "\<exists>h'. list_splice_tail q p h = Some h' \<and> ring h' p (xs @ zs)
    \<and> same_except (insert p (set (xs @ zs))) h h'"
    using raw_list_splice_ring [of h p xs "[]" q zs] assms
    by (cases "zs = []") (simp_all add: list_splice_tail_def list_empty_ring ring_prev del: last.simps)
qed

text \<open>
  The \<open>_init\<close> variants end with the source list empty and usable, which the
  plain ones do not promise.
\<close>

lemma splice_then_init:
  assumes h': "ring h' p ws" "same_except (insert p (set ws)) h h'"
    and q: "q \<in> dom h" "q \<notin> insert p (set ws)"
  shows "\<exists>h''. INIT_LIST_HEAD q h' = Some h'' \<and> ring h'' p ws \<and> ring h'' q []
    \<and> same_except (insert q (insert p (set ws))) h h''"
proof -
  have "q \<in> dom h'"
    using q h'(2) by (simp add: same_exceptD)
  from INIT_LIST_HEAD_ring [OF this] obtain h'' where i:
    "INIT_LIST_HEAD q h' = Some h''" "ring h'' q []" "same_except {q} h' h''"
    by blast
  have "ring h'' p ws"
    by (rule ring_keep [OF h'(1) i(3)]) (use q in auto)
  moreover have "same_except (insert q (insert p (set ws))) h h''"
    by (rule same_except_join [OF h'(2) i(3)]) auto
  ultimately show ?thesis using i by blast
qed

lemma list_splice_init_ring:
  assumes p: "ring h p xs" and q: "ring h q zs"
    and disj: "insert q (set zs) \<inter> insert p (set xs) = {}"
  shows "\<exists>h'. list_splice_init q p h = Some h' \<and> ring h' p (zs @ xs) \<and> ring h' q []
    \<and> same_except (insert q (insert p (set (zs @ xs)))) h h'"
    and "\<exists>h'. list_splice_tail_init q p h = Some h' \<and> ring h' p (xs @ zs) \<and> ring h' q []
    \<and> same_except (insert q (insert p (set (xs @ zs)))) h h'"
proof -
  have q': "q \<in> dom h" "q \<notin> insert p (set (zs @ xs))" "q \<notin> insert p (set (xs @ zs))"
    using ring_dom [OF q] ring_distinct [OF q] disj by auto
  show "\<exists>h'. list_splice_init q p h = Some h' \<and> ring h' p (zs @ xs) \<and> ring h' q []
    \<and> same_except (insert q (insert p (set (zs @ xs)))) h h'"
  proof (cases "zs = []")
    case False
    with raw_list_splice_ring [of h p "[]" xs q zs] assms obtain h1 where
      "raw_list_splice q p (hd (xs @ [p])) h = Some h1" "ring h1 p (zs @ xs)"
      "same_except (insert p (set (zs @ xs))) h h1"
      by auto
    with splice_then_init [of h1 p "zs @ xs" h q] q' False p q show ?thesis
      by (auto simp: list_splice_init_def list_empty_ring ring_next)
  qed (use p q in \<open>simp add: list_splice_init_def list_empty_ring\<close>)
  show "\<exists>h'. list_splice_tail_init q p h = Some h' \<and> ring h' p (xs @ zs) \<and> ring h' q []
    \<and> same_except (insert q (insert p (set (xs @ zs)))) h h'"
  proof (cases "zs = []")
    case False
    with raw_list_splice_ring [of h p xs "[]" q zs] assms obtain h1 where
      "raw_list_splice q (last (p # xs)) p h = Some h1" "ring h1 p (xs @ zs)"
      "same_except (insert p (set (xs @ zs))) h h1"
      by (auto simp del: last.simps)
    with splice_then_init [of h1 p "xs @ zs" h q] q' False p q show ?thesis
      by (auto simp: list_splice_tail_init_def list_empty_ring ring_prev simp del: last.simps)
  qed (use p q in \<open>simp add: list_splice_tail_init_def list_empty_ring\<close>)
qed

lemma raw_list_cut_position_ring:
  assumes ring: "ring h p (xs @ e # ys)" and t: "t \<in> dom h" "t \<notin> insert p (set (xs @ e # ys))"
  shows "\<exists>h'. raw_list_cut_position t p e h = Some h' \<and> ring h' t (xs @ [e]) \<and> ring h' p ys
    \<and> same_except (insert t (insert p (set (xs @ e # ys)))) h h'"
proof -
  have ring': "ring h p ((xs @ [e]) @ ys)"
    using ring by simp
  then obtain r where r: "r = hd (ys @ [p])" "r \<in> dom h" "chain h (p # xs @ [e])" "chain h (ys @ [p])"
    "link h e r" "r \<in> insert p (set ys)" "r \<notin> set (xs @ [e])" "r \<notin> set (tl (ys @ [p]))"
    by (rule ring_joint) simp
  define f where f: "f = hd (xs @ [e])"
  have fr: "rd_next p h = Some f" "f \<in> set (xs @ [e])" "f \<in> dom h" "e \<in> dom h" "p \<in> dom h"
    using ring_next [OF ring] hd_in_set [of "xs @ [e]"] ring_dom [OF ring]
    by (auto simp: f hd_append)
  let ?h = "upd_prev r p (upd_next p r (upd_next e t (upd_prev t e (upd_prev f t (upd_next t f h)))))"
  have d: "distinct (p # xs @ e # ys)"
    by (rule ring_distinct [OF ring])
  have ne: "t \<noteq> p" "t \<noteq> e" "t \<noteq> f" "t \<noteq> r" "f \<noteq> r" "p \<noteq> e"
    using t d fr(2) r(6,7) by auto
  have nx: "rd_next a ?h = (if a = p then Some r else if a = e then Some t
      else if a = t then Some f else rd_next a h)"
    and pv: "rd_prev a ?h = (if a = r then Some p else if a = t then Some e
      else if a = f then Some t else rd_prev a h)" for a
    using t(1) r(2) fr ne by (simp_all add: heap_simps)
  have f_tl: "f \<notin> set (tl (xs @ [e]))"
    unfolding f by (rule distinct_hd_tl) (use d in auto)
  have f_out: "f \<notin> set (tl (ys @ [p]))" "t \<notin> set (tl (ys @ [p]))"
    using d fr(2) t(2) by (cases ys; auto)+
  have "chain ?h (xs @ [e]) = chain h (xs @ [e])"
    by (rule chain_cong) (use t d f_tl r(7) in \<open>auto simp: nx pv dest: list.set_sel(2) [rotated]\<close>)
  moreover have "chain h (xs @ [e])"
    using r(3) by (simp add: successively_Cons)
  moreover have "chain ?h (ys @ [p]) = chain h (ys @ [p])"
    by (rule chain_cong) (use t d r(8) f_out in \<open>auto simp: nx pv dest: list.set_sel(2) [rotated]\<close>)
  moreover have "link ?h t f" "link ?h e t" "link ?h p r"
    using ne by (auto simp: link_def nx pv)
  ultimately have "ring ?h t (xs @ [e])" "ring ?h p ys"
    using t d r(1,4) f ring_joinI [of t "xs @ [e]" "[]" ?h] ring_joinI [of p "[]" ys ?h]
    by (auto simp: successively_Cons)
  moreover have "same_except {t, p, e, f, r} h ?h"
    using t(1) r(2) fr by (auto simp: same_except_def heap_simps)
  then have "same_except (insert t (insert p (set (xs @ e # ys)))) h ?h"
    by (rule same_except_mono) (use fr(2) r(6) in auto)
  moreover have "raw_list_cut_position t p e h = Some ?h"
    using t(1) r(2,5) fr ne by (simp add: raw_list_cut_position_def heap_simps link_def)
  ultimately show ?thesis by blast
qed

lemma list_cut_position_ring:
  assumes ring: "ring h p (xs @ e # ys)" and t: "t \<in> dom h" "t \<notin> insert p (set (xs @ e # ys))"
  shows "\<exists>h'. list_cut_position t p e h = Some h' \<and> ring h' t (xs @ [e]) \<and> ring h' p ys
    \<and> same_except (insert t (insert p (set (xs @ e # ys)))) h h'"
proof -
  have "p \<noteq> e"
    using ring_distinct [OF ring] by auto
  moreover have "length (xs @ e # ys) = 1 \<Longrightarrow> hd ((xs @ e # ys) @ [p]) = e"
    by simp
  ultimately show ?thesis
    using raw_list_cut_position_ring [OF assms] ring
    by (auto simp: list_cut_position_def list_empty_ring list_is_singular_ring ring_next)
qed
end
