(* ===== verification/List_Loop.thy ===== *)
theory List_Loop
  imports List_Head
begin

text \<open>
  The iteration macros of \<open>include/zsr/list.h\<close>. The body of a loop is a function of
  the cursor and of the state the loop runs in; it either goes on to the next entry
  (\<open>Next\<close>) or leaves the loop (\<open>Leave\<close>: a \<open>break\<close>, a \<open>return\<close> or an \<open>exit\<close>
  inside it). \<open>lk\<close> projects the list heap out of the state. A loop over a damaged
  list may never meet its head again, so the loops are partial functions: \<open>None\<close>
  where the C loop has no defined end. Over a ring every loop is a fold over the
  entries, also when the body of the \<open>_safe\<close> loop frees the entry it is at.
\<close>

datatype ('s, 'r) ctl = Next 's | Leave 'r

type_synonym ('s, 'r) body = "addr \<Rightarrow> 's \<Rightarrow> ('s, 'r) ctl option"

partial_function (option) each_from ::
    "('s, 'r) body \<Rightarrow> ('s \<Rightarrow> links) \<Rightarrow> addr \<Rightarrow> addr \<Rightarrow> 's \<Rightarrow> ('s, 'r) ctl option" where
  "each_from body lk head pos s =
     (if pos = head then Some (Next s)
      else case body pos s of
          None \<Rightarrow> None
        | Some (Leave r) \<Rightarrow> Some (Leave r)
        | Some (Next s) \<Rightarrow>
            (case rd_next pos (lk s) of
               None \<Rightarrow> None
             | Some nxt \<Rightarrow> each_from body lk head nxt s))"

definition list_for_each_entry ::
    "('s, 'r) body \<Rightarrow> ('s \<Rightarrow> links) \<Rightarrow> addr \<Rightarrow> 's \<Rightarrow> ('s, 'r) ctl option" where
  "list_for_each_entry body lk head s =
     (case rd_next head (lk s) of None \<Rightarrow> None | Some pos \<Rightarrow> each_from body lk head pos s)"

definition list_for_each_entry_continue ::
    "('s, 'r) body \<Rightarrow> ('s \<Rightarrow> links) \<Rightarrow> addr \<Rightarrow> addr \<Rightarrow> 's \<Rightarrow> ('s, 'r) ctl option" where
  "list_for_each_entry_continue body lk pos head s =
     (case rd_next pos (lk s) of None \<Rightarrow> None | Some nxt \<Rightarrow> each_from body lk head nxt s)"

definition list_for_each_entry_from ::
    "('s, 'r) body \<Rightarrow> ('s \<Rightarrow> links) \<Rightarrow> addr \<Rightarrow> addr \<Rightarrow> 's \<Rightarrow> ('s, 'r) ctl option" where
  "list_for_each_entry_from body lk pos head s = each_from body lk head pos s"

partial_function (option) each_prev_from ::
    "('s, 'r) body \<Rightarrow> ('s \<Rightarrow> links) \<Rightarrow> addr \<Rightarrow> addr \<Rightarrow> 's \<Rightarrow> ('s, 'r) ctl option" where
  "each_prev_from body lk head pos s =
     (if pos = head then Some (Next s)
      else case body pos s of
          None \<Rightarrow> None
        | Some (Leave r) \<Rightarrow> Some (Leave r)
        | Some (Next s) \<Rightarrow>
            (case rd_prev pos (lk s) of
               None \<Rightarrow> None
             | Some prv \<Rightarrow> each_prev_from body lk head prv s))"

definition list_for_each_entry_reverse ::
    "('s, 'r) body \<Rightarrow> ('s \<Rightarrow> links) \<Rightarrow> addr \<Rightarrow> 's \<Rightarrow> ('s, 'r) ctl option" where
  "list_for_each_entry_reverse body lk head s =
     (case rd_prev head (lk s) of None \<Rightarrow> None | Some pos \<Rightarrow> each_prev_from body lk head pos s)"

text \<open>\<open>n\<close> is read before the body runs and again from \<open>n\<close> itself, never from \<open>pos\<close>.\<close>

partial_function (option) each_safe_from ::
    "('s, 'r) body \<Rightarrow> ('s \<Rightarrow> links) \<Rightarrow> addr \<Rightarrow> addr \<Rightarrow> addr \<Rightarrow> 's \<Rightarrow> ('s, 'r) ctl option" where
  "each_safe_from body lk head pos n s =
     (if pos = head then Some (Next s)
      else case body pos s of
          None \<Rightarrow> None
        | Some (Leave r) \<Rightarrow> Some (Leave r)
        | Some (Next s) \<Rightarrow>
            (case rd_next n (lk s) of
               None \<Rightarrow> None
             | Some n' \<Rightarrow> each_safe_from body lk head n n' s))"

definition list_for_each_entry_safe ::
    "('s, 'r) body \<Rightarrow> ('s \<Rightarrow> links) \<Rightarrow> addr \<Rightarrow> 's \<Rightarrow> ('s, 'r) ctl option" where
  "list_for_each_entry_safe body lk head s =
     (case rd_next head (lk s) of
        None \<Rightarrow> None
      | Some pos \<Rightarrow>
          (case rd_next pos (lk s) of
             None \<Rightarrow> None
           | Some n \<Rightarrow> each_safe_from body lk head pos n s))"

text \<open>
  The remaining macros start in the middle of the list, run backwards, or walk the cells
  themselves (\<open>list_for_each\<close>: a cell and the struct it begins have one address).
\<close>

definition list_for_each_entry_continue_reverse ::
    "('s, 'r) body \<Rightarrow> ('s \<Rightarrow> links) \<Rightarrow> addr \<Rightarrow> addr \<Rightarrow> 's \<Rightarrow> ('s, 'r) ctl option" where
  "list_for_each_entry_continue_reverse body lk pos head s =
     (case rd_prev pos (lk s) of None \<Rightarrow> None | Some prv \<Rightarrow> each_prev_from body lk head prv s)"

definition list_for_each_entry_safe_continue ::
    "('s, 'r) body \<Rightarrow> ('s \<Rightarrow> links) \<Rightarrow> addr \<Rightarrow> addr \<Rightarrow> 's \<Rightarrow> ('s, 'r) ctl option" where
  "list_for_each_entry_safe_continue body lk pos head s =
     (case rd_next pos (lk s) of
        None \<Rightarrow> None
      | Some pos \<Rightarrow>
          (case rd_next pos (lk s) of
             None \<Rightarrow> None
           | Some n \<Rightarrow> each_safe_from body lk head pos n s))"

definition list_for_each_entry_safe_from ::
    "('s, 'r) body \<Rightarrow> ('s \<Rightarrow> links) \<Rightarrow> addr \<Rightarrow> addr \<Rightarrow> 's \<Rightarrow> ('s, 'r) ctl option" where
  "list_for_each_entry_safe_from body lk pos head s =
     (case rd_next pos (lk s) of None \<Rightarrow> None | Some n \<Rightarrow> each_safe_from body lk head pos n s)"

definition list_for_each ::
    "('s, 'r) body \<Rightarrow> ('s \<Rightarrow> links) \<Rightarrow> addr \<Rightarrow> 's \<Rightarrow> ('s, 'r) ctl option" where
  "list_for_each body lk head s =
     (case rd_next head (lk s) of None \<Rightarrow> None | Some pos \<Rightarrow> each_from body lk head pos s)"

definition list_for_each_prev ::
    "('s, 'r) body \<Rightarrow> ('s \<Rightarrow> links) \<Rightarrow> addr \<Rightarrow> 's \<Rightarrow> ('s, 'r) ctl option" where
  "list_for_each_prev body lk head s =
     (case rd_prev head (lk s) of None \<Rightarrow> None | Some pos \<Rightarrow> each_prev_from body lk head pos s)"

text \<open>\<open>list_for_each_safe\<close> reads the next cell of the new \<open>pos\<close>, which is \<open>n\<close>.\<close>

definition list_for_each_safe ::
    "('s, 'r) body \<Rightarrow> ('s \<Rightarrow> links) \<Rightarrow> addr \<Rightarrow> 's \<Rightarrow> ('s, 'r) ctl option" where
  "list_for_each_safe body lk head s =
     (case rd_next head (lk s) of
        None \<Rightarrow> None
      | Some pos \<Rightarrow>
          (case rd_next pos (lk s) of
             None \<Rightarrow> None
           | Some n \<Rightarrow> each_safe_from body lk head pos n s))"

declare each_from.simps [code] each_prev_from.simps [code] each_safe_from.simps [code]


subsection \<open>Loops are folds\<close>

fun fold_ctl :: "('s, 'r) body \<Rightarrow> addr list \<Rightarrow> 's \<Rightarrow> ('s, 'r) ctl option" where
  "fold_ctl body [] s = Some (Next s)"
| "fold_ctl body (x # xs) s =
     (case body x s of
        None \<Rightarrow> None
      | Some (Leave r) \<Rightarrow> Some (Leave r)
      | Some (Next s) \<Rightarrow> fold_ctl body xs s)"

text \<open>
  \<open>keep\<close> is what the body keeps; it must at least keep the list being walked.
\<close>

lemma each_from_fold:
  assumes keep: "keep s" "\<And>s. keep s \<Longrightarrow> ring (lk s) p (ws @ xs)"
    and body: "\<And>x s s'. x \<in> set xs \<Longrightarrow> keep s \<Longrightarrow> body x s = Some (Next s') \<Longrightarrow> keep s'"
  shows "each_from body lk p (hd (xs @ [p])) s = fold_ctl body xs s"
  using assms
proof (induction xs arbitrary: ws s)
  case Nil
  then show ?case by (simp add: each_from.simps)
next
  case (Cons x xs)
  have "x \<noteq> p"
    using ring_distinct [OF Cons.prems(2) [OF Cons.prems(1)]] by auto
  moreover have "each_from body lk p (hd (xs @ [p])) t = fold_ctl body xs t"
    and "rd_next x (lk t) = Some (hd (xs @ [p]))" if "keep t" for t
  proof -
    show "each_from body lk p (hd (xs @ [p])) t = fold_ctl body xs t"
      by (rule Cons.IH [OF that, of "ws @ [x]"]) (use Cons.prems in auto)
    show "rd_next x (lk t) = Some (hd (xs @ [p]))"
      using ring_entry(1) [OF Cons.prems(2) [OF that]] .
  qed
  moreover have "keep t" if "body x s = Some (Next t)" for t
    using Cons.prems(1) Cons.prems(3) [of x s t] that by simp
  ultimately show ?case
    by (cases "body x s"; cases "the (body x s)") (auto simp: each_from.simps [of _ _ _ x])
qed

lemma list_for_each_entry_fold:
  assumes "keep s" "\<And>s. keep s \<Longrightarrow> ring (lk s) p xs"
    and "\<And>x s s'. x \<in> set xs \<Longrightarrow> keep s \<Longrightarrow> body x s = Some (Next s') \<Longrightarrow> keep s'"
  shows "list_for_each_entry body lk p s = fold_ctl body xs s"
  using each_from_fold [of keep s lk p "[]" xs body] ring_next [OF assms(2) [OF assms(1)]] assms
  by (simp add: list_for_each_entry_def)

lemma each_prev_from_fold:
  assumes keep: "keep s" "\<And>s. keep s \<Longrightarrow> ring (lk s) p (xs @ ws)"
    and body: "\<And>x s s'. x \<in> set xs \<Longrightarrow> keep s \<Longrightarrow> body x s = Some (Next s') \<Longrightarrow> keep s'"
  shows "each_prev_from body lk p (last (p # xs)) s = fold_ctl body (rev xs) s"
  using assms
proof (induction xs arbitrary: ws s rule: rev_induct)
  case Nil
  then show ?case by (simp add: each_prev_from.simps)
next
  case (snoc x xs)
  have ring: "ring (lk t) p (xs @ x # ws)" if "keep t" for t
    using snoc.prems(2) [OF that] by simp
  have "x \<noteq> p"
    using ring_distinct [OF ring [OF snoc.prems(1)]] by auto
  moreover have "each_prev_from body lk p (last (p # xs)) t = fold_ctl body (rev xs) t"
    and "rd_prev x (lk t) = Some (last (p # xs))" if "keep t" for t
  proof -
    show "each_prev_from body lk p (last (p # xs)) t = fold_ctl body (rev xs) t"
      by (rule snoc.IH [OF that, of "x # ws"]) (use ring snoc.prems(3) in auto)
    show "rd_prev x (lk t) = Some (last (p # xs))"
      using ring_entry(2) [OF ring [OF that]] .
  qed
  moreover have "keep t" if "body x s = Some (Next t)" for t
    using snoc.prems(1) snoc.prems(3) [of x s t] that by simp
  moreover have "last (p # xs @ [x]) = x" by simp
  ultimately show ?case
    by (cases "body x s"; cases "the (body x s)")
       (auto simp: each_prev_from.simps [of _ _ _ x] simp del: last.simps)
qed

lemma list_for_each_entry_reverse_fold:
  assumes "keep s" "\<And>s. keep s \<Longrightarrow> ring (lk s) p xs"
    and "\<And>x s s'. x \<in> set xs \<Longrightarrow> keep s \<Longrightarrow> body x s = Some (Next s') \<Longrightarrow> keep s'"
  shows "list_for_each_entry_reverse body lk p s = fold_ctl body (rev xs) s"
  using each_prev_from_fold [of keep s lk p xs "[]" body] ring_prev [OF assms(2) [OF assms(1)]] assms
  by (simp add: list_for_each_entry_reverse_def del: last.simps)

text \<open>
  The safe loop needs of the state only that the entries still to come are linked:
  \<open>keep ys s\<close>, with \<open>ys\<close> those entries, may forget everything about the entries passed.
\<close>

lemma each_safe_from_fold:
  assumes keep: "keep (x # xs) s"
    "\<And>ys s. keep ys s \<Longrightarrow> p \<notin> set ys \<and> chain (lk s) (ys @ [p]) \<and> p \<in> dom (lk s)"
    and body: "\<And>y ys s s'. keep (y # ys) s \<Longrightarrow> body y s = Some (Next s') \<Longrightarrow> keep ys s'"
  shows "each_safe_from body lk p x (hd (xs @ [p])) s = fold_ctl body (x # xs) s"
  using keep(1)
proof (induction xs arbitrary: x s)
  case Nil
  then have "x \<noteq> p" using keep(2) by fastforce
  moreover have "\<exists>n. rd_next p (lk t) = Some n" if "body x s = Some (Next t)" for t
    using keep(2) [OF body [OF Nil that]] by (auto simp: rd_next_def)
  ultimately show ?case
    by (cases "body x s"; cases "the (body x s)")
       (fastforce simp: each_safe_from.simps [of _ _ _ x] each_safe_from.simps [of _ _ _ p])+
next
  case (Cons y xs)
  then have "x \<noteq> p" using keep(2) by fastforce
  moreover have "rd_next y (lk t) = Some (hd (xs @ [p]))"
    and "each_safe_from body lk p y (hd (xs @ [p])) t = fold_ctl body (y # xs) t"
    if "body x s = Some (Next t)" for t
    using keep(2) [OF body [OF Cons.prems that]] Cons.IH [OF body [OF Cons.prems that]]
    by (cases xs; auto simp: link_def)+
  ultimately show ?case
    by (cases "body x s"; cases "the (body x s)") (auto simp: each_safe_from.simps [of _ _ _ x])
qed

lemma list_for_each_entry_safe_fold:
  assumes "keep xs s" "ring (lk s) p xs"
    "\<And>ys s. keep ys s \<Longrightarrow> p \<notin> set ys \<and> chain (lk s) (ys @ [p]) \<and> p \<in> dom (lk s)"
    and "\<And>y ys s s'. keep (y # ys) s \<Longrightarrow> body y s = Some (Next s') \<Longrightarrow> keep ys s'"
  shows "list_for_each_entry_safe body lk p s = fold_ctl body xs s"
proof (cases xs)
  case Nil
  then show ?thesis
    using ring_next [OF assms(2)]
    by (simp add: list_for_each_entry_safe_def each_safe_from.simps)
next
  case (Cons x ys)
  then have "rd_next x (lk s) = Some (hd (ys @ [p]))"
    using ring_entry(1) [of "lk s" p "[]" x ys] assms(2) by simp
  then show ?thesis
    using each_safe_from_fold [of keep x ys s p lk body] ring_next [OF assms(2)] assms Cons
    by (simp add: list_for_each_entry_safe_def)
qed


text \<open>A safe loop whose body always goes on, and keeps what it has to.\<close>

lemma list_for_each_entry_safe_steps:
  assumes k0: "keep xs s" "ring (lk s) p xs"
    and keep: "\<And>ys s. keep ys s \<Longrightarrow> p \<notin> set ys \<and> chain (lk s) (ys @ [p]) \<and> p \<in> dom (lk s)"
    and step: "\<And>y ys s. keep (y # ys) s \<Longrightarrow> \<exists>s'. body y s = Some (Next s') \<and> keep ys s'"
  shows "\<exists>s'. list_for_each_entry_safe body lk p s = Some (Next s') \<and> keep [] s'"
proof -
  have "\<exists>s'. fold_ctl body ys t = Some (Next s') \<and> keep [] s'" if "keep ys t" for ys t
    using that
  proof (induction ys arbitrary: t)
    case (Cons y ys)
    then show ?case using step [OF Cons.prems] by fastforce
  qed simp
  from this [OF k0(1)] show ?thesis
    using list_for_each_entry_safe_fold [of keep xs s lk p body, OF k0 keep] step by fastforce
qed

text \<open>A loop whose body changes the lists elsewhere, step by step.\<close>

lemma list_for_each_entry_steps:
  assumes k0: "keep xs s" and ring: "\<And>ys s. keep ys s \<Longrightarrow> ring (lk s) p xs"
    and step: "\<And>y ys s. keep (y # ys) s \<Longrightarrow> \<exists>s'. body y s = Some (Next s') \<and> keep ys s'"
  shows "\<exists>s'. list_for_each_entry body lk p s = Some (Next s') \<and> keep [] s'"
proof -
  have "\<exists>s'. each_from body lk p (hd (ys @ [p])) t = Some (Next s') \<and> keep [] s'" if "keep ys t" "xs = zs @ ys" for zs ys t
    using that
  proof (induction ys arbitrary: t zs)
    case Nil
    then show ?case by (simp add: each_from.simps)
  next
    case (Cons y ys)
    obtain t' where t': "body y t = Some (Next t')" "keep ys t'"
      using step [OF Cons.prems(1)] by blast
    have r: "ring (lk t') p (zs @ y # ys)"
      using ring [OF t'(2)] Cons.prems(2) by simp
    have "y \<noteq> p" using ring_distinct [OF r] by auto
    then show ?case
      using t' Cons.IH [OF t'(2), of "zs @ [y]"] Cons.prems(2) ring_entry(1) [OF r] by (simp add: each_from.simps [of _ _ _ y])
  qed
  from this [OF k0, of "[]"] show ?thesis
    using ring_next [OF ring [OF k0]] by (simp add: list_for_each_entry_def)
qed

text \<open>The same when the body may also leave the loop or be undefined: what holds if the loop ends.\<close>

lemma list_for_each_entry_ends:
  assumes k0: "keep xs s" and ring: "\<And>ys s. keep ys s \<Longrightarrow> ring (lk s) p xs"
    and step: "\<And>y ys s s'. keep (y # ys) s \<Longrightarrow> body y s = Some (Next s') \<Longrightarrow> keep ys s'"
    and run: "list_for_each_entry body lk p s = Some (Next s')"
  shows "keep [] s'"
proof -
  have "keep [] s'" if "each_from body lk p (hd (ys @ [p])) t = Some (Next s')" "keep ys t" "xs = zs @ ys" for zs ys t
    using that
  proof (induction ys arbitrary: t zs)
    case Nil
    then show ?case by (simp add: each_from.simps)
  next
    case (Cons y ys)
    have "y \<noteq> p"
      using ring_distinct [OF ring [OF Cons.prems(2)]] Cons.prems(3) by auto
    then obtain t' where t': "body y t = Some (Next t')" "rd_next y (lk t') \<bind> (\<lambda>n. each_from body lk p n t') = Some (Next s')"
      using Cons.prems(1) by (auto simp: each_from.simps [of _ _ _ y] split: option.splits ctl.splits)
    have k: "keep ys t'"
      by (rule step [OF Cons.prems(2) t'(1)])
    then have "rd_next y (lk t') = Some (hd (ys @ [p]))"
      using ring_entry(1) [of "lk t'" p zs y ys] ring [OF k] Cons.prems(3) by simp
    then show ?case
      using Cons.IH [OF _ k, of "zs @ [y]"] t'(2) Cons.prems(3) by simp
  qed
  from this [OF _ k0, of "[]"] show ?thesis
    using run ring_next [OF ring [OF k0]] by (simp add: list_for_each_entry_def)
qed

text \<open>The macros that start at an entry, or next to one.\<close>

lemma list_for_each_entry_continue_fold:
  assumes "keep s" "\<And>s. keep s \<Longrightarrow> ring (lk s) p (ws @ x # xs)"
    and "\<And>y s s'. y \<in> set xs \<Longrightarrow> keep s \<Longrightarrow> body y s = Some (Next s') \<Longrightarrow> keep s'"
  shows "list_for_each_entry_continue body lk x p s = fold_ctl body xs s"
  using each_from_fold [of keep s lk p "ws @ [x]" xs body] ring_entry(1) [OF assms(2) [OF assms(1)]] assms
  by (simp add: list_for_each_entry_continue_def)

lemma list_for_each_entry_from_fold:
  assumes "keep s" "\<And>s. keep s \<Longrightarrow> ring (lk s) p (ws @ x # xs)"
    and "\<And>y s s'. y \<in> set (x # xs) \<Longrightarrow> keep s \<Longrightarrow> body y s = Some (Next s') \<Longrightarrow> keep s'"
  shows "list_for_each_entry_from body lk x p s = fold_ctl body (x # xs) s"
  using each_from_fold [of keep s lk p ws "x # xs" body] assms
  by (simp add: list_for_each_entry_from_def)

lemma list_for_each_entry_continue_reverse_fold:
  assumes "keep s" "\<And>s. keep s \<Longrightarrow> ring (lk s) p (xs @ x # ws)"
    and "\<And>y s s'. y \<in> set xs \<Longrightarrow> keep s \<Longrightarrow> body y s = Some (Next s') \<Longrightarrow> keep s'"
  shows "list_for_each_entry_continue_reverse body lk x p s = fold_ctl body (rev xs) s"
  using each_prev_from_fold [of keep s lk p xs "x # ws" body] ring_entry(2) [OF assms(2) [OF assms(1)]] assms
  by (simp add: list_for_each_entry_continue_reverse_def del: last.simps)

end
