(* ===== verification/List_Claims.thy ===== *)
theory List_Claims
  imports List_Loop
begin

text \<open>
  What \<open>include/zsr/list.h\<close> promises, over the abstraction of a list head to the list of the
  addresses in its ring: every operation of the header is the operation of the same name on
  that list, and every loop visits exactly that list.
\<close>

text \<open>A heap to try the operations on: a head at 5 with the entries 2 and 3, and a free cell 4.\<close>

definition sample_links :: links where
  "sample_links = [5 \<mapsto> \<lparr>lh_next = 2, lh_prev = 3\<rparr>, 2 \<mapsto> \<lparr>lh_next = 3, lh_prev = 5\<rparr>,
     3 \<mapsto> \<lparr>lh_next = 5, lh_prev = 2\<rparr>, 4 \<mapsto> \<lparr>lh_next = 4, lh_prev = 4\<rparr>]"

lemma sample_links_ring [simp]: "ring sample_links 5 [2, 3]" "ring sample_links 4 []" "4 \<in> dom sample_links"
  by (simp_all add: sample_links_def ring_def link_def rd_next_def rd_prev_def)

text \<open>
  C31. \<open>list_add\<close> puts a new cell in front of the list and \<open>list_add_tail\<close> at its end;
  no other cell than the new one and its neighbours changes.
\<close>

theorem list_add_refines:
  assumes "ring h p xs" "n \<in> dom h" "n \<notin> insert p (set xs)"
  shows "\<exists>h1 h2. list_add n p h = Some h1 \<and> ring h1 p (n # xs) \<and> same_except {n, p, hd (xs @ [p])} h h1
    \<and> list_add_tail n p h = Some h2 \<and> ring h2 p (xs @ [n]) \<and> same_except {n, last (p # xs), p} h h2"
  using list_add_ring [OF assms] list_add_tail_ring [OF assms] by blast

theorem list_add_refines_witness:
  "\<exists>h1 h2. list_add 4 5 sample_links = Some h1 \<and> ring h1 5 [4, 2, 3]
    \<and> list_add_tail 4 5 sample_links = Some h2 \<and> ring h2 5 [2, 3, 4]"
  using list_add_refines [of sample_links 5 "[2, 3]" 4] by auto

text \<open>
  C30. Taking an entry out: \<open>list_del\<close> removes it and nulls its pointers,
  \<open>list_del_init\<close> removes it and leaves it an empty list of its own, \<open>list_move\<close> and
  \<open>list_move_tail\<close> carry it to the front or the end, \<open>list_rotate_left\<close> is a
  rotation, and \<open>list_replace\<close> puts a cell from outside in its place.
\<close>

theorem list_edit_refines:
  assumes ring: "ring h p (xs @ n # ys)" and m: "m \<in> dom h" "m \<notin> insert p (set (xs @ n # ys))"
  shows "(\<exists>h'. list_del n h = Some h' \<and> ring h' p (xs @ ys) \<and> rd_next n h' = Some NULL \<and> rd_prev n h' = Some NULL)
    \<and> (\<exists>h'. list_del_init n h = Some h' \<and> ring h' p (xs @ ys) \<and> ring h' n [])
    \<and> (\<exists>h'. list_move n p h = Some h' \<and> ring h' p (n # xs @ ys))
    \<and> (\<exists>h'. list_move_tail n p h = Some h' \<and> ring h' p (xs @ ys @ [n]))
    \<and> (\<exists>h'. list_rotate_left p h = Some h' \<and> ring h' p (rotate1 (xs @ n # ys)))
    \<and> (\<exists>h'. list_replace n m h = Some h' \<and> ring h' p (xs @ m # ys))"
  using list_del_ring [OF ring] list_del_init_ring [OF ring] list_move_ring [OF ring]
    list_rotate_left_ring [OF ring] list_replace_ring [OF ring m]
  by blast

theorem list_edit_refines_witness:
  "(\<exists>h'. list_del 3 sample_links = Some h' \<and> ring h' 5 [2] \<and> rd_next 3 h' = Some NULL)
    \<and> (\<exists>h'. list_move 3 5 sample_links = Some h' \<and> ring h' 5 [3, 2])
    \<and> (\<exists>h'. list_replace 3 4 sample_links = Some h' \<and> ring h' 5 [2, 4])"
  using list_edit_refines [of sample_links 5 "[2]" 3 "[]" 4] by auto

text \<open>
  The tests of the header decide what they are named after: whether the list is
  empty (also the careful test), whether it has one entry, whether an entry is the last.
\<close>

theorem list_tests_decide:
  assumes "ring h p xs"
  shows "list_empty p h = Some (xs = []) \<and> list_empty_careful p h = Some (xs = [])
    \<and> list_is_singular p h = Some (length xs = 1)
    \<and> (\<forall>n\<in>set xs. list_is_last n p h = Some (n = last xs))"
proof -
  have "list_is_last n p h = Some (n = last xs)" if n: "n \<in> set xs" for n
  proof -
    obtain ys zs where s: "xs = ys @ n # zs"
      using split_list [OF n] by blast
    moreover have "n \<noteq> last zs" if "zs \<noteq> []"
      using ring_distinct [OF assms] s last_in_set [OF that] by auto
    ultimately show ?thesis
      using list_is_last_ring [of h p ys n zs] assms by auto
  qed
  then show ?thesis
    using assms by (simp add: list_empty_ring list_empty_careful_ring list_is_singular_ring)
qed

theorem list_tests_decide_witness:
  "list_empty 5 sample_links = Some False \<and> list_is_singular 5 sample_links = Some False
    \<and> list_is_last 3 5 sample_links = Some True \<and> list_is_last 2 5 sample_links = Some False"
  using list_tests_decide [of sample_links 5 "[2, 3]"] by simp

text \<open>
  C32. Joining two lists: \<open>list_splice\<close> puts the entries of \<open>q\<close> before those of
  \<open>p\<close>, \<open>list_splice_tail\<close> after them, and their \<open>_init\<close> variants leave \<open>q\<close> empty.
\<close>

theorem list_splice_refines:
  assumes "ring h p xs" "ring h q zs" "insert q (set zs) \<inter> insert p (set xs) = {}"
  shows "(\<exists>h'. list_splice q p h = Some h' \<and> ring h' p (zs @ xs))
    \<and> (\<exists>h'. list_splice_tail q p h = Some h' \<and> ring h' p (xs @ zs))
    \<and> (\<exists>h'. list_splice_init q p h = Some h' \<and> ring h' p (zs @ xs) \<and> ring h' q [])
    \<and> (\<exists>h'. list_splice_tail_init q p h = Some h' \<and> ring h' p (xs @ zs) \<and> ring h' q [])"
  using list_splice_ring [OF assms] list_splice_init_ring [OF assms] by blast

theorem list_splice_refines_witness:
  "\<exists>h'. list_splice_init 5 4 sample_links = Some h' \<and> ring h' 4 [2, 3] \<and> ring h' 5 []"
  using list_splice_refines [of sample_links 4 "[]" 5 "[2, 3]"] by auto

text \<open>
  C33. Cutting a list at an entry moves everything up to and with that entry to the
  other head, and splicing the cut part back in front restores the list.
\<close>

theorem list_cut_splice_roundtrip:
  assumes "ring h p (xs @ e # ys)" "t \<in> dom h" "t \<notin> insert p (set (xs @ e # ys))"
  shows "\<exists>h1 h2. list_cut_position t p e h = Some h1 \<and> ring h1 t (xs @ [e]) \<and> ring h1 p ys
    \<and> list_splice_init t p h1 = Some h2 \<and> ring h2 p (xs @ e # ys) \<and> ring h2 t []"
proof -
  from list_cut_position_ring [OF assms] obtain h1 where
    h1: "list_cut_position t p e h = Some h1" "ring h1 t (xs @ [e])" "ring h1 p ys"
    by blast
  moreover have "insert t (set (xs @ [e])) \<inter> insert p (set ys) = {}"
    using ring_distinct [OF assms(1)] assms(3) by auto
  ultimately show ?thesis
    using list_splice_init_ring(1) [of h1 p ys t "xs @ [e]"] by auto
qed

theorem list_cut_splice_roundtrip_witness:
  "\<exists>h1 h2. list_cut_position 4 5 2 sample_links = Some h1 \<and> ring h1 4 [2] \<and> ring h1 5 [3]
    \<and> list_splice_init 4 5 h1 = Some h2 \<and> ring h2 5 [2, 3] \<and> ring h2 4 []"
  using list_cut_splice_roundtrip [of sample_links 5 "[]" 2 "[3]" 4] by auto

text \<open>
  C34. The loops are folds: a loop whose body keeps the list visits the entries in
  order, backwards for the \<open>_reverse\<close> variant and from the next entry on for the
  \<open>_continue\<close> variants, and it ends, whatever the body does otherwise.
\<close>

theorem list_loops_are_folds:
  assumes keep: "keep s" "\<And>s. keep s \<Longrightarrow> ring (lk s) p (xs @ x # ys)"
    and body: "\<And>y s s'. keep s \<Longrightarrow> body y s = Some (Next s') \<Longrightarrow> keep s'"
  shows "list_for_each_entry body lk p s = fold_ctl body (xs @ x # ys) s
    \<and> list_for_each_entry_reverse body lk p s = fold_ctl body (rev (xs @ x # ys)) s
    \<and> list_for_each_entry_from body lk x p s = fold_ctl body (x # ys) s
    \<and> list_for_each_entry_continue body lk x p s = fold_ctl body ys s
    \<and> list_for_each_entry_continue_reverse body lk x p s = fold_ctl body (rev xs) s"
  using list_for_each_entry_fold [of keep s lk p "xs @ x # ys" body]
    list_for_each_entry_reverse_fold [of keep s lk p "xs @ x # ys" body]
    list_for_each_entry_from_fold [of keep s lk p xs x ys body]
    list_for_each_entry_continue_fold [of keep s lk p xs x ys body]
    list_for_each_entry_continue_reverse_fold [of keep s lk p xs x ys body] assms
  by blast

text \<open>A body that notes the addresses it is called at.\<close>

definition trace_body :: "addr \<Rightarrow> addr list \<Rightarrow> (addr list, addr list) ctl option" where
  "trace_body a t = Some (Next (t @ [a]))"

theorem list_loops_are_folds_witness:
  "list_for_each_entry trace_body (\<lambda>_. sample_links) 5 [] = Some (Next [2, 3])
    \<and> list_for_each_entry_reverse trace_body (\<lambda>_. sample_links) 5 [] = Some (Next [3, 2])"
  using list_loops_are_folds [of "\<lambda>_. True" "[]" "\<lambda>_. sample_links" 5 "[2]" 3 "[]" trace_body]
  by (simp add: trace_body_def)

end
