(* ===== verification/List_Entry.thy ===== *)
theory List_Entry
  imports List_Loop
begin

text \<open>
  The macros of \<open>include/zsr/list.h\<close> that go from a list cell to the struct it is a member of, and
  the loops that walk backwards and survive the removal of their entry. Everywhere else the
  development identifies a cell with its struct; the lemmas here say why: \<open>list_entry\<close> undoes the
  offset of the member, and the loop over structs is the loop over their cells.
\<close>

subsection \<open>Entries\<close>

text \<open>
  \<open>off\<close> is \<open>offsetof(type, member)\<close>. A pointer in front of the first address is undefined.
\<close>

definition container_of :: "addr \<Rightarrow> nat \<Rightarrow> addr option" where
  "container_of ptr off = (if off \<le> ptr then Some (ptr - off) else None)"

definition list_entry :: "addr \<Rightarrow> nat \<Rightarrow> addr option" where
  "list_entry ptr off = container_of ptr off"

definition list_first_entry :: "addr \<Rightarrow> nat \<Rightarrow> links \<Rightarrow> addr option" where
  "list_first_entry ptr off h = do { n \<leftarrow> rd_next ptr h; list_entry n off }"

definition list_last_entry :: "addr \<Rightarrow> nat \<Rightarrow> links \<Rightarrow> addr option" where
  "list_last_entry ptr off h = do { n \<leftarrow> rd_prev ptr h; list_entry n off }"

definition list_first_entry_or_null :: "addr \<Rightarrow> nat \<Rightarrow> links \<Rightarrow> addr option" where
  "list_first_entry_or_null ptr off h = do {
     e \<leftarrow> list_empty ptr h;
     if \<not> e then list_first_entry ptr off h else Some NULL
   }"

definition list_next_entry :: "addr \<Rightarrow> nat \<Rightarrow> links \<Rightarrow> addr option" where
  "list_next_entry pos off h = do { n \<leftarrow> rd_next (pos + off) h; list_entry n off }"

definition list_prev_entry :: "addr \<Rightarrow> nat \<Rightarrow> links \<Rightarrow> addr option" where
  "list_prev_entry pos off h = do { n \<leftarrow> rd_prev (pos + off) h; list_entry n off }"

definition list_prepare_entry :: "addr \<Rightarrow> addr \<Rightarrow> nat \<Rightarrow> addr option" where
  "list_prepare_entry pos head off = (if pos \<noteq> NULL then Some pos else list_entry head off)"

text \<open>The new value of the temporary \<open>n\<close>.\<close>

definition list_safe_reset_next :: "addr \<Rightarrow> nat \<Rightarrow> links \<Rightarrow> addr option" where
  "list_safe_reset_next pos off h = list_next_entry pos off h"

definition LIST_HEAD_INIT :: "addr \<Rightarrow> list_head" where
  "LIST_HEAD_INIT name = \<lparr>lh_next = name, lh_prev = name\<rparr>"

definition LIST_HEAD :: "addr \<Rightarrow> links \<Rightarrow> links" where
  "LIST_HEAD name h = h(name \<mapsto> LIST_HEAD_INIT name)"

subsection \<open>Loops over structs\<close>

text \<open>\<open>list_for_each_entry\<close> as the macro is written, for a member at any offset.\<close>

partial_function (option) member_from ::
    "('s, 'r) body \<Rightarrow> ('s \<Rightarrow> links) \<Rightarrow> nat \<Rightarrow> addr \<Rightarrow> addr \<Rightarrow> 's \<Rightarrow> ('s, 'r) ctl option" where
  "member_from body lk off head pos s =
     (if pos + off = head then Some (Next s)
      else case body pos s of
          None \<Rightarrow> None
        | Some (Leave r) \<Rightarrow> Some (Leave r)
        | Some (Next s) \<Rightarrow>
            (case list_next_entry pos off (lk s) of
               None \<Rightarrow> None
             | Some pos \<Rightarrow> member_from body lk off head pos s))"

definition list_for_each_member ::
    "('s, 'r) body \<Rightarrow> ('s \<Rightarrow> links) \<Rightarrow> nat \<Rightarrow> addr \<Rightarrow> 's \<Rightarrow> ('s, 'r) ctl option" where
  "list_for_each_member body lk off head s =
     (case list_first_entry head off (lk s) of
        None \<Rightarrow> None
      | Some pos \<Rightarrow> member_from body lk off head pos s)"

subsection \<open>Backwards and safe\<close>

partial_function (option) each_safe_prev_from ::
    "('s, 'r) body \<Rightarrow> ('s \<Rightarrow> links) \<Rightarrow> addr \<Rightarrow> addr \<Rightarrow> addr \<Rightarrow> 's \<Rightarrow> ('s, 'r) ctl option" where
  "each_safe_prev_from body lk head pos n s =
     (if pos = head then Some (Next s)
      else case body pos s of
          None \<Rightarrow> None
        | Some (Leave r) \<Rightarrow> Some (Leave r)
        | Some (Next s) \<Rightarrow>
            (case rd_prev n (lk s) of
               None \<Rightarrow> None
             | Some n' \<Rightarrow> each_safe_prev_from body lk head n n' s))"

definition list_for_each_entry_safe_reverse ::
    "('s, 'r) body \<Rightarrow> ('s \<Rightarrow> links) \<Rightarrow> addr \<Rightarrow> 's \<Rightarrow> ('s, 'r) ctl option" where
  "list_for_each_entry_safe_reverse body lk head s =
     (case rd_prev head (lk s) of
        None \<Rightarrow> None
      | Some pos \<Rightarrow>
          (case rd_prev pos (lk s) of
             None \<Rightarrow> None
           | Some n \<Rightarrow> each_safe_prev_from body lk head pos n s))"

text \<open>\<open>list_for_each_prev_safe\<close> reads the previous cell of the new \<open>pos\<close>, which is \<open>n\<close>.\<close>

definition list_for_each_prev_safe ::
    "('s, 'r) body \<Rightarrow> ('s \<Rightarrow> links) \<Rightarrow> addr \<Rightarrow> 's \<Rightarrow> ('s, 'r) ctl option" where
  "list_for_each_prev_safe body lk head s =
     (case rd_prev head (lk s) of
        None \<Rightarrow> None
      | Some pos \<Rightarrow>
          (case rd_prev pos (lk s) of
             None \<Rightarrow> None
           | Some n \<Rightarrow> each_safe_prev_from body lk head pos n s))"

declare member_from.simps [code] each_safe_prev_from.simps [code]

subsection \<open>Entries of a ring\<close>

lemma list_entry_member [simp]: "list_entry (a + off) off = Some a" "list_entry a 0 = Some a"
  by (simp_all add: list_entry_def container_of_def)

text \<open>A ring of structs \<open>xs\<close> linked through their member.\<close>

abbreviation members :: "nat \<Rightarrow> addr list \<Rightarrow> addr list" where
  "members off xs \<equiv> map (\<lambda>x. x + off) xs"

lemma list_first_entry_ring:
  "ring h p (members off (x # xs)) \<Longrightarrow> list_first_entry p off h = Some x"
  "ring h p (members off (x # xs)) \<Longrightarrow> list_first_entry_or_null p off h = Some x"
  "ring h p [] \<Longrightarrow> list_first_entry_or_null p off h = Some NULL"
  by (simp_all add: list_first_entry_def list_first_entry_or_null_def ring_next list_empty_ring)

lemma list_last_entry_ring: "ring h p (members off (xs @ [x])) \<Longrightarrow> list_last_entry p off h = Some x"
  using ring_prev [of h p "members off (xs @ [x])"] by (simp add: list_last_entry_def)

lemma list_next_entry_ring:
  "ring h p (members off (xs @ x # y # ys)) \<Longrightarrow> list_next_entry x off h = Some y"
  "ring h p (members off (xs @ x # y # ys)) \<Longrightarrow> list_prev_entry y off h = Some x"
  using ring_entry [of h p "members off xs" "x + off" "members off (y # ys)"]
    ring_entry [of h p "members off (xs @ [x])" "y + off" "members off ys"]
  by (simp_all add: list_next_entry_def list_prev_entry_def)

lemma LIST_HEAD_ring: "ring (LIST_HEAD name h) name []"
  by (simp add: LIST_HEAD_def LIST_HEAD_INIT_def ring_Nil link_def rd_next_def rd_prev_def)

text \<open>
  The loop over the structs is a fold over them. When it ends, the struct around the head is
  computed, so the head must not lie too close to the first address.
\<close>

lemma list_for_each_member_fold:
  assumes keep: "keep s" "\<And>s. keep s \<Longrightarrow> ring (lk s) p (members off xs)"
    and body: "\<And>x s s'. x \<in> set xs \<Longrightarrow> keep s \<Longrightarrow> body x s = Some (Next s') \<Longrightarrow> keep s'" and p: "off \<le> p"
  shows "list_for_each_member body lk off p s = fold_ctl body xs s"
proof -
  define at where "at = (\<lambda>ys. hd (ys @ [p - off]))"
  have entry: "list_entry (hd (members off ys @ [p])) off = Some (at ys)" for ys
    using p by (cases ys) (simp_all add: at_def list_entry_def container_of_def)
  have "member_from body lk off p (at ys) t = fold_ctl body ys t" if "keep t" "xs = zs @ ys" for zs ys t
    using that
  proof (induction ys arbitrary: t zs)
    case Nil
    then show ?case using p by (simp add: member_from.simps at_def)
  next
    case (Cons y ys)
    have "y + off \<noteq> p"
      using ring_distinct [OF keep(2) [OF Cons.prems(1)]] Cons.prems(2) by auto
    moreover have "keep t'" if "body y t = Some (Next t')" for t'
      using body [OF _ Cons.prems(1) that] Cons.prems(2) by simp
    moreover have "list_next_entry y off (lk t') = Some (at ys)" if "keep t'" for t'
      using ring_entry(1) [of "lk t'" p "members off zs" "y + off" "members off ys"] keep(2) [OF that] Cons.prems(2) entry
      by (simp add: list_next_entry_def)
    moreover have "member_from body lk off p (at ys) t' = fold_ctl body ys t'" if "keep t'" for t'
      using Cons.IH [OF that, of "zs @ [y]"] Cons.prems(2) by simp
    moreover have "at (y # ys) = y"
      by (simp add: at_def)
    ultimately show ?case
      by (cases "body y t"; cases "the (body y t)") (simp_all add: member_from.simps [of _ _ _ _ y])
  qed
  from this [OF keep(1), of "[]" xs] show ?thesis
    using ring_next [OF keep(2) [OF keep(1)]] entry [of xs] by (simp add: list_for_each_member_def list_first_entry_def)
qed

text \<open>
  The backward safe loop needs of the state only that the entries still to come are linked:
  \<open>keep ys s\<close>, with \<open>ys\<close> those entries, may forget everything about the entries passed.
\<close>

lemma each_safe_prev_from_fold:
  assumes keep: "keep (xs @ [x]) s"
    "\<And>ys s. keep ys s \<Longrightarrow> p \<notin> set ys \<and> chain (lk s) (p # ys) \<and> p \<in> dom (lk s)"
    and body: "\<And>y ys s s'. keep (ys @ [y]) s \<Longrightarrow> body y s = Some (Next s') \<Longrightarrow> keep ys s'"
  shows "each_safe_prev_from body lk p x (last (p # xs)) s = fold_ctl body (x # rev xs) s"
  using keep(1)
proof (induction xs arbitrary: x s rule: rev_induct)
  case Nil
  then have "x \<noteq> p" using keep(2) by fastforce
  moreover have "\<exists>n. rd_prev p (lk t) = Some n" if "body x s = Some (Next t)" for t
    using keep(2) [OF body [of "[]", simplified, OF _ that]] Nil by (auto simp: rd_prev_def)
  ultimately show ?case
    by (cases "body x s"; cases "the (body x s)")
       (fastforce simp: each_safe_prev_from.simps [of _ _ _ x] each_safe_prev_from.simps [of _ _ _ p])+
next
  case (snoc y xs)
  then have "x \<noteq> p" using keep(2) by fastforce
  moreover have "rd_prev y (lk t) = Some (last (p # xs))"
    and "each_safe_prev_from body lk p y (last (p # xs)) t = fold_ctl body (y # rev xs) t"
    if "body x s = Some (Next t)" for t
  proof -
    have k: "keep (xs @ [y]) t"
      by (rule body [OF snoc.prems that])
    have "chain (lk t) ((p # xs) @ [y])"
      using keep(2) [OF k] by simp
    then show "rd_prev y (lk t) = Some (last (p # xs))"
      unfolding successively_append_iff by (simp add: link_def)
    show "each_safe_prev_from body lk p y (last (p # xs)) t = fold_ctl body (y # rev xs) t"
      by (rule snoc.IH [OF k])
  qed
  moreover have "last (p # xs @ [y]) = y" by simp
  ultimately show ?case
    by (cases "body x s"; cases "the (body x s)")
       (auto simp: each_safe_prev_from.simps [of _ _ _ x] simp del: last.simps)
qed

lemma list_for_each_entry_safe_reverse_fold:
  assumes "keep xs s" "ring (lk s) p xs"
    "\<And>ys s. keep ys s \<Longrightarrow> p \<notin> set ys \<and> chain (lk s) (p # ys) \<and> p \<in> dom (lk s)"
    and "\<And>y ys s s'. keep (ys @ [y]) s \<Longrightarrow> body y s = Some (Next s') \<Longrightarrow> keep ys s'"
  shows "list_for_each_entry_safe_reverse body lk p s = fold_ctl body (rev xs) s"
    "list_for_each_prev_safe body lk p s = fold_ctl body (rev xs) s"
proof -
  show "list_for_each_entry_safe_reverse body lk p s = fold_ctl body (rev xs) s"
  proof (cases xs rule: rev_cases)
    case Nil
    then show ?thesis
      using ring_prev [OF assms(2)] by (simp add: list_for_each_entry_safe_reverse_def each_safe_prev_from.simps)
  next
    case (snoc ys x)
    then have "rd_prev x (lk s) = Some (last (p # ys))"
      using ring_entry(2) [of "lk s" p ys x "[]"] assms(2) by simp
    then show ?thesis
      using each_safe_prev_from_fold [of keep ys x s p lk body] ring_prev [OF assms(2)] assms snoc
      by (simp add: list_for_each_entry_safe_reverse_def)
  qed
  then show "list_for_each_prev_safe body lk p s = fold_ctl body (rev xs) s"
    by (simp add: list_for_each_prev_safe_def list_for_each_entry_safe_reverse_def)
qed

end
