(* ===== verification/C_Text.thy ===== *)
theory C_Text
  imports Prelude
begin

text \<open>
  The part of the C library's text handling that the sources use, as glibc does
  it in the C locale: \<open>fgets\<close>, the conversions of \<open>sscanf\<close>, \<open>strtok\<close>, the
  bounded and unbounded string copies, and the integer conversions of
  \<open>printf\<close>. A C string is the list of its characters before the terminating
  NUL; a \<open>char\<close> array of the program is the list of all its bytes.
\<close>

abbreviation NUL :: char where "NUL \<equiv> CHR 0x00"
abbreviation newline :: char where "newline \<equiv> CHR 0x0A"


subsection \<open>Characters and digits\<close>

definition isspace :: "char \<Rightarrow> bool" where
  "isspace c \<longleftrightarrow> c \<in> {CHR '' '', CHR 0x09, CHR 0x0A, CHR 0x0B, CHR 0x0C, CHR 0x0D}"

definition isdigit :: "char \<Rightarrow> bool" where
  "isdigit c \<longleftrightarrow> 48 \<le> (of_char c :: nat) \<and> (of_char c :: nat) \<le> 57"

definition digit_val :: "char \<Rightarrow> nat" where
  "digit_val c = of_char c - 48"

definition digit_char :: "nat \<Rightarrow> char" where
  "digit_char n = char_of (48 + n)"

definition nat_of_digits :: "string \<Rightarrow> nat" where
  "nat_of_digits ds = foldl (\<lambda>n c. 10 * n + digit_val c) 0 ds"

fun dec :: "nat \<Rightarrow> string" where
  "dec n = (if n < 10 then [digit_char n] else dec (n div 10) @ [digit_char (n mod 10)])"

declare dec.simps [simp del]

lemma digit_char_eval [text_simps]:
  "digit_char 0 = CHR ''0''" "digit_char 1 = CHR ''1''" "digit_char (Suc 0) = CHR ''1''"
  "digit_char 2 = CHR ''2''" "digit_char 3 = CHR ''3''" "digit_char 4 = CHR ''4''"
  "digit_char 5 = CHR ''5''" "digit_char 6 = CHR ''6''" "digit_char 7 = CHR ''7''"
  "digit_char 8 = CHR ''8''" "digit_char 9 = CHR ''9''"
  by (simp_all add: digit_char_def char_of_def bit_0)

lemma isdigit_digit_char [simp]: "n < 10 \<Longrightarrow> isdigit (digit_char n)"
  by (simp add: isdigit_def digit_char_def)

lemma digit_val_digit_char [simp]: "n < 10 \<Longrightarrow> digit_val (digit_char n) = n"
  by (simp add: digit_val_def digit_char_def)

lemma isdigit_not_special:
  "isdigit c \<Longrightarrow> \<not> isspace c \<and> c \<noteq> CHR ''-'' \<and> c \<noteq> CHR ''+'' \<and> c \<noteq> CHR ''.'' \<and> c \<noteq> NUL
     \<and> c \<noteq> newline \<and> c \<noteq> CHR '','' \<and> c \<noteq> CHR '';''"
  by (auto simp: isdigit_def isspace_def)

lemma isspace_not_digit: "isspace c \<Longrightarrow> \<not> isdigit c"
  using isdigit_not_special by blast

lemma dec_digits: "list_all isdigit (dec n)"
proof (induction n rule: dec.induct)
  case (1 n)
  then show ?case by (simp add: dec.simps [of n])
qed

lemma dec_nonempty [simp]: "dec n \<noteq> []"
  by (simp add: dec.simps [of n])

lemma nat_of_digits_snoc: "nat_of_digits (ds @ [c]) = 10 * nat_of_digits ds + digit_val c"
  by (simp add: nat_of_digits_def)

lemma nat_of_digits_dec [simp]: "nat_of_digits (dec n) = n"
proof (induction n rule: dec.induct)
  case (1 n)
  then show ?case
    by (simp add: dec.simps [of n] nat_of_digits_snoc) (simp add: nat_of_digits_def)
qed

lemma length_dec: "n < 10 ^ k \<Longrightarrow> 0 < k \<Longrightarrow> length (dec n) \<le> k"
proof (induction n arbitrary: k rule: dec.induct)
  case (1 n)
  show ?case
  proof (cases "n < 10")
    case False
    with 1(2,3) obtain j where "k = Suc j" "0 < j" "n div 10 < 10 ^ j"
      by (cases k; cases "k - 1") (auto simp: less_mult_imp_div_less mult.commute)
    with 1(1) False show ?thesis
      by (simp add: dec.simps [of n])
  qed (use 1 in \<open>simp add: dec.simps [of n]\<close>)
qed

lemma takeWhile_digits [text_simps]:
  "list_all isdigit ds \<Longrightarrow> (rest = [] \<or> \<not> isdigit (hd rest)) \<Longrightarrow>
     takeWhile isdigit (ds @ rest) = ds \<and> dropWhile isdigit (ds @ rest) = rest"
  by (cases rest) (auto simp: list_all_iff takeWhile_append dropWhile_append)


subsection \<open>Lines: fgets\<close>

text \<open>
  \<open>fgets(buf, n, fp)\<close> stores at most \<open>n - 1\<close> characters of the stream, up to and
  including the first newline, and leaves the rest for the next call. The code
  reads the buffer as a C string, so what it sees ends at a NUL.
\<close>

definition fgets_len :: "nat \<Rightarrow> string \<Rightarrow> nat" where
  "fgets_len n s = min (n - 1) (Suc (length (takeWhile (\<lambda>c. c \<noteq> newline) s)))"

definition cstr :: "string \<Rightarrow> string" where
  "cstr s = takeWhile (\<lambda>c. c \<noteq> NUL) s"

definition fgets :: "nat \<Rightarrow> string \<Rightarrow> (string \<times> string) option" where
  "fgets n s = (if s = [] then None else Some (cstr (take (fgets_len n s) s), drop (fgets_len n s) s))"

text \<open>The buffers that successive calls of \<open>fgets\<close> deliver until it returns NULL.\<close>

function fgets_all :: "nat \<Rightarrow> string \<Rightarrow> string list" where
  "fgets_all n s = (if n < 2 then [] else case fgets n s of None \<Rightarrow> [] | Some (buf, rest) \<Rightarrow> buf # fgets_all n rest)"
  by pat_completeness auto
termination
  by (relation "measure (\<lambda>(n, s). length s)") (auto simp: fgets_def fgets_len_def split: if_splits)

declare fgets_all.simps [simp del]

lemma fgets_all_Nil [simp]: "fgets_all n [] = []"
  by (simp add: fgets_all.simps fgets_def)

lemma cstr_id [simp]: "NUL \<notin> set s \<Longrightarrow> cstr s = s"
  by (auto simp: cstr_def takeWhile_eq_all_conv)

text \<open>A line that fits the buffer is delivered whole, with its newline.\<close>

lemma fgets_all_line [text_simps]:
  assumes "newline \<notin> set l" "NUL \<notin> set l" "length l + 2 \<le> n"
  shows "fgets_all n (l @ newline # rest) = (l @ [newline]) # fgets_all n rest"
proof -
  have "takeWhile (\<lambda>c. c \<noteq> newline) (l @ newline # rest) = l"
    using assms(1) by (auto simp: takeWhile_append takeWhile_eq_all_conv)
  then have "fgets_len n (l @ newline # rest) = Suc (length l)"
    using assms(3) by (simp add: fgets_len_def)
  then show ?thesis
    using assms by (simp add: fgets_all.simps [of n "l @ newline # rest"] fgets_def)
qed

lemma fgets_all_chunk:
  assumes "newline \<notin> set l" "NUL \<notin> set l" "n \<le> length l + 1" "2 \<le> n"
  shows "fgets_all n (l @ newline # rest) = take (n - 1) l # fgets_all n (drop (n - 1) l @ newline # rest)"
proof -
  have "takeWhile (\<lambda>c. c \<noteq> newline) (l @ newline # rest) = l"
    using assms(1) by (auto simp: takeWhile_append takeWhile_eq_all_conv)
  then have "fgets_len n (l @ newline # rest) = n - 1"
    using assms(3) by (simp add: fgets_len_def)
  moreover have "NUL \<notin> set (take (n - 1) l)"
    using assms(2) by (meson in_set_takeD)
  ultimately show ?thesis
    using assms(3,4) by (simp add: fgets_all.simps [of n "l @ newline # rest"] fgets_def)
qed

text \<open>Every buffer is a piece of the stream.\<close>

lemma fgets_all_piece: "b \<in> set (fgets_all n s) \<Longrightarrow> \<exists>k m. b = cstr (take m (drop k s))"
proof (induction n s rule: fgets_all.induct)
  case (1 n s)
  show ?case
  proof (cases "n < 2 \<or> s = []")
    case True
    then have "fgets_all n s = []"
      by (auto simp: fgets_all.simps [of n s] fgets_def)
    with 1(2) show ?thesis by simp
  next
    case False
    let ?m = "fgets_len n s"
    have f: "fgets n s = Some (cstr (take ?m s), drop ?m s)"
      using False by (simp add: fgets_def)
    then have "b = cstr (take ?m (drop 0 s)) \<or> b \<in> set (fgets_all n (drop ?m s))"
      using 1(2) False by (simp add: fgets_all.simps [of n s])
    moreover have "\<exists>k m. b = cstr (take m (drop k s))" if "b \<in> set (fgets_all n (drop ?m s))"
      using 1(1) [OF _ f refl that] False by (auto simp: drop_drop)
    ultimately show ?thesis by blast
  qed
qed

lemma fgets_all_lines:
  assumes "\<forall>l\<in>set ls. newline \<notin> set l \<and> NUL \<notin> set l \<and> length l + 2 \<le> n"
  shows "fgets_all n (concat (map (\<lambda>l. l @ [newline]) ls)) = map (\<lambda>l. l @ [newline]) ls"
  using assms by (induction ls) (simp_all add: fgets_all_line)

lemma fgets_bounded: "fgets n s = Some (buf, rest) \<Longrightarrow> length buf \<le> n - 1 \<and> NUL \<notin> set buf"
  using length_takeWhile_le [of "\<lambda>c. c \<noteq> NUL" "take (fgets_len n s) s"]
  by (auto simp: fgets_def fgets_len_def cstr_def dest: set_takeWhileD split: if_splits)



subsection \<open>Conversions: sscanf\<close>

text \<open>
  A conversion skips white space, reads the longest input of its form, and fails
  (\<open>None\<close>) where there is none. glibc converts \<open>%lu\<close> with \<open>strtoul\<close>: a value
  that does not fit saturates, a minus sign negates modulo \<open>2\<^sup>6\<^sup>4\<close>.
\<close>

type_synonym 'a conv = "string \<Rightarrow> ('a \<times> string) option"

definition scan_sign :: "string \<Rightarrow> bool \<times> string" where
  "scan_sign s = (case s of [] \<Rightarrow> (False, s) | c # cs \<Rightarrow>
     if c = CHR ''-'' then (True, cs) else if c = CHR ''+'' then (False, cs) else (False, s))"

definition strtoul :: "bool \<Rightarrow> nat \<Rightarrow> u64" where
  "strtoul neg n = (if 2 ^ 64 \<le> n then - 1 else if neg then - of_nat n else of_nat n)"

definition strtol :: "bool \<Rightarrow> nat \<Rightarrow> int" where
  "strtol neg n = (if neg then max (- (2 ^ 63)) (- int n) else min (2 ^ 63 - 1) (int n))"

definition scan_digits :: "(bool \<times> nat) conv" where
  "scan_digits s =
     (let (neg, s1) = scan_sign (dropWhile isspace s); ds = takeWhile isdigit s1
      in if ds = [] then None else Some ((neg, nat_of_digits ds), dropWhile isdigit s1))"

definition scan_lu :: "u64 conv" where
  "scan_lu s = map_option (\<lambda>((neg, n), r). (strtoul neg n, r)) (scan_digits s)"

definition scan_u :: "u32 conv" where
  "scan_u s = map_option (\<lambda>((neg, n), r). (ucast (strtoul neg n), r)) (scan_digits s)"

definition scan_d :: "int conv" where
  "scan_d s = map_option (\<lambda>((neg, n), r). (signed_take_bit 31 (strtol neg n), r)) (scan_digits s)"

definition isxdigit :: "char \<Rightarrow> bool" where
  "isxdigit c \<longleftrightarrow> isdigit c \<or> (65 \<le> (of_char c :: nat) \<and> (of_char c :: nat) \<le> 70)
     \<or> (97 \<le> (of_char c :: nat) \<and> (of_char c :: nat) \<le> 102)"

definition xdigit_val :: "char \<Rightarrow> nat" where
  "xdigit_val c = (if isdigit c then digit_val c
     else if (of_char c :: nat) \<le> 70 then of_char c - 55 else of_char c - 87)"

definition nat_of_xdigits :: "string \<Rightarrow> nat" where
  "nat_of_xdigits ds = foldl (\<lambda>n c. 16 * n + xdigit_val c) 0 ds"

definition drop_0x :: "string \<Rightarrow> string" where
  "drop_0x s = (case s of a # b # c # r \<Rightarrow>
     if a = CHR ''0'' \<and> (b = CHR ''x'' \<or> b = CHR ''X'') \<and> isxdigit c then c # r else s | _ \<Rightarrow> s)"

definition scan_lx :: "u64 conv" where
  "scan_lx s =
     (let (neg, s1) = scan_sign (dropWhile isspace s); s2 = drop_0x s1; ds = takeWhile isxdigit s2
      in if ds = [] then None else Some (strtoul neg (nat_of_xdigits ds), dropWhile isxdigit s2))"

definition scan_s :: "string conv" where
  "scan_s s =
     (let s1 = dropWhile isspace s; w = takeWhile (\<lambda>c. \<not> isspace c) s1
      in if w = [] then None else Some (w, dropWhile (\<lambda>c. \<not> isspace c) s1))"

lemma scan_s_word:
  assumes "list_all isspace ws" "w \<noteq> ''''" "\<forall>c\<in>set w. \<not> isspace c" "rest = [] \<or> isspace (hd rest)"
  shows "scan_s (ws @ w @ rest) = Some (w, rest)"
proof -
  have "dropWhile isspace (ws @ w @ rest) = w @ rest"
    using assms(1-3) by (induction ws) (auto simp: dropWhile_append)
  moreover have "takeWhile (\<lambda>c. \<not> isspace c) (w @ rest) = w" "dropWhile (\<lambda>c. \<not> isspace c) (w @ rest) = rest"
    using assms(3,4) by (cases rest; simp add: takeWhile_append dropWhile_append)+
  ultimately show ?thesis
    using assms(2) by (simp add: scan_s_def)
qed

text \<open>A format of \<open>k\<close> equal conversions assigns as many arguments as succeed.\<close>

fun scan_many :: "'a conv \<Rightarrow> nat \<Rightarrow> string \<Rightarrow> 'a list \<times> string" where
  "scan_many conv 0 s = ([], s)"
| "scan_many conv (Suc k) s =
     (case conv s of None \<Rightarrow> ([], s) | Some (x, r) \<Rightarrow>
        (case scan_many conv k r of (xs, r') \<Rightarrow> (x # xs, r')))"

lemma length_scan_many: "length (fst (scan_many conv k s)) \<le> k"
  by (induction k arbitrary: s) (auto split: option.splits prod.splits, metis fst_conv)

definition print_lu :: "u64 \<Rightarrow> string" where
  "print_lu w = dec (unat w)"

definition print_d :: "int \<Rightarrow> string" where
  "print_d i = (if i < 0 then CHR ''-'' # dec (nat (- i)) else dec (nat i))"

lemma dec_hd: "isdigit (hd (dec n))"
  using dec_digits [of n] by (cases "dec n") auto

lemma scan_digits_dec [text_simps]:
  assumes "list_all isspace ws" "rest = [] \<or> \<not> isdigit (hd rest)"
  shows "scan_digits (ws @ dec n @ rest) = Some ((False, n), rest)"
proof -
  obtain c cs where c: "dec n = c # cs" "isdigit c"
    using dec_hd [of n] by (cases "dec n") auto
  have "dropWhile isspace (ws @ dec n @ rest) = dec n @ rest"
    using assms(1) c isdigit_not_special [of c] by (induction ws) auto
  moreover have "scan_sign (dec n @ rest) = (False, dec n @ rest)"
    using c isdigit_not_special [of c] by (simp add: scan_sign_def)
  ultimately show ?thesis
    using takeWhile_digits [OF dec_digits assms(2)] by (simp add: scan_digits_def)
qed

lemma scan_lu_print_lu [text_simps]:
  assumes "list_all isspace ws" "rest = [] \<or> \<not> isdigit (hd rest)"
  shows "scan_lu (ws @ print_lu w @ rest) = Some (w, rest)"
proof -
  have "strtoul False (unat w) = w"
    using unat_u64_less [of w] by (simp add: strtoul_def)
  then show ?thesis
    using assms by (simp add: scan_lu_def print_lu_def scan_digits_dec)
qed

lemma scan_u_dec:
  fixes w :: u32
  assumes "list_all isspace ws" "rest = [] \<or> \<not> isdigit (hd rest)"
  shows "scan_u (ws @ dec (unat w) @ rest) = Some (w, rest)"
proof -
  have "scan_digits (ws @ dec (unat w) @ rest) = Some ((False, unat w), rest)"
    using scan_digits_dec [of ws rest "unat w"] assms by simp
  moreover have "unat w < 2 ^ LENGTH(32)"
    by (rule unsigned_less)
  then have "strtoul False (unat w) = of_nat (unat w)" by (simp add: strtoul_def)
  moreover have "ucast (of_nat (unat w) :: u64) = w"
    by transfer (simp add: take_bit_eq_mod mod_mod_trivial)
  ultimately show ?thesis by (simp add: scan_u_def)
qed

text \<open>\<open>%4d\<close> and the like: blanks before the text up to a width.\<close>

definition rjust :: "nat \<Rightarrow> string \<Rightarrow> string" where
  "rjust n t = replicate (n - length t) CHR '' '' @ t"

lemma set_rjust: "set (rjust n t) \<subseteq> insert CHR '' '' (set t)"
  by (auto simp: rjust_def)

lemma length_rjust [simp]: "length (rjust n t) = max n (length t)"
  by (simp add: rjust_def)

text \<open>The round trip for a row of numbers separated by single blanks.\<close>

definition print_lus :: "u64 list \<Rightarrow> string" where
  "print_lus ws = concat (map (\<lambda>w. CHR '' '' # print_lu w) ws)"

lemma print_lus_simps [simp]:
  "print_lus [] = []"
  "print_lus (w # ws) = CHR '' '' # print_lu w @ print_lus ws"
  by (simp_all add: print_lus_def)

lemma isspace_blank [simp]: "isspace CHR '' ''" "isspace newline"
  by (simp_all add: isspace_def)

lemma not_isdigit_blank [simp]: "\<not> isdigit CHR '' ''" "\<not> isdigit newline"
  by (simp_all add: isspace_not_digit)

lemma scan_many_print_lus [text_simps]:
  assumes "k = length ws" "rest = [] \<or> \<not> isdigit (hd rest)"
  shows "scan_many scan_lu k (print_lus ws @ rest) = (ws, rest)"
  using assms(1)
proof (induction ws arbitrary: k)
  case (Cons w ws)
  have "print_lus ws @ rest = [] \<or> \<not> isdigit (hd (print_lus ws @ rest))"
    using assms(2) by (cases ws) auto
  then show ?case
    using Cons scan_lu_print_lu [of "[CHR '' '']" "print_lus ws @ rest" w] by simp
qed simp


subsection \<open>Tokens and comparisons\<close>

text \<open>\<open>strtok(s, d)\<close> and then \<open>strtok(NULL, d)\<close> until NULL: the tokens in order.\<close>

function strtok_all :: "(char \<Rightarrow> bool) \<Rightarrow> string \<Rightarrow> string list" where
  "strtok_all d s =
     (let s1 = dropWhile d s in
      if s1 = [] then []
      else takeWhile (\<lambda>c. \<not> d c) s1 # strtok_all d (dropWhile (\<lambda>c. \<not> d c) s1))"
  by pat_completeness auto
termination
proof (relation "measure (\<lambda>(d, s). length s)", goal_cases)
  case (2 d s s1)
  then have "s1 \<noteq> []" "\<not> d (hd s1)"
    using hd_dropWhile [of d s] by simp_all
  then obtain c cs where "s1 = c # cs" "\<not> d c"
    by (cases s1) simp_all
  moreover have "length s1 \<le> length s"
    using 2(1) length_dropWhile_le by simp
  ultimately show ?case
    using length_dropWhile_le [of "\<lambda>c. \<not> d c" cs] by simp
qed simp

declare strtok_all.simps [simp del]

text \<open>Words joined by a separator come apart again.\<close>

fun join :: "string \<Rightarrow> string list \<Rightarrow> string" where
  "join sep [] = ''''"
| "join sep [w] = w"
| "join sep (w # ws) = w @ sep @ join sep ws"

lemma set_join: "set (join sep ws) \<subseteq> set sep \<union> \<Union> (set ` set ws)"
  by (induction sep ws rule: join.induct) auto

lemma strtok_all_word:
  assumes "w \<noteq> ''''" "\<forall>c\<in>set w. \<not> d c" "rest = [] \<or> d (hd rest)"
  shows "strtok_all d (w @ rest) = w # strtok_all d rest"
proof -
  have "dropWhile d (w @ rest) = w @ rest"
    using assms(1,2) by (cases w) auto
  moreover have "takeWhile (\<lambda>c. \<not> d c) (w @ rest) = w" "dropWhile (\<lambda>c. \<not> d c) (w @ rest) = rest"
    using assms(2,3) by (cases rest; simp add: takeWhile_append dropWhile_append)+
  ultimately show ?thesis
    using assms(1) by (simp add: strtok_all.simps [of d "w @ rest"])
qed

lemma strtok_all_Nil [simp]: "strtok_all d [] = []"
  by (simp add: strtok_all.simps)

lemma strtok_all_delim [simp]: "d c \<Longrightarrow> strtok_all d (c # s) = strtok_all d s"
  by (simp add: strtok_all.simps [of d "c # s"] strtok_all.simps [of d s])

lemma strtok_all_join:
  assumes "\<forall>w\<in>set ws. w \<noteq> '''' \<and> (\<forall>c\<in>set w. \<not> d c)" "d sep"
  shows "strtok_all d (join [sep] ws) = ws"
  using assms(1)
proof (induction "[sep]" ws rule: join.induct)
  case (2 w)
  then show ?case using strtok_all_word [of w d "[]"] by simp
next
  case (3 w v ws)
  then show ?case using strtok_all_word [of w d "sep # join [sep] (v # ws)"] assms(2) by simp
qed simp


definition strncmp_eq :: "string \<Rightarrow> string \<Rightarrow> nat \<Rightarrow> bool" where
  "strncmp_eq a b n \<longleftrightarrow> take n a = take n b"


subsection \<open>Arrays of characters\<close>

text \<open>
  \<open>strncpy\<close> fills its \<open>n\<close> bytes with the string and NULs, and leaves no NUL when
  the string is too long; \<open>strcpy\<close> writes past the array then. Reading an array
  with no NUL in it as a string runs past its end.
\<close>

definition strncpy :: "string \<Rightarrow> string \<Rightarrow> nat \<Rightarrow> string option" where
  "strncpy dst src n =
     (if n \<le> length dst then Some (take n (src @ replicate n NUL) @ drop n dst) else None)"

definition strcpy :: "string \<Rightarrow> string \<Rightarrow> string option" where
  "strcpy dst src =
     (if length src < length dst then Some (src @ NUL # drop (Suc (length src)) dst) else None)"

definition buf_str :: "string \<Rightarrow> string option" where
  "buf_str buf = (if NUL \<in> set buf then Some (cstr buf) else None)"

lemma cstr_append [simp]: "NUL \<notin> set s \<Longrightarrow> cstr (s @ NUL # t) = s"
  by (induction s) (auto simp: cstr_def)

lemma buf_str_strcpy:
  "strcpy dst src = Some b \<Longrightarrow> NUL \<notin> set src \<Longrightarrow> buf_str b = Some src \<and> length b = length dst"
  by (auto simp: strcpy_def buf_str_def split: if_splits)

lemma strncpy_length: "strncpy dst src n = Some b \<Longrightarrow> length b = length dst"
  by (auto simp: strncpy_def split: if_splits)

text \<open>The contents of a cleared array of \<open>n\<close> bytes after \<open>strncpy\<close>.\<close>

definition field :: "nat \<Rightarrow> string \<Rightarrow> string" where
  "field n src = take n (src @ replicate n NUL)"

lemma strncpy_field: "length dst = n \<Longrightarrow> strncpy dst src n = Some (field n src)"
  by (simp add: strncpy_def field_def)

lemma length_field [simp]: "length (field n src) = n"
  by (simp add: field_def)

lemma buf_str_field:
  assumes "NUL \<notin> set src" "length src < n"
  shows "buf_str (field n src) = Some src"
proof -
  obtain m where "n = length src + Suc m"
    using assms(2) less_imp_Suc_add by fastforce
  then have "field n src = src @ NUL # replicate m NUL"
    by (simp add: field_def)
  then show ?thesis
    using assms(1) by (simp add: buf_str_def)
qed

lemma buf_str_strncpy:
  assumes "n \<le> length dst" "NUL \<notin> set src" "length src < n"
  shows "\<exists>b. strncpy dst src n = Some b \<and> buf_str b = Some src"
proof -
  have "take n (src @ replicate n NUL) @ drop n dst
    = src @ NUL # (replicate (n - Suc (length src)) NUL @ drop n dst)"
    using assms(3) by (simp add: min_def) (metis Suc_diff_Suc replicate_Suc)
  then show ?thesis
    using assms by (simp add: strncpy_def buf_str_def)
qed

lemma strncpy_full_unterminated:
  assumes "n = length dst" "NUL \<notin> set src" "n \<le> length src"
  shows "\<exists>b. strncpy dst src n = Some b \<and> buf_str b = None"
  using assms by (auto simp: strncpy_def buf_str_def dest: in_set_takeD)

end
