(* ===== verification/C_Double.thy ===== *)
theory C_Double
  imports Complex_Main C_Text
begin

text \<open>
  The floating-point arithmetic of the sources: IEEE 754 \<open>double\<close> (binary64) and
  \<open>float\<close> (binary32), rounding to nearest, ties to even. A finite value is the
  rational it denotes; the sign of a zero is not kept (no expression of the
  sources can tell the two zeros apart). \<open>round_to p emin emax\<close> rounds a rational
  to precision \<open>p\<close>; the lemmas say it is monotone, exact on what fits \<open>p\<close> bits,
  and off by at most half a unit in the last place. \<open>fmt2\<close> is \<open>printf\<close>'s
  \<open>%.2f\<close>, which glibc rounds exactly, and \<open>-nan\<close> the text glibc prints for
  the NaN that an invalid operation yields on x86-64.
\<close>

datatype double = Fin rat | Inf bool | NaN

text \<open>A \<open>float\<close> is stored and promoted without change of value.\<close>

type_synonym float32 = double


subsection \<open>Rounding to an integer\<close>

definition rne :: "rat \<Rightarrow> int" where
  "rne x = (let f = \<lfloor>x\<rfloor>; d = x - of_int f
     in if d < 1 / 2 then f else if 1 / 2 < d then f + 1 else if even f then f else f + 1)"

lemma rne_bounds: "of_int (rne x) \<le> x + 1 / 2" "x - 1 / 2 \<le> of_int (rne x)"
  using floor_correct [of x] unfolding rne_def Let_def by (simp_all split: if_split, linarith+)

lemma rne_of_int [simp]: "rne (of_int k) = k"
  by (simp add: rne_def)

lemma rne_0 [simp]: "rne 0 = 0"
  using rne_of_int [of 0] by simp

lemma rne_mono:
  assumes "x \<le> y"
  shows "rne x \<le> rne y"
proof (cases "\<lfloor>x\<rfloor> = \<lfloor>y\<rfloor>")
  case True
  then show ?thesis using assms by (auto simp: rne_def Let_def)
next
  case False
  then have "\<lfloor>x\<rfloor> + 1 \<le> \<lfloor>y\<rfloor>"
    using floor_mono [OF assms] by simp
  moreover have "rne x \<le> \<lfloor>x\<rfloor> + 1" "\<lfloor>y\<rfloor> \<le> rne y"
    by (auto simp: rne_def Let_def)
  ultimately show ?thesis by simp
qed

lemma rne_nonneg: "0 \<le> x \<Longrightarrow> 0 \<le> rne x"
  using rne_mono [of 0 x] by simp

lemma rne_less_half: "\<bar>x - of_int k\<bar> < 1 / 2 \<Longrightarrow> rne x = k"
proof -
  assume a: "\<bar>x - of_int k\<bar> < 1 / 2"
  have "of_int (rne x) < (of_int (k + 1) :: rat)" "of_int k < (of_int (rne x + 1) :: rat)"
    using a rne_bounds [of x] unfolding abs_less_iff of_int_add of_int_1 by linarith+
  then show ?thesis by linarith
qed


subsection \<open>Binary exponents\<close>

fun bit_len :: "nat \<Rightarrow> nat" where
  "bit_len n = (if n = 0 then 0 else Suc (bit_len (n div 2)))"

declare bit_len.simps [simp del]

lemma bit_len_bounds: "0 < n \<Longrightarrow> 2 ^ (bit_len n - 1) \<le> n \<and> n < 2 ^ bit_len n"
proof (induction n rule: bit_len.induct)
  case (1 n)
  show ?case
  proof (cases "n = 1")
    case True
    then show ?thesis by (simp add: bit_len.simps)
  next
    case False
    with 1(2) have pos: "0 < n div 2" by simp
    with 1 have IH: "2 ^ (bit_len (n div 2) - 1) \<le> n div 2" "n div 2 < 2 ^ bit_len (n div 2)"
      by auto
    have "bit_len (n div 2) = Suc (bit_len (n div 2) - 1)"
      using pos by (simp add: bit_len.simps [of "n div 2"])
    then have "(2::nat) ^ bit_len (n div 2) = 2 * 2 ^ (bit_len (n div 2) - 1)"
      by (metis power_Suc)
    then have "bit_len n = Suc (Suc (bit_len (n div 2) - 1))"
      using 1(2) \<open>bit_len (n div 2) = _\<close> by (simp add: bit_len.simps [of n])
    moreover have "2 * 2 ^ (bit_len (n div 2) - 1) \<le> n" "n < 2 * (2 * 2 ^ (bit_len (n div 2) - 1))"
      using IH \<open>_ = 2 * 2 ^ _\<close> by linarith+
    ultimately show ?thesis by simp
  qed
qed

lemma bit_len_rat:
  assumes "bit_len n = Suc b"
  shows "(2::rat) ^ b \<le> of_nat n" "of_nat n + 1 \<le> (2::rat) ^ Suc b"
proof -
  have "0 < n"
    using assms by (cases n) (simp_all add: bit_len.simps)
  then have "2 ^ b \<le> n" "Suc n \<le> 2 ^ Suc b"
    using bit_len_bounds [of n] assms by auto
  then have "of_nat (2 ^ b) \<le> (of_nat n :: rat)" "of_nat (Suc n) \<le> (of_nat (2 ^ Suc b) :: rat)"
    by (simp_all only: of_nat_le_iff)
  then show "(2::rat) ^ b \<le> of_nat n" "of_nat n + 1 \<le> (2::rat) ^ Suc b"
    by (simp_all add: add.commute)
qed

text \<open>The \<open>e\<close> with \<open>2\<^sup>e \<le> x < 2\<^sup>e\<^sup>+\<^sup>1\<close>, for positive \<open>x\<close>.\<close>

definition ilog2 :: "rat \<Rightarrow> int" where
  "ilog2 x = (if 1 \<le> x then int (bit_len (nat \<lfloor>x\<rfloor>)) - 1 else - int (bit_len (nat (\<lceil>1 / x\<rceil> - 1))))"

lemma ilog2_bounds:
  assumes "0 < x"
  shows "2 powi (ilog2 x) \<le> x" "x < 2 powi (ilog2 x + 1)"
proof -
  have "2 powi (ilog2 x) \<le> x \<and> x < 2 powi (ilog2 x + 1)"
  proof (cases "1 \<le> x")
    case True
    define n where "n = nat \<lfloor>x\<rfloor>"
    have n: "0 < n" "of_nat n \<le> x" "x < of_nat n + 1"
      using True floor_correct [of x] by (auto simp: n_def)
    obtain b where b: "bit_len n = Suc b"
      using n(1) by (cases "bit_len n") (auto simp: bit_len.simps [of n])
    have e: "ilog2 x = int b" "(2::rat) powi (int b + 1) = 2 ^ Suc b"
      using True b power_int_of_nat [of "2::rat" "Suc b"]
      by (simp_all add: ilog2_def add.commute flip: n_def)
    show ?thesis
      unfolding e power_int_of_nat using n bit_len_rat [OF b] by linarith
  next
    case False
    define n where "n = nat (\<lceil>1 / x\<rceil> - 1)"
    have "1 < 1 / x" using False assms by simp
    then have "1 < \<lceil>1 / x\<rceil>"
      by (simp only: less_ceiling_iff of_int_1)
    then have "\<lceil>1 / x\<rceil> = int n + 1"
      unfolding n_def by linarith
    then have n: "0 < n"
      using \<open>1 < \<lceil>1 / x\<rceil>\<close> by linarith
    have "of_nat n = (of_int \<lceil>1 / x\<rceil> - 1 :: rat)"
      unfolding \<open>\<lceil>1 / x\<rceil> = int n + 1\<close> by simp
    then have n': "of_nat n < 1 / x" "1 / x \<le> of_nat n + 1"
      using ceiling_correct [of "1 / x"] by linarith+
    obtain b where b: "bit_len n = Suc b"
      using n(1) by (cases "bit_len n") (auto simp: bit_len.simps [of n])
    with n' bit_len_rat [OF b] have "(2::rat) ^ b < 1 / x" "1 / x \<le> (2::rat) ^ Suc b"
      by linarith+
    with assms have "x < 1 / 2 ^ b" "1 / 2 ^ Suc b \<le> x"
      by (simp_all add: field_simps)
    moreover have "ilog2 x = - int (Suc b)"
      unfolding ilog2_def n_def [symmetric] b using False by simp
    moreover have "(2::rat) powi (- int (Suc b)) = 1 / 2 ^ Suc b" "(2::rat) powi (- int b) = 1 / 2 ^ b"
      by (simp_all only: power_int_minus power_int_of_nat divide_inverse mult_1_left)
    moreover have "- int (Suc b) + 1 = - int b"
      by simp
    ultimately show ?thesis
      by (simp only: simp_thms)
  qed
  then show "2 powi (ilog2 x) \<le> x" "x < 2 powi (ilog2 x + 1)" by simp_all
qed


subsection \<open>Rounding to a floating-point format\<close>

definition quantum :: "int \<Rightarrow> int \<Rightarrow> rat \<Rightarrow> int" where
  "quantum p emin x = max (ilog2 x - (p - 1)) emin"

definition round_pos :: "int \<Rightarrow> int \<Rightarrow> rat \<Rightarrow> rat" where
  "round_pos p emin x = (let u = 2 powi (quantum p emin x) in of_int (rne (x / u)) * u)"

definition round_to :: "int \<Rightarrow> int \<Rightarrow> int \<Rightarrow> rat \<Rightarrow> double" where
  "round_to p emin emax x =
     (if x = 0 then Fin 0
      else let y = round_pos p emin \<bar>x\<bar> in
        if 2 powi emax \<le> y then Inf (x < 0) else Fin (sgn x * y))"

text \<open>binary64 and binary32.\<close>

definition rnd :: "rat \<Rightarrow> double" where
  "rnd = round_to 53 (- 1074) 1024"

definition rnd32 :: "rat \<Rightarrow> float32" where
  "rnd32 = round_to 24 (- 149) 128"

lemma round_pos_bounds:
  assumes "0 < x"
  shows "\<bar>round_pos p emin x - x\<bar> \<le> 2 powi (quantum p emin x) / 2" "0 \<le> round_pos p emin x"
proof -
  define u :: rat where "u = 2 powi (quantum p emin x)"
  have u: "0 < u" by (simp add: u_def)
  have "\<bar>of_int (rne (x / u)) - x / u\<bar> \<le> 1 / 2"
    using rne_bounds [of "x / u"] by (intro abs_leI) linarith+
  then have "\<bar>of_int (rne (x / u)) - x / u\<bar> * u \<le> 1 / 2 * u"
    using u by (intro mult_right_mono) simp_all
  moreover have "\<bar>of_int (rne (x / u)) - x / u\<bar> * u = \<bar>of_int (rne (x / u)) * u - x\<bar>"
    using u by (simp add: abs_mult_pos' [of u] algebra_simps abs_mult_pos)
  ultimately show "\<bar>round_pos p emin x - x\<bar> \<le> 2 powi (quantum p emin x) / 2"
    by (simp add: round_pos_def Let_def flip: u_def)
  show "0 \<le> round_pos p emin x"
    using u assms by (simp add: round_pos_def Let_def rne_nonneg flip: u_def)
qed

text \<open>A multiple of a power of two that fits the precision is not changed.\<close>

lemma round_pos_exact:
  assumes "0 < m" "m < 2 ^ p" "emin \<le> q" "0 < p"
  shows "round_pos (int p) emin (of_int m * 2 powi q) = of_int m * 2 powi q"
proof -
  let ?x = "of_int m * 2 powi q :: rat"
  have x: "0 < ?x" using assms(1) by simp
  have "of_int m < (2::rat) ^ p"
    using assms(2) of_int_less_iff [of m "2 ^ p", where ?'a = rat] by simp
  then have "?x < 2 powi (int p) * 2 powi q"
    by (intro mult_strict_right_mono) simp_all
  then have "?x < 2 powi (int p + q)"
    by (simp add: power_int_add)
  with ilog2_bounds(1) [OF x] have "(2::rat) powi (ilog2 ?x) < 2 powi (int p + q)"
    by linarith
  then have "ilog2 ?x < int p + q"
    by (metis not_less one_le_numeral power_int_increasing)
  then have le: "quantum (int p) emin ?x \<le> q"
    using assms(3) by (simp add: quantum_def)
  define u where "u = quantum (int p) emin ?x"
  obtain k where k: "q = u + int k"
    using le zle_iff_zadd unfolding u_def by blast
  have "?x / 2 powi u = of_int (m * 2 ^ k)"
    by (simp add: k power_int_add)
  then have "round_pos (int p) emin ?x = of_int (m * 2 ^ k) * 2 powi u"
    unfolding round_pos_def Let_def by (simp only: rne_of_int flip: u_def)
  then show ?thesis
    by (simp add: k power_int_add)
qed

lemma pow2_div: "q \<le> k \<Longrightarrow> (2::rat) powi k / 2 powi q = of_int (2 ^ nat (k - q))"
proof -
  assume "q \<le> k"
  then obtain j where "k = q + int j"
    using zle_iff_zadd by blast
  then show ?thesis by (simp add: power_int_add)
qed

lemma round_pos_le_pow2:
  assumes "x \<le> 2 powi k" "quantum p emin x \<le> k"
  shows "round_pos p emin x \<le> 2 powi k"
proof -
  define u where "u = quantum p emin x"
  have "x / 2 powi u \<le> 2 powi k / 2 powi u"
    using assms(1) by (intro divide_right_mono) simp_all
  also have "\<dots> = of_int (2 ^ nat (k - u))"
    using assms(2) by (intro pow2_div) (simp add: u_def)
  finally have "rne (x / 2 powi u) \<le> 2 ^ nat (k - u)"
    using rne_mono rne_of_int by metis
  then have "of_int (rne (x / 2 powi u)) \<le> (of_int (2 ^ nat (k - u)) :: rat)"
    by (simp only: of_int_le_iff)
  also have "\<dots> = 2 powi k / 2 powi u"
    using assms(2) by (intro pow2_div [symmetric]) (simp add: u_def)
  finally show ?thesis
    by (simp add: round_pos_def Let_def pos_le_divide_eq flip: u_def)
qed

lemma round_pos_ge_pow2:
  assumes "2 powi k \<le> x" "quantum p emin x \<le> k"
  shows "2 powi k \<le> round_pos p emin x"
proof -
  define u where "u = quantum p emin x"
  have "of_int (2 ^ nat (k - u)) = (2::rat) powi k / 2 powi u"
    using assms(2) by (intro pow2_div [symmetric]) (simp add: u_def)
  also have "\<dots> \<le> x / 2 powi u"
    using assms(1) by (intro divide_right_mono) simp_all
  finally have "2 ^ nat (k - u) \<le> rne (x / 2 powi u)"
    using rne_mono rne_of_int by metis
  then have "(of_int (2 ^ nat (k - u)) :: rat) \<le> of_int (rne (x / 2 powi u))"
    by (simp only: of_int_le_iff)
  also have "(of_int (2 ^ nat (k - u)) :: rat) = 2 powi k / 2 powi u"
    using assms(2) by (intro pow2_div [symmetric]) (simp add: u_def)
  finally show ?thesis
    by (simp add: round_pos_def Let_def pos_divide_le_eq flip: u_def)
qed

lemma ilog2_mono:
  assumes "0 < x" "x \<le> y"
  shows "ilog2 x \<le> ilog2 y"
proof -
  have "(2::rat) powi (ilog2 x) < 2 powi (ilog2 y + 1)"
    using ilog2_bounds [of x] ilog2_bounds [of y] assms by linarith
  then have "ilog2 x < ilog2 y + 1"
    by (metis not_less one_le_numeral power_int_increasing)
  then show ?thesis by simp
qed

lemma round_pos_mono:
  assumes "0 < x" "x \<le> y" "1 \<le> p"
  shows "round_pos p emin x \<le> round_pos p emin y"
proof (cases "quantum p emin x = quantum p emin y")
  case True
  have "x / 2 powi (quantum p emin y) \<le> y / 2 powi (quantum p emin y)"
    using assms(2) by (intro divide_right_mono) simp_all
  then have "rne (x / 2 powi (quantum p emin y)) \<le> rne (y / 2 powi (quantum p emin y))"
    by (rule rne_mono)
  then show ?thesis
    by (simp add: round_pos_def Let_def True)
next
  case False
  have le: "ilog2 x \<le> ilog2 y"
    using assms by (intro ilog2_mono)
  with False have q: "quantum p emin x \<le> ilog2 y" "quantum p emin y \<le> ilog2 y" "ilog2 x < ilog2 y"
    using assms(3) by (auto simp: quantum_def)
  have "(2::rat) powi (ilog2 x + 1) \<le> 2 powi (ilog2 y)"
    using q(3) by (intro power_int_increasing) simp_all
  then have "x \<le> 2 powi (ilog2 y)"
    using ilog2_bounds(2) [OF assms(1)] by linarith
  then have "round_pos p emin x \<le> 2 powi (ilog2 y)"
    using q(1) by (rule round_pos_le_pow2)
  also have "\<dots> \<le> round_pos p emin y"
    using ilog2_bounds(1) [of y] q(2) assms by (intro round_pos_ge_pow2) simp_all
  finally show ?thesis .
qed

lemma round_pos_rel:
  assumes "0 < x" "emin \<le> ilog2 x - (p - 1)"
  shows "\<bar>round_pos p emin x - x\<bar> \<le> x * 2 powi (- p)"
proof -
  have "(2::rat) powi (quantum p emin x) / 2 = 2 powi (ilog2 x) * 2 powi (- p)"
    using assms(2) by (simp add: quantum_def power_int_diff power_int_minus power_int_add field_simps)
  also have "\<dots> \<le> x * 2 powi (- p)"
    using ilog2_bounds(1) [OF assms(1)] by (intro mult_right_mono) simp_all
  finally show ?thesis
    using round_pos_bounds(1) [OF assms(1), of p emin] by linarith
qed

subsection \<open>The operations of the sources\<close>

definition dbl_of_nat :: "nat \<Rightarrow> double" where
  "dbl_of_nat n = rnd (of_nat n)"

definition dbl_of_u64 :: "u64 \<Rightarrow> double" where
  "dbl_of_u64 w = dbl_of_nat (unat w)"

fun dneg :: "double \<Rightarrow> double" where
  "dneg (Fin x) = Fin (- x)"
| "dneg (Inf s) = Inf (\<not> s)"
| "dneg NaN = NaN"

fun dadd :: "double \<Rightarrow> double \<Rightarrow> double" where
  "dadd (Fin x) (Fin y) = rnd (x + y)"
| "dadd (Inf s) (Fin y) = Inf s"
| "dadd (Fin x) (Inf t) = Inf t"
| "dadd (Inf s) (Inf t) = (if s = t then Inf s else NaN)"
| "dadd _ _ = NaN"

definition dsub :: "double \<Rightarrow> double \<Rightarrow> double" where
  "dsub a b = dadd a (dneg b)"

fun dmul :: "double \<Rightarrow> double \<Rightarrow> double" where
  "dmul (Fin x) (Fin y) = rnd (x * y)"
| "dmul (Inf s) (Fin y) = (if y = 0 then NaN else Inf (s \<noteq> (y < 0)))"
| "dmul (Fin x) (Inf t) = (if x = 0 then NaN else Inf ((x < 0) \<noteq> t))"
| "dmul (Inf s) (Inf t) = Inf (s \<noteq> t)"
| "dmul _ _ = NaN"

fun ddiv :: "double \<Rightarrow> double \<Rightarrow> double" where
  "ddiv (Fin x) (Fin y) = (if y = 0 then (if x = 0 then NaN else Inf (x < 0)) else rnd (x / y))"
| "ddiv (Inf s) (Fin y) = Inf (s \<noteq> (y < 0))"
| "ddiv (Fin x) (Inf t) = Fin 0"
| "ddiv _ _ = NaN"

text \<open>Comparisons; any comparison with a NaN is false.\<close>

fun dless :: "double \<Rightarrow> double \<Rightarrow> bool" where
  "dless (Fin x) (Fin y) = (x < y)"
| "dless (Inf s) (Fin y) = s"
| "dless (Fin x) (Inf t) = (\<not> t)"
| "dless (Inf s) (Inf t) = (s \<and> \<not> t)"
| "dless _ _ = False"

fun deq :: "double \<Rightarrow> double \<Rightarrow> bool" where
  "deq (Fin x) (Fin y) = (x = y)"
| "deq (Inf s) (Inf t) = (s = t)"
| "deq _ _ = False"

text \<open>The conversion to \<open>int64_t\<close> truncates; out of range it is undefined.\<close>

fun int64_of_dbl :: "double \<Rightarrow> int option" where
  "int64_of_dbl (Fin x) =
     (let t = (if 0 \<le> x then \<lfloor>x\<rfloor> else \<lceil>x\<rceil>) in
      if - (2 ^ 63) \<le> t \<and> t < 2 ^ 63 then Some t else None)"
| "int64_of_dbl (Inf s) = None"
| "int64_of_dbl NaN = None"

definition dbl_of_int :: "int \<Rightarrow> double" where
  "dbl_of_int i = rnd (of_int i)"

text \<open>
  \<open>pow(10.0, n)\<close> for an integral \<open>n\<close>. glibc's \<open>pow\<close> is within one unit in the
  last place; the model takes the correctly rounded value.
\<close>

definition pow10 :: "int \<Rightarrow> double" where
  "pow10 n = rnd (10 powi n)"

definition two_digits :: "nat \<Rightarrow> string" where
  "two_digits n = [digit_char (n div 10), digit_char (n mod 10)]"

fun fmt2 :: "double \<Rightarrow> string" where
  "fmt2 (Fin x) = (let n = nat (rne (\<bar>x\<bar> * 100)) in
     (if x < 0 then ''-'' else '''') @ dec (n div 100) @ ''.'' @ two_digits (n mod 100))"
| "fmt2 (Inf s) = (if s then ''-inf'' else ''inf'')"
| "fmt2 NaN = ''-nan''"

text \<open>Some values.\<close>

lemma floor_rat_simps [double_simps]:
  "\<lfloor>numeral a / numeral b :: rat\<rfloor> = numeral a div numeral b"
  "\<lfloor>- (numeral a / numeral b) :: rat\<rfloor> = - numeral a div numeral b"
  "\<lfloor>1 / numeral b :: rat\<rfloor> = 1 div numeral b"
  "\<lceil>numeral a / numeral b :: rat\<rceil> = - (- numeral a div numeral b)"
  "\<lceil>- (numeral a / numeral b) :: rat\<rceil> = - (numeral a div numeral b)"
  using floor_divide_of_int_eq [of "numeral a" "numeral b", where ?'a = rat]
    floor_divide_of_int_eq [of "- numeral a" "numeral b", where ?'a = rat]
    floor_divide_of_int_eq [of 1 "numeral b", where ?'a = rat]
  by (simp_all add: ceiling_def)

lemmas round_eval [double_simps] =
  rnd_def rnd32_def round_to_def round_pos_def quantum_def ilog2_def rne_def bit_len.simps Let_def

lemma rnd_one_hundredth: "rnd (1 / 100) = Fin (5764607523034235 / 576460752303423488)"
  by (simp add: double_simps)

lemma fmt2_examples:
  "fmt2 (rnd (1 / 8)) = ''0.12''" "fmt2 (rnd (- 3 / 8)) = ''-0.38''" "fmt2 (rnd 100) = ''100.00''"
  by (simp_all add: double_simps text_simps dec.simps two_digits_def)

subsection \<open>Rounding of non-negative values\<close>

definition rndv :: "rat \<Rightarrow> rat" where
  "rndv x = (if x = 0 then 0 else round_pos 53 (- 1074) x)"

lemma rndv_0 [simp]: "rndv 0 = 0"
  by (simp add: rndv_def)

lemma rndv_nonneg: "0 \<le> x \<Longrightarrow> 0 \<le> rndv x"
  using round_pos_bounds(2) [of x] by (auto simp: rndv_def)

lemma rndv_mono: "0 \<le> x \<Longrightarrow> x \<le> y \<Longrightarrow> rndv x \<le> rndv y"
  using round_pos_mono [of x y 53] rndv_nonneg [of y] by (auto simp: rndv_def)

lemma rndv_of_int:
  assumes "0 \<le> n" "n < 2 ^ 53"
  shows "rndv (of_int n) = of_int n"
  using round_pos_exact [of n 53 "- 1074" 0] assms by (auto simp: rndv_def)

lemma rndv_of_nat: "n < 2 ^ 53 \<Longrightarrow> rndv (of_nat n) = of_nat n"
  using rndv_of_int [of "int n"] by simp

lemma rndv_numeral:
  "(numeral k :: int) < 2 ^ 53 \<Longrightarrow> rndv (numeral k) = numeral k"
  using rndv_of_int [of "numeral k"] by simp

lemma rndv_rel:
  assumes "2 powi (- 1022) \<le> x"
  shows "\<bar>rndv x - x\<bar> \<le> x * 2 powi (- 53)"
proof -
  have "(0::rat) < 2 powi (- 1022)" by simp
  then have x: "0 < x" using assms by linarith
  have "(2::rat) powi (- 1022) < 2 powi (ilog2 x + 1)"
    using assms ilog2_bounds(2) [OF x] by linarith
  then have "- 1022 < ilog2 x + 1"
    by (metis not_less one_le_numeral power_int_increasing)
  then show ?thesis
    using round_pos_rel [OF x, of "- 1074" 53] x by (simp add: rndv_def)
qed

lemma rnd_eq_rndv:
  assumes "0 \<le> x" "x \<le> 2 ^ 1000"
  shows "rnd x = Fin (rndv x)"
proof (cases "x = 0")
  case False
  with assms(1) have x: "0 < x" by simp
  have "(2::rat) powi (ilog2 x) \<le> 2 powi 1000"
    using ilog2_bounds(1) [OF x] assms(2) by simp
  then have "ilog2 x \<le> 1000"
    by (metis not_le one_less_numeral_iff power_int_strict_increasing semiring_norm(76))
  then have "round_pos 53 (- 1074) x \<le> 2 powi 1000"
    using assms(2) by (intro round_pos_le_pow2) (simp_all add: quantum_def)
  also have "\<dots> < (2::rat) powi 1024"
    by (intro power_int_strict_increasing) simp_all
  finally show ?thesis
    using x by (simp add: rnd_def round_to_def rndv_def Let_def)
qed (simp add: rnd_def round_to_def)

lemma dbl_of_nat_eq: "n \<le> 2 ^ 64 \<Longrightarrow> dbl_of_nat n = Fin (rndv (of_nat n))"
proof -
  assume "n \<le> 2 ^ 64"
  then have "(of_nat n :: rat) \<le> of_nat (2 ^ 64)"
    by (simp only: of_nat_le_iff)
  also have "\<dots> \<le> 2 ^ 1000"
    by simp
  finally show ?thesis
    by (simp add: dbl_of_nat_def rnd_eq_rndv)
qed

lemma dbl_of_nat_exact: "n < 2 ^ 53 \<Longrightarrow> dbl_of_nat n = Fin (of_nat n)"
  by (simp add: dbl_of_nat_eq rndv_of_nat)

end
