(* ===== verification/Zsr_Types.thy ===== *)
theory Zsr_Types
  imports C_Double List_Head
begin

text \<open>
  The data of \<open>include/zsr/define.h\<close>, \<open>include/zsr/zsr.h\<close> and
  \<open>zsr/framework.h\<close>. Every C struct is a record with the source's fields in the
  source's order; the embedded \<open>list_head_t list\<close> of a struct is its first
  member, so the address of the struct is the address of that cell and
  \<open>container_of\<close> is the identity on it; the cells themselves live in the list
  heap. An array of characters is the list of its bytes. An object of the C heap
  is one of these structs, of type \<open>obj\<close>; its size and the offsets of its list
  cells are those of the x86-64 layout.
\<close>

subsection \<open>define.h\<close>

abbreviation LEN_32 :: nat where "LEN_32 \<equiv> 32"
abbreviation LEN_64 :: nat where "LEN_64 \<equiv> 64"
abbreviation LEN_128 :: nat where "LEN_128 \<equiv> 128"
abbreviation LEN_256 :: nat where "LEN_256 \<equiv> 256"
abbreviation LEN_512 :: nat where "LEN_512 \<equiv> 512"
abbreviation LEN_1024 :: nat where "LEN_1024 \<equiv> 1024"
abbreviation LEN_1M :: nat where "LEN_1M \<equiv> 1048576"

type_synonym byte_t = u64
type_synonym time_t = int

datatype log_level_t = LOG_TRACE | LOG_DEBUG | LOG_INFO | LOG_WARN | LOG_ERROR | LOG_FATAL | LOG_OFF

datatype log_output_stream_t = LOS_FILE | LOS_STDOUT | LOS_STDERR

record log_config_t =
  level :: log_level_t
  output_to :: log_output_stream_t
  max_byte :: nat
  log_path :: string

text \<open>C compares enumeration constants by their position.\<close>

primrec level_rank :: "log_level_t \<Rightarrow> nat" where
  "level_rank LOG_TRACE = 0"
| "level_rank LOG_DEBUG = 1"
| "level_rank LOG_INFO = 2"
| "level_rank LOG_WARN = 3"
| "level_rank LOG_ERROR = 4"
| "level_rank LOG_FATAL = 5"
| "level_rank LOG_OFF = 6"

instantiation log_level_t :: linorder
begin

definition less_eq_log_level_t :: "log_level_t \<Rightarrow> log_level_t \<Rightarrow> bool" where
  "less_eq_log_level_t a b \<longleftrightarrow> level_rank a \<le> level_rank b"

definition less_log_level_t :: "log_level_t \<Rightarrow> log_level_t \<Rightarrow> bool" where
  "less_log_level_t a b \<longleftrightarrow> level_rank a < level_rank b"

instance
proof
  fix a b :: log_level_t
  show "a \<le> b \<Longrightarrow> b \<le> a \<Longrightarrow> a = b"
    by (cases a; cases b) (simp_all add: less_eq_log_level_t_def)
qed (auto simp: less_eq_log_level_t_def less_log_level_t_def)

end


subsection \<open>zsr.h\<close>

record cpu_stat_t =
  cs_user :: u64
  cs_nice :: u64
  cs_sys :: u64
  cs_idle :: u64
  cs_iowait :: u64
  cs_steal :: u64
  cs_hardirq :: u64
  cs_softirq :: u64
  cs_guest :: u64
  cs_number :: u64

record cpu_t =
  cpu_idle :: double
  cpu_util :: double
  cpu_wa :: double
  cpu_stat :: cpu_stat_t

record dns_t =
  dns_addr :: string

record sys_time_t =
  time_in_sec :: time_t

record gateway_t =
  gw_addr :: string

record io_stat_t =
  is_uptime :: u64
  is_uptime0 :: u64
  rd_sectors :: u64
  wr_sectors :: u64
  rd_ios :: u64
  rd_merges :: u64
  wr_ios :: u64
  wr_merges :: u64
  rd_ticks :: u64
  wr_ticks :: u64
  ios_pgr :: u64
  tot_ticks :: u64
  rq_ticks :: u64

record io_t =
  io_dev :: string
  tps :: double
  read_byte :: byte_t
  wrtn_byte :: byte_t
  rrqm_per_sec :: double
  wrqm_per_sec :: double
  r_per_sec :: double
  w_per_sec :: double
  r_speed_per_sec :: double
  w_speed_per_sec :: double
  avgrq_sz :: double
  avgqu_sz :: double
  await :: double
  r_await :: double
  w_await :: double
  io_util :: double
  io_stat :: io_stat_t

datatype ip_version_t = IPv4 | IPv6

record interface_t =
  if_dev :: string
  if_ip_addr :: string
  if_ip_ver :: ip_version_t
  if_netmask :: string

record rtnl_link_t =
  rl_dev :: string
  tx_packet :: u64
  rx_packet :: u64
  tx_byte :: u64
  rx_byte :: u64

record login_user_t =
  lu_user :: string
  lu_tty :: string
  lu_from :: string
  login_time :: time_t

record load_stat_t =
  one_min :: float32
  five_min :: float32
  fifteen_min :: float32

record mem_stat_t =
  mem_total_kb :: u64
  mem_used_kb :: u64
  mem_free_kb :: u64

record fs_stat_t =
  mnt_fsname :: string
  mnt_dir :: string
  mnt_type :: string
  fs_total :: byte_t
  fs_used :: byte_t
  fs_available :: byte_t
  fs_util :: double
  inodes :: u64
  iused :: u64
  ifree :: u64
  iutil :: double

record proc_t =
  pid :: u64
  proc_state :: char
  ppid :: u64
  proc_user :: string
  proc_group :: string
  virt_mem_kb :: u64
  res_mem_kb :: u64
  mem_util :: double
  start_time :: u64
  sys_cpu_time :: u64
  cpu_time :: u64
  proc_cpu_util :: double
  cmd :: string
  cmd_path :: string

record swap_stat_t =
  swap_total_kb :: u64
  swap_used_kb :: u64
  swap_free_kb :: u64

record uptime_t =
  total_sec :: u64
  year :: u64
  month :: u64
  day :: u64
  hour :: u64
  minute :: u64

text \<open>\<open>list_list_t\<close> has no data of its own: two list cells, \<open>list\<close> and \<open>head\<close>.\<close>

definition head_offset :: nat where
  "head_offset = 16"


subsection \<open>framework.h\<close>

text \<open>
  The three function pointers of a \<open>module_t\<close> are addresses of the static
  functions of one of the fourteen files \<open>zsr/module/mod_*.c\<close>; the model names
  the file.
\<close>

datatype mod_file = M_cpu | M_dns | M_fs | M_gateway | M_io | M_ip | M_load_avg
  | M_mem | M_network | M_proc | M_swap | M_time | M_uptime | M_who

text \<open>
  \<open>record\<close> is the array of \<open>LEN_1M\<close> bytes that a module formats its report into,
  given as the string it holds.
\<close>

record module_t =
  mod_name :: string
  opt_line :: string
  mod_usage :: string
  enable :: int
  mod_record :: string
  num_col :: int
  info :: "string list"
  fn_collect_record :: mod_file
  fn_record_to_str :: mod_file
  fn_free_record_list :: mod_file

definition record_list_offset :: nat where
  "record_list_offset = 1048920"


subsection \<open>Objects\<close>

datatype obj =
    O_cpu cpu_t
  | O_dns dns_t
  | O_time sys_time_t
  | O_gateway gateway_t
  | O_io io_t
  | O_interface interface_t
  | O_link rtnl_link_t
  | O_login login_user_t
  | O_load load_stat_t
  | O_mem mem_stat_t
  | O_fs fs_stat_t
  | O_proc proc_t
  | O_list_list
  | O_swap swap_stat_t
  | O_uptime uptime_t
  | O_module module_t

primrec obj_size :: "obj \<Rightarrow> nat" where
  "obj_size (O_cpu _) = 120"
| "obj_size (O_dns _) = 80"
| "obj_size (O_time _) = 24"
| "obj_size (O_gateway _) = 80"
| "obj_size (O_io _) = 304"
| "obj_size (O_interface _) = 216"
| "obj_size (O_link _) = 112"
| "obj_size (O_login _) = 344"
| "obj_size (O_load _) = 32"
| "obj_size (O_mem _) = 40"
| "obj_size (O_fs _) = 2160"
| "obj_size (O_proc _) = 1632"
| "obj_size O_list_list = 32"
| "obj_size (O_swap _) = 40"
| "obj_size (O_uptime _) = 64"
| "obj_size (O_module _) = 1048976"

definition obj_cells :: "obj \<Rightarrow> nat list" where
  "obj_cells ob = (case ob of
      O_list_list \<Rightarrow> [0, head_offset]
    | O_module _ \<Rightarrow> [0, record_list_offset]
    | _ \<Rightarrow> [0])"

lemma obj_cells_in_size: "c \<in> set (obj_cells ob) \<Longrightarrow> c + 16 \<le> obj_size ob"
  by (cases ob) (auto simp: obj_cells_def head_offset_def record_list_offset_def)

lemma obj_cells_0 [simp]: "0 \<in> set (obj_cells ob)"
  by (cases ob) (auto simp: obj_cells_def)

lemma obj_size_pos [simp]: "0 < obj_size ob"
  by (cases ob) auto


subsection \<open>Cleared objects: malloc and memset to zero\<close>

definition chars0 :: "nat \<Rightarrow> string" where
  "chars0 n = replicate n NUL"

definition zero_cpu_stat :: cpu_stat_t where
  "zero_cpu_stat = \<lparr>cs_user = 0, cs_nice = 0, cs_sys = 0, cs_idle = 0, cs_iowait = 0,
     cs_steal = 0, cs_hardirq = 0, cs_softirq = 0, cs_guest = 0, cs_number = 0\<rparr>"

definition zero_cpu :: cpu_t where
  "zero_cpu = \<lparr>cpu_idle = Fin 0, cpu_util = Fin 0, cpu_wa = Fin 0, cpu_stat = zero_cpu_stat\<rparr>"

definition zero_dns :: dns_t where
  "zero_dns = \<lparr>dns_addr = chars0 LEN_64\<rparr>"

definition zero_time :: sys_time_t where
  "zero_time = \<lparr>time_in_sec = 0\<rparr>"

definition zero_gateway :: gateway_t where
  "zero_gateway = \<lparr>gw_addr = chars0 LEN_64\<rparr>"

definition zero_io_stat :: io_stat_t where
  "zero_io_stat = \<lparr>is_uptime = 0, is_uptime0 = 0, rd_sectors = 0, wr_sectors = 0, rd_ios = 0,
     rd_merges = 0, wr_ios = 0, wr_merges = 0, rd_ticks = 0, wr_ticks = 0, ios_pgr = 0,
     tot_ticks = 0, rq_ticks = 0\<rparr>"

definition zero_io :: io_t where
  "zero_io = \<lparr>io_dev = chars0 LEN_64, tps = Fin 0, read_byte = 0, wrtn_byte = 0,
     rrqm_per_sec = Fin 0, wrqm_per_sec = Fin 0, r_per_sec = Fin 0, w_per_sec = Fin 0,
     r_speed_per_sec = Fin 0, w_speed_per_sec = Fin 0, avgrq_sz = Fin 0, avgqu_sz = Fin 0,
     await = Fin 0, r_await = Fin 0, w_await = Fin 0, io_util = Fin 0, io_stat = zero_io_stat\<rparr>"

definition zero_interface :: interface_t where
  "zero_interface = \<lparr>if_dev = chars0 LEN_64, if_ip_addr = chars0 LEN_64, if_ip_ver = IPv4,
     if_netmask = chars0 LEN_64\<rparr>"

definition zero_link :: rtnl_link_t where
  "zero_link = \<lparr>rl_dev = chars0 LEN_64, tx_packet = 0, rx_packet = 0, tx_byte = 0, rx_byte = 0\<rparr>"

definition zero_login :: login_user_t where
  "zero_login = \<lparr>lu_user = chars0 LEN_32, lu_tty = chars0 LEN_32, lu_from = chars0 LEN_256,
     login_time = 0\<rparr>"

definition zero_load :: load_stat_t where
  "zero_load = \<lparr>one_min = Fin 0, five_min = Fin 0, fifteen_min = Fin 0\<rparr>"

definition zero_mem :: mem_stat_t where
  "zero_mem = \<lparr>mem_total_kb = 0, mem_used_kb = 0, mem_free_kb = 0\<rparr>"

definition zero_proc :: proc_t where
  "zero_proc = \<lparr>pid = 0, proc_state = NUL, ppid = 0, proc_user = chars0 LEN_128,
     proc_group = chars0 LEN_128, virt_mem_kb = 0, res_mem_kb = 0, mem_util = Fin 0,
     start_time = 0, sys_cpu_time = 0, cpu_time = 0, proc_cpu_util = Fin 0,
     cmd = chars0 LEN_256, cmd_path = chars0 LEN_1024\<rparr>"

definition zero_swap :: swap_stat_t where
  "zero_swap = \<lparr>swap_total_kb = 0, swap_used_kb = 0, swap_free_kb = 0\<rparr>"

definition zero_uptime :: uptime_t where
  "zero_uptime = \<lparr>total_sec = 0, year = 0, month = 0, day = 0, hour = 0, minute = 0\<rparr>"

end
