(* ===== verification/Machine.thy ===== *)
theory Machine
  imports Zsr_Types List_Loop
begin

text \<open>
  The machine the program runs on: its memory (the list heap, the objects, the
  allocator), the static variables the sources keep between calls, its output
  streams, and the services of the kernel and of the C library that read the
  outside world. The services are a parameter \<open>os\<close>: what a service answers may
  depend on when it is asked, so the state counts the questions in \<open>clock\<close> and two
  reads of the same file may see different contents. Allocation always succeeds
  (the sources never test the result of \<open>malloc\<close>).
\<close>

subsection \<open>Services\<close>

record sockaddr_t =
  sa_family :: int
  sa_data :: "nat list"

record link_stats_t =
  ls_rx_packets :: u32
  ls_tx_packets :: u32
  ls_rx_bytes :: u32
  ls_tx_bytes :: u32

record ifaddrs_t =
  ifa_name :: string
  ifa_addr :: "sockaddr_t option"
  ifa_netmask :: "sockaddr_t option"
  ifa_data :: "link_stats_t option"

record utmp_t =
  ut_type :: int
  ut_user :: string
  ut_line :: string
  ut_host :: string
  ut_time :: time_t

record mntent_t =
  me_fsname :: string
  me_dir :: string
  me_type :: string

record statfs_t =
  f_blocks :: u64
  f_bsize :: u64
  f_bfree :: u64
  f_bavail :: u64
  f_files :: u64
  f_ffree :: u64

record passwd_t =
  pw_name :: string
  pw_gid :: u32

text \<open>
  \<open>os_file t path\<close> is the content of a file opened for reading at time \<open>t\<close>, \<open>None\<close>
  if it cannot be opened; the other fields are the calls of the same name.
  \<open>os_fill\<close> is what a block holds when \<open>malloc\<close> returns it.
\<close>

record os =
  os_file :: "nat \<Rightarrow> string \<Rightarrow> string option"
  os_strerror :: "nat \<Rightarrow> string"
  os_today :: "nat \<Rightarrow> string"
  os_getpid :: int
  os_log_open :: "nat \<Rightarrow> string \<Rightarrow> bool"
  os_clk_tck :: "nat \<Rightarrow> int"
  os_time :: "nat \<Rightarrow> time_t"
  os_nameservers :: "nat \<Rightarrow> (nat list) list option"
  os_mtab :: "nat \<Rightarrow> mntent_t list option"
  os_statfs :: "nat \<Rightarrow> string \<Rightarrow> statfs_t option"
  os_ifaddrs :: "nat \<Rightarrow> ifaddrs_t list option"
  os_nameinfo :: "sockaddr_t option \<Rightarrow> nat \<Rightarrow> string option"
  os_utmp :: "nat \<Rightarrow> utmp_t list"
  os_proc_dir :: "nat \<Rightarrow> (string \<times> bool) list option"
  os_readlink :: "nat \<Rightarrow> string \<Rightarrow> string option"
  os_getpwuid :: "nat \<Rightarrow> u32 \<Rightarrow> passwd_t option"
  os_getgrgid :: "nat \<Rightarrow> u32 \<Rightarrow> string option"
  os_totalram :: "nat \<Rightarrow> u64 option"
  os_fill :: "nat \<Rightarrow> fs_stat_t"


subsection \<open>State\<close>

record st =
  links :: links
  objs :: "addr \<rightharpoonup> obj"
  brk :: addr
  clock :: nat
  HZ :: u32
  NUM_OF_CPU :: u32
  G_LOG_CONFIG :: log_config_t
  log_files :: "string \<rightharpoonup> string"
  out :: string
  err :: string

definition tick :: "st \<Rightarrow> st" where
  "tick s = s\<lparr>clock := Suc (clock s)\<rparr>"

definition fopen :: "os \<Rightarrow> string \<Rightarrow> st \<Rightarrow> string option \<times> st" where
  "fopen os path s = (os_file os (clock s) path, tick s)"

definition fputs_err :: "string \<Rightarrow> st \<Rightarrow> st" where
  "fputs_err t s = s\<lparr>err := err s @ t\<rparr>"

definition fputs_out :: "string \<Rightarrow> st \<Rightarrow> st" where
  "fputs_out t s = s\<lparr>out := out s @ t\<rparr>"

lemma st_frame [heap_simps]:
  "links (tick s) = links s" "objs (tick s) = objs s" "brk (tick s) = brk s"
  "links (fputs_err t s) = links s" "objs (fputs_err t s) = objs s" "brk (fputs_err t s) = brk s"
  "links (fputs_out t s) = links s" "objs (fputs_out t s) = objs s" "brk (fputs_out t s) = brk s"
  by (simp_all add: tick_def fputs_err_def fputs_out_def)


subsection \<open>Allocation\<close>

text \<open>
  \<open>malloc\<close> hands out the block at the break; the list cells of the new struct hold
  no valid address until the code links them. \<open>free\<close> takes the struct and its cells
  away, so that any later access to them is undefined.
\<close>

definition fresh_cells :: "addr \<Rightarrow> obj \<Rightarrow> addr set" where
  "fresh_cells a ob = (\<lambda>c. a + c) ` set (obj_cells ob)"

definition malloc :: "obj \<Rightarrow> st \<Rightarrow> addr \<times> st" where
  "malloc ob s =
     (let a = brk s in
      (a, s\<lparr>links := (\<lambda>c. if c \<in> fresh_cells a ob then Some \<lparr>lh_next = NULL, lh_prev = NULL\<rparr> else links s c),
            objs := (objs s)(a \<mapsto> ob),
            brk := a + obj_size ob\<rparr>))"

definition free :: "addr \<Rightarrow> st \<Rightarrow> st option" where
  "free a s =
     (case objs s a of
        None \<Rightarrow> None
      | Some ob \<Rightarrow> Some (s\<lparr>links := (\<lambda>c. if c \<in> fresh_cells a ob then None else links s c),
                          objs := (objs s)(a := None)\<rparr>))"

definition on_links :: "(links \<Rightarrow> links option) \<Rightarrow> st \<Rightarrow> st option" where
  "on_links f s = map_option (\<lambda>h. s\<lparr>links := h\<rparr>) (f (links s))"

definition set_obj :: "addr \<Rightarrow> obj \<Rightarrow> st \<Rightarrow> st option" where
  "set_obj a ob s = (case objs s a of None \<Rightarrow> None | Some _ \<Rightarrow> Some (s\<lparr>objs := (objs s)(a \<mapsto> ob)\<rparr>))"

text \<open>The allocator's invariant: everything allocated lies below the break.\<close>

definition heap_ok :: "st \<Rightarrow> bool" where
  "heap_ok s \<longleftrightarrow> 0 < brk s
     \<and> (\<forall>a ob. objs s a = Some ob \<longrightarrow> a + obj_size ob \<le> brk s)
     \<and> (\<forall>c \<in> dom (links s). c < brk s)"

lemma fresh_cells_below: "c \<in> fresh_cells a ob \<Longrightarrow> a \<le> c \<and> c < a + obj_size ob"
  using obj_cells_in_size [of _ ob] by (force simp: fresh_cells_def)

lemma self_in_fresh_cells [simp]: "a \<in> fresh_cells a ob"
  using obj_cells_0 [of ob] by (force simp: fresh_cells_def)

lemma malloc_facts:
  assumes "malloc ob s = (a, s')"
  shows "a = brk s" "objs s' = (objs s)(a \<mapsto> ob)" "brk s' = brk s + obj_size ob"
    "dom (links s') = dom (links s) \<union> fresh_cells a ob"
    "c \<notin> fresh_cells a ob \<Longrightarrow> links s' c = links s c"
    "clock s' = clock s" "out s' = out s" "err s' = err s" "log_files s' = log_files s"
    "HZ s' = HZ s" "NUM_OF_CPU s' = NUM_OF_CPU s" "G_LOG_CONFIG s' = G_LOG_CONFIG s"
  using assms by (auto simp: malloc_def Let_def split: if_splits)

lemma malloc_heap_ok: "heap_ok s \<Longrightarrow> malloc ob s = (a, s') \<Longrightarrow> heap_ok s'"
proof -
  assume ok: "heap_ok s" and m: "malloc ob s = (a, s')"
  note mf = malloc_facts(1-4) [OF m]
  have "b + obj_size ob' \<le> brk s'" if "objs s' b = Some ob'" for b ob'
    using that ok by (cases "b = a") (auto simp: mf heap_ok_def intro: trans_le_add1)
  moreover have "c < brk s'" if "c \<in> dom (links s')" for c
    using that ok fresh_cells_below [of c a ob]
    unfolding mf(1-4) heap_ok_def by (auto intro: trans_less_add1)
  ultimately show ?thesis
    using ok by (simp add: heap_ok_def mf(3))
qed

lemma malloc_fresh:
  assumes "heap_ok s" "malloc ob s = (a, s')"
  shows "a \<notin> dom (objs s)" "fresh_cells a ob \<inter> dom (links s) = {}"
proof -
  have a: "a = brk s" by (rule malloc_facts(1) [OF assms(2)])
  show "a \<notin> dom (objs s)"
  proof
    assume "a \<in> dom (objs s)"
    then obtain ob' where "objs s a = Some ob'" by blast
    then have "a + obj_size ob' \<le> brk s"
      using assms(1) by (simp add: heap_ok_def)
    with a obj_size_pos [of ob'] show False by linarith
  qed
  have "brk s \<le> c" if "c \<in> fresh_cells a ob" for c
    using fresh_cells_below [OF that] a by simp
  moreover have "c < brk s" if "c \<in> dom (links s)" for c
    using that assms(1) by (simp add: heap_ok_def)
  ultimately show "fresh_cells a ob \<inter> dom (links s) = {}"
    by fastforce
qed

lemma on_links_heap_ok:
  "heap_ok s \<Longrightarrow> f (links s) = Some h \<Longrightarrow> dom h = dom (links s) \<Longrightarrow> heap_ok (s\<lparr>links := h\<rparr>)"
  by (simp add: heap_ok_def)

lemma free_heap_ok: "heap_ok s \<Longrightarrow> free a s = Some s' \<Longrightarrow> heap_ok s'"
  by (auto simp: heap_ok_def free_def split: option.splits if_splits)

text \<open>The address of the static list head of \<open>zsr/framework.c\<close>.\<close>

definition MOD_LIST_HEAD :: addr where
  "MOD_LIST_HEAD = 16"

text \<open>
  A quiet machine to run examples on: its files are given, every other service
  answers with nothing.
\<close>

definition quiet_os :: "(nat \<Rightarrow> string \<Rightarrow> string option) \<Rightarrow> os" where
  "quiet_os files = \<lparr>os_file = files, os_strerror = (\<lambda>_. ''No such file''), os_today = (\<lambda>_. ''2016-01-01''),
     os_getpid = 1, os_log_open = (\<lambda>_ _. True), os_clk_tck = (\<lambda>_. 100), os_time = (\<lambda>_. 0),
     os_nameservers = (\<lambda>_. None), os_mtab = (\<lambda>_. None), os_statfs = (\<lambda>_ _. None),
     os_ifaddrs = (\<lambda>_. None), os_nameinfo = (\<lambda>_ _. None), os_utmp = (\<lambda>_. []),
     os_proc_dir = (\<lambda>_. None), os_readlink = (\<lambda>_ _. None), os_getpwuid = (\<lambda>_ _. None),
     os_getgrgid = (\<lambda>_ _. None), os_totalram = (\<lambda>_. None),
     os_fill = (\<lambda>_. \<lparr>mnt_fsname = chars0 LEN_1024, mnt_dir = chars0 LEN_1024, mnt_type = chars0 LEN_32,
       fs_total = 0, fs_used = 0, fs_available = 0, fs_util = Fin 0, inodes = 0, iused = 0,
       ifree = 0, iutil = Fin 0\<rparr>)\<rparr>"

lemma quiet_os_file [simp]: "os_file (quiet_os files) = files"
  by (simp add: quiet_os_def)

end
