(* ===== verification/Common.thy ===== *)
theory Common
  imports Machine
begin

text \<open>
  \<open>libzsr/common.c\<close>: the test for a decimal number, rounding to a number of decimals,
  the tests for IP addresses. A possibly null \<open>const char *\<close> is a \<open>string option\<close>.
\<close>

subsection \<open>is_digit\<close>

text \<open>
  The \<open>while\<close> loop, from its counter \<open>i\<close>, the length of the whole string and what is
  left of it. After a dot the loop steps over it and consumes the next character,
  the terminating NUL included, in the same round.
\<close>

fun is_digit_loop :: "nat \<Rightarrow> nat \<Rightarrow> string \<Rightarrow> bool" where
  "is_digit_loop i len [] = True"
| "is_digit_loop i len (c # cs) =
     (let i = Suc i in
      if c = CHR ''.'' then
        if i = 1 \<or> i = len then False
        else (case cs of
            [] \<Rightarrow> isdigit NUL
          | d # ds \<Rightarrow> if \<not> isdigit d then False else is_digit_loop i len ds)
      else if \<not> isdigit c then False
      else is_digit_loop i len cs)"

definition is_digit :: "string option \<Rightarrow> bool" where
  "is_digit s = (case s of
      None \<Rightarrow> False
    | Some s \<Rightarrow> is_digit_loop 0 (length s) (if s \<noteq> [] \<and> hd s = CHR ''-'' then tl s else s))"

text \<open>What it accepts: digits and dots, no dot at either end, no two dots together.\<close>

definition dotted_digits :: "string \<Rightarrow> bool" where
  "dotted_digits s \<longleftrightarrow> list_all (\<lambda>c. isdigit c \<or> c = CHR ''.'') s
     \<and> successively (\<lambda>a b. \<not> (a = CHR ''.'' \<and> b = CHR ''.'')) s
     \<and> (s \<noteq> [] \<longrightarrow> hd s \<noteq> CHR ''.'' \<and> last s \<noteq> CHR ''.'')"

lemma not_isdigit_NUL [simp]: "\<not> isdigit NUL"
  by (simp add: isdigit_def)

lemma not_isdigit_dot [simp]: "\<not> isdigit CHR ''.''"
  by (simp add: isdigit_def)

fun digits_from :: "string \<Rightarrow> bool" where
  "digits_from [] = True"
| "digits_from (c # cs) =
     (if c = CHR ''.'' then (case cs of [] \<Rightarrow> False | d # ds \<Rightarrow> isdigit d \<and> digits_from ds)
      else isdigit c \<and> digits_from cs)"

lemma is_digit_loop_middle:
  "0 < i \<Longrightarrow> i + length s \<le> len \<Longrightarrow> is_digit_loop i len s = digits_from s"
  by (induction i len s rule: is_digit_loop.induct) (auto split: list.splits)

lemma digits_from_iff:
  "digits_from s \<longleftrightarrow> list_all (\<lambda>c. isdigit c \<or> c = CHR ''.'') s
     \<and> successively (\<lambda>a b. \<not> (a = CHR ''.'' \<and> b = CHR ''.'')) s
     \<and> (s \<noteq> [] \<longrightarrow> last s \<noteq> CHR ''.'')"
proof (induction s rule: digits_from.induct)
  case (2 c cs)
  have dot: "isdigit d \<Longrightarrow> d \<noteq> CHR ''.''" for d
    by auto
  show ?case
  proof (cases "c = CHR ''.''")
    case True
    show ?thesis
    proof (cases cs)
      case (Cons d ds)
      then show ?thesis
        using True 2(1) [OF True Cons] dot [of d] by (cases ds) auto
    qed (use True in simp)
  next
    case False
    then show ?thesis
      using 2(2) dot [of c] by (cases cs) auto
  qed
qed simp

text \<open>
  After an optional minus sign, \<open>is_digit\<close> accepts exactly the strings of digits
  and dots with no dot at either end and no two dots together; the empty string, a lone
  minus and \<open>1.2.3\<close> are among them.
\<close>

theorem is_digit_accepts:
  "is_digit (Some s) \<longleftrightarrow> dotted_digits (if s \<noteq> [] \<and> hd s = CHR ''-'' then tl s else s)"
proof -
  have "is_digit_loop 0 len t \<longleftrightarrow> dotted_digits t" if "length t \<le> len" for t len
  proof (cases t)
    case (Cons c cs)
    with that show ?thesis
      using is_digit_loop_middle [of 1 cs len] digits_from_iff [of cs]
      by (cases cs) (auto simp: dotted_digits_def)
  qed (simp add: dotted_digits_def)
  then show ?thesis
    by (simp add: is_digit_def)
qed

subsection \<open>round_with_prec\<close>

text \<open>
  The cast to \<open>int64_t\<close> is undefined for a NaN, an infinity or a value out of range;
  so is the whole call then.
\<close>

definition round_with_prec :: "double \<Rightarrow> nat \<Rightarrow> double option" where
  "round_with_prec d precision =
     (if deq d (Fin 0) then Some d
      else do {
        let i = dmul d (pow10 (int precision));
        i \<leftarrow> int64_of_dbl (if dless (Fin 0) d then dadd i (Fin (1 / 2)) else dsub i (Fin (1 / 2)));
        Some (dmul (dbl_of_int i) (pow10 (- int precision)))
      })"

lemma pow10_2 [double_simps]:
  "pow10 2 = Fin 100" "pow10 (- 2) = Fin (5764607523034235 / 576460752303423488)"
  by (simp_all add: pow10_def power_int_minus double_simps)

lemma round_with_prec_undefined:
  "round_with_prec NaN p = None" "round_with_prec (Inf b) 2 = None"
  by (cases "pow10 (int p)"; simp add: round_with_prec_def dsub_def)
     (cases b; simp add: round_with_prec_def dsub_def pow10_2)

subsection \<open>Addresses\<close>

text \<open>\<open>inet_pton\<close> is the C library's; \<open>AF_INET\<close> is 2 and \<open>AF_INET6\<close> is 10 on Linux.\<close>

definition AF_INET :: int where "AF_INET = 2"
definition AF_INET6 :: int where "AF_INET6 = 10"
definition AF_PACKET :: int where "AF_PACKET = 17"

definition is_ipv4_addr :: "(int \<Rightarrow> string \<Rightarrow> int) \<Rightarrow> string option \<Rightarrow> bool" where
  "is_ipv4_addr inet_pton s = (case s of None \<Rightarrow> False | Some s \<Rightarrow> inet_pton AF_INET s = 1)"

definition is_ipv6_addr :: "(int \<Rightarrow> string \<Rightarrow> int) \<Rightarrow> string option \<Rightarrow> bool" where
  "is_ipv6_addr inet_pton s = (case s of None \<Rightarrow> False | Some s \<Rightarrow> inet_pton AF_INET6 s = 1)"


subsection \<open>The values of the unit tests\<close>

lemma is_digit_tests:
  "\<not> is_digit None" "\<not> is_digit (Some ''a23a'')" "\<not> is_digit (Some ''.123'')"
  "\<not> is_digit (Some ''123.'')" "is_digit (Some ''1.23'')" "is_digit (Some ''-1.23'')"
  "is_digit (Some ''123'')" "is_digit (Some ''-123'')"
  by (simp_all add: is_digit_def isdigit_def)

lemma test_round_steps:
  "rnd (12345 / 10000) = Fin (5559693739988877 / 4503599627370496)"
  "dmul (Fin (5559693739988877 / 4503599627370496)) (Fin 100) = Fin (2171755367183155 / 17592186044416)"
  "dadd (Fin (2171755367183155 / 17592186044416)) (Fin (1 / 2)) = Fin (2180551460205363 / 17592186044416)"
  "int64_of_dbl (Fin (2180551460205363 / 17592186044416)) = Some (123)"
  "dmul (dbl_of_int (123)) (Fin (5764607523034235 / 576460752303423488)) = Fin (2769713770832855 / 2251799813685248)"
  "rnd (123 / 100) = Fin (2769713770832855 / 2251799813685248)"
  "rnd (12678 / 10000) = Fin (5709663607580315 / 4503599627370496)"
  "dmul (Fin (5709663607580315 / 4503599627370496)) (Fin 100) = Fin (4460674693422121 / 35184372088832)"
  "dadd (Fin (4460674693422121 / 35184372088832)) (Fin (1 / 2)) = Fin (4478266879466537 / 35184372088832)"
  "int64_of_dbl (Fin (4478266879466537 / 35184372088832)) = Some (127)"
  "dmul (dbl_of_int (127)) (Fin (5764607523034235 / 576460752303423488)) = Fin (2859785763380265 / 2251799813685248)"
  "rnd (127 / 100) = Fin (2859785763380265 / 2251799813685248)"
  "rnd (- (12345 / 10000)) = Fin (- (5559693739988877 / 4503599627370496))"
  "dmul (Fin (- (5559693739988877 / 4503599627370496))) (Fin 100) = Fin (- (2171755367183155 / 17592186044416))"
  "dadd (Fin (- (2171755367183155 / 17592186044416))) (Fin (- (1 / 2))) = Fin (- (2180551460205363 / 17592186044416))"
  "int64_of_dbl (Fin (- (2180551460205363 / 17592186044416))) = Some (-123)"
  "dmul (dbl_of_int (-123)) (Fin (5764607523034235 / 576460752303423488)) = Fin (- (2769713770832855 / 2251799813685248))"
  "rnd (- (123 / 100)) = Fin (- (2769713770832855 / 2251799813685248))"
  "rnd (- (12678 / 10000)) = Fin (- (5709663607580315 / 4503599627370496))"
  "dmul (Fin (- (5709663607580315 / 4503599627370496))) (Fin 100) = Fin (- (4460674693422121 / 35184372088832))"
  "dadd (Fin (- (4460674693422121 / 35184372088832))) (Fin (- (1 / 2))) = Fin (- (4478266879466537 / 35184372088832))"
  "int64_of_dbl (Fin (- (4478266879466537 / 35184372088832))) = Some (-127)"
  "dmul (dbl_of_int (-127)) (Fin (5764607523034235 / 576460752303423488)) = Fin (- (2859785763380265 / 2251799813685248))"
  "rnd (- (127 / 100)) = Fin (- (2859785763380265 / 2251799813685248))"
  by (simp_all add: dbl_of_int_def double_simps)

lemma round_with_prec_tests:
  "round_with_prec (Fin 0) 2 = Some (Fin 0)"
  "round_with_prec (rnd (12345 / 10000)) 2 = Some (rnd (123 / 100))"
  "round_with_prec (rnd (12678 / 10000)) 2 = Some (rnd (127 / 100))"
  "round_with_prec (rnd (- (12345 / 10000))) 2 = Some (rnd (- (123 / 100)))"
  "round_with_prec (rnd (- (12678 / 10000))) 2 = Some (rnd (- (127 / 100)))"
  by (simp_all only: test_round_steps round_with_prec_def dsub_def pow10_2 of_nat_numeral Let_def)
     (simp_all add: test_round_steps del: dmul.simps dadd.simps int64_of_dbl.simps)

subsection \<open>Two decimals: rounding and printing agree\<close>

lemma rndv_pow2: "- 1074 \<le> q \<Longrightarrow> rndv (2 powi q) = 2 powi q"
  using round_pos_exact [of 1 53 "- 1074" q] by (simp add: rndv_def)

lemma rndv_error:
  assumes "0 \<le> x" "x \<le> 2 ^ m"
  shows "\<bar>rndv x - x\<bar> \<le> 2 ^ m * 2 powi (- 53)"
proof (cases "2 powi (- 1022) \<le> x")
  case True
  have "x * 2 powi (- 53) \<le> 2 ^ m * 2 powi (- 53)"
    using assms(2) by (intro mult_right_mono) simp_all
  then show ?thesis
    using rndv_rel [OF True] by linarith
next
  case False
  then have lt: "x \<le> 2 powi (- 1022)" by simp
  then have "rndv x \<le> rndv (2 powi (- 1022))"
    by (rule rndv_mono [OF assms(1)])
  also have "\<dots> = 2 powi (- 1022)"
    by (rule rndv_pow2) simp
  finally have "\<bar>rndv x - x\<bar> \<le> 2 powi (- 1022)"
    using lt assms(1) rndv_nonneg [OF assms(1)] by linarith
  also have "\<dots> \<le> 2 powi (int m - 53)"
    by (intro power_int_increasing) simp_all
  also have "\<dots> = (2::rat) ^ m * 2 powi (- 53)"
    using power_int_add [of "2::rat" "int m" "- 53"] by (simp only: power_int_of_nat) simp
  finally show ?thesis .
qed

text \<open>A whole number of hundredths, scaled by \<open>pow(10, -2)\<close>, prints as that number.\<close>

lemma fmt2_hundredths:
  assumes "n < 2 ^ 40"
  shows "fmt2 (dmul (dbl_of_int (int n)) (pow10 (- 2)))
    = dec (n div 100) @ ''.'' @ two_digits (n mod 100)"
proof -
  let ?c = "5764607523034235 / 576460752303423488 :: rat"
  let ?x = "of_nat n * ?c"
  have n: "(of_nat n :: rat) < 2 ^ 40"
    using assms of_nat_less_iff [of n "2 ^ 40", where ?'a = rat] by simp
  have x: "0 \<le> ?x" "?x \<le> 2 ^ 34"
    using n by (simp_all add: divide_le_eq)
  have "dbl_of_int (int n) = Fin (of_nat n)"
    using dbl_of_nat_exact [of n] assms by (simp add: dbl_of_nat_def dbl_of_int_def)
  then have d: "dmul (dbl_of_int (int n)) (pow10 (- 2)) = Fin (rndv ?x)"
    using x rnd_eq_rndv [of ?x] by (simp add: pow10_2)
  define r where "r = rndv ?x"
  have "\<bar>r - ?x\<bar> \<le> 2 ^ 34 * 2 powi (- 53)"
    unfolding r_def using x by (rule rndv_error)
  also have "(2::rat) ^ 34 * 2 powi (- 53) = 1 / 2 ^ 19"
    by (simp add: power_int_minus)
  finally have r: "r \<le> ?x + 1 / 2 ^ 19" "?x - 1 / 2 ^ 19 \<le> r"
    unfolding abs_le_iff by linarith+
  have "of_nat n \<le> ?x * 100" "?x * 100 \<le> of_nat n + 1 / 1000"
    using n by simp_all
  with r have "\<bar>r * 100 - of_int (int n)\<bar> < 1 / 2"
    unfolding abs_less_iff of_int_of_nat_eq by simp
  then have "\<bar>rndv ?x * 100 - of_int (int n)\<bar> < 1 / 2"
    unfolding r_def .
  then have "rne (rndv ?x * 100) = int n"
    by (rule rne_less_half)
  then show ?thesis
    using rndv_nonneg [OF x(1)] by (simp add: d Let_def)
qed

text \<open>
  For a fraction between 0 and 1 the whole pipeline of the file-system report: the
  value is rounded to a whole number \<open>k\<close> of hundredths next to it, and prints as \<open>k\<close>.
\<close>

lemma round_with_prec_unit:
  assumes "0 < d" "d \<le> 1"
  shows "\<exists>k y. round_with_prec (Fin d) 2 = Some y
    \<and> fmt2 y = dec (k div 100) @ ''.'' @ two_digits (k mod 100)
    \<and> \<bar>d * 100 - of_nat k\<bar> \<le> 1 / 2 + 1 / 2 ^ 44"
proof -
  define i where "i = rndv (d * 100)"
  define j where "j = rndv (i + 1 / 2)"
  have "d * 100 \<le> 2 ^ 7" using assms by simp
  then have i: "\<bar>i - d * 100\<bar> \<le> 2 ^ 7 * 2 powi (- 53)"
    unfolding i_def using assms by (intro rndv_error) simp_all
  have i_nonneg: "0 \<le> i"
    unfolding i_def using assms by (intro rndv_nonneg) simp
  have "i \<le> rndv 100"
    unfolding i_def using assms by (intro rndv_mono) simp_all
  then have i_le: "i \<le> 100" by (simp add: rndv_numeral)
  then have j: "\<bar>j - (i + 1 / 2)\<bar> \<le> 2 ^ 7 * 2 powi (- 53)"
    unfolding j_def using i_nonneg by (intro rndv_error) simp_all
  have j_bounds: "0 \<le> j" "j \<le> 101"
    using rndv_nonneg [of "i + 1 / 2"] rndv_mono [of "i + 1 / 2" 101] i_nonneg i_le
    by (simp_all add: j_def rndv_numeral)
  define k where "k = nat \<lfloor>j\<rfloor>"
  have k: "int k = \<lfloor>j\<rfloor>" "k \<le> 101"
  proof -
    have "\<lfloor>j\<rfloor> \<le> 101"
      using j_bounds(2) by (simp add: floor_le_iff)
    then show "int k = \<lfloor>j\<rfloor>" "k \<le> 101"
      using j_bounds(1) unfolding k_def by simp_all linarith
  qed
  have "(of_nat k :: rat) \<le> j" "j < of_nat k + 1"
    using floor_correct [of j] by (simp_all flip: k(1))
  moreover have "(2::rat) ^ 7 * 2 powi (- 53) \<le> 1 / 2 ^ 45"
    by (simp add: power_int_minus)
  then have "\<bar>i - d * 100\<bar> \<le> 1 / 2 ^ 45" "\<bar>j - (i + 1 / 2)\<bar> \<le> 1 / 2 ^ 45"
    using i j by linarith+
  moreover have "(1 / 2 ^ 45 + 1 / 2 ^ 45 :: rat) = 1 / 2 ^ 44"
    by simp
  ultimately have near: "\<bar>d * 100 - of_nat k\<bar> \<le> 1 / 2 + 1 / 2 ^ 44"
    unfolding abs_le_iff by linarith
  have "dmul (Fin d) (pow10 2) = Fin i"
    using assms by (simp add: pow10_2 i_def rnd_eq_rndv)
  moreover have "dadd (Fin i) (Fin (1 / 2)) = Fin j"
    using i_nonneg i_le by (simp add: j_def rnd_eq_rndv)
  moreover have "int64_of_dbl (Fin j) = Some (int k)"
    using j_bounds k by simp
  ultimately have "round_with_prec (Fin d) 2 = Some (dmul (dbl_of_int (int k)) (pow10 (- 2)))"
    using assms(1) by (simp add: round_with_prec_def del: dmul.simps dadd.simps int64_of_dbl.simps)
  with fmt2_hundredths [of k] k(2) near show ?thesis by auto
qed


text \<open>
  With precision 2, a finite value in \<open>(0, 1]\<close> is rounded to a whole number of
  hundredths at most half a hundredth away (up to the error of the multiplication),
  and it prints as that number.
\<close>

theorem round_with_prec_hundredths:
  assumes "0 < d" "d \<le> 1"
  shows "\<exists>k y. round_with_prec (Fin d) 2 = Some y
    \<and> fmt2 y = dec (k div 100) @ ''.'' @ two_digits (k mod 100)
    \<and> \<bar>d * 100 - of_nat k\<bar> \<le> 1 / 2 + 1 / 2 ^ 44"
  by (rule round_with_prec_unit [OF assms])

theorem round_with_prec_hundredths_witness:
  "\<exists>k y. round_with_prec (Fin (1 / 8)) 2 = Some y
    \<and> fmt2 y = dec (k div 100) @ ''.'' @ two_digits (k mod 100)
    \<and> \<bar>1 / 8 * 100 - (of_nat k :: rat)\<bar> \<le> 1 / 2 + 1 / 2 ^ 44"
  by (rule round_with_prec_hundredths) simp_all

end
