(* ===== verification/Unit_Test.thy ===== *)
theory Unit_Test
  imports Common
begin

text \<open>
  \<open>test/common.c\<close>: the unit tests of the repository, run on the model. Every assertion of the
  tests holds of the definitions of Common, so that the driver reports no failure.
\<close>

text \<open>The conjunction of the assertions of a test; a call without a defined result fails it.\<close>

definition test_is_digit :: bool where
  "test_is_digit \<longleftrightarrow>
     is_digit None = False
   \<and> is_digit (Some ''a23a'') = False
   \<and> is_digit (Some ''.123'') = False
   \<and> is_digit (Some ''123.'') = False
   \<and> is_digit (Some ''1.23'') = True
   \<and> is_digit (Some ''-1.23'') = True
   \<and> is_digit (Some ''123'') = True
   \<and> is_digit (Some ''-123'') = True"

text \<open>A decimal constant is the nearest \<open>double\<close>.\<close>

definition ck_double :: "double option \<Rightarrow> rat \<Rightarrow> bool" where
  "ck_double ret x = (case ret of None \<Rightarrow> False | Some r \<Rightarrow> deq r (rnd x))"

definition test_round_with_prec :: bool where
  "test_round_with_prec \<longleftrightarrow>
     ck_double (round_with_prec (rnd 0) 2) 0
   \<and> ck_double (round_with_prec (rnd (12345 / 10000)) 2) (123 / 100)
   \<and> ck_double (round_with_prec (rnd (12678 / 10000)) 2) (127 / 100)
   \<and> ck_double (round_with_prec (rnd (- (12345 / 10000))) 2) (- (123 / 100))
   \<and> ck_double (round_with_prec (rnd (- (12678 / 10000))) 2) (- (127 / 100))"

definition test_is_ipv4_addr :: "(int \<Rightarrow> string \<Rightarrow> int) \<Rightarrow> bool" where
  "test_is_ipv4_addr inet_pton \<longleftrightarrow>
     is_ipv4_addr inet_pton None = False
   \<and> is_ipv4_addr inet_pton (Some ''abc'') = False
   \<and> is_ipv4_addr inet_pton (Some ''123'') = False
   \<and> is_ipv4_addr inet_pton (Some ''1.2.3.4'') = True
   \<and> is_ipv4_addr inet_pton (Some ''8.8.8.8'') = True
   \<and> is_ipv4_addr inet_pton (Some ''255.255.255.255'') = True"

definition test_is_ipv6_addr :: "(int \<Rightarrow> string \<Rightarrow> int) \<Rightarrow> bool" where
  "test_is_ipv6_addr inet_pton \<longleftrightarrow>
     is_ipv6_addr inet_pton None = False
   \<and> is_ipv6_addr inet_pton (Some ''abc'') = False
   \<and> is_ipv6_addr inet_pton (Some ''123'') = False
   \<and> is_ipv6_addr inet_pton (Some ''2001:DB8:2de:0:0:0:0:e13'') = True"

definition common_suite :: "(int \<Rightarrow> string \<Rightarrow> int) \<Rightarrow> bool list" where
  "common_suite inet_pton =
     [test_is_digit, test_round_with_prec, test_is_ipv4_addr inet_pton, test_is_ipv6_addr inet_pton]"

definition number_failed :: "bool list \<Rightarrow> nat" where
  "number_failed suite = length (filter Not suite)"

text \<open>What \<open>inet_pton\<close> has to say about the addresses of the tests: 1 for an address of the family, 0 otherwise.\<close>

definition pton_answers :: "(int \<Rightarrow> string \<Rightarrow> int) \<Rightarrow> bool" where
  "pton_answers inet_pton \<longleftrightarrow>
     (\<forall>family\<in>{AF_INET, AF_INET6}. \<forall>w\<in>{''abc'', ''123''}. inet_pton family w = 0)
   \<and> (\<forall>w\<in>{''1.2.3.4'', ''8.8.8.8'', ''255.255.255.255''}. inet_pton AF_INET w = 1)
   \<and> inet_pton AF_INET6 ''2001:DB8:2de:0:0:0:0:e13'' = 1"

lemma test_is_digit_passes: test_is_digit
  unfolding test_is_digit_def using is_digit_tests by simp

lemma deq_rnd [simp]: "deq (rnd x) (rnd x)"
  by (simp add: rnd_def round_to_def Let_def)

lemma test_round_with_prec_passes: test_round_with_prec
proof -
  have "rnd 0 = Fin 0"
    by (simp add: rnd_def round_to_def)
  then show ?thesis
    unfolding test_round_with_prec_def ck_double_def using round_with_prec_tests deq_rnd [of 0] by simp
qed

lemma unit_tests_pass: "pton_answers inet_pton \<Longrightarrow> number_failed (common_suite inet_pton) = 0"
  by (simp add: number_failed_def common_suite_def test_is_digit_passes test_round_with_prec_passes
      test_is_ipv4_addr_def test_is_ipv6_addr_def is_ipv4_addr_def is_ipv6_addr_def pton_answers_def)

end
