(* ===== verification/Zsr_Log.thy ===== *)
theory Zsr_Log
  imports Machine
begin

text \<open>
  \<open>libzsr/log.c\<close> and \<open>print_log_l\<close> of \<open>libzsr/common.c\<close>: a message goes out as one
  line on the configured stream, or not at all if its level is below the
  configured one; a log file that has reached its maximal size is started again.
  The message is the text \<open>vfprintf\<close> makes of the format and its arguments.
\<close>

definition default_log_config :: log_config_t where
  "default_log_config = \<lparr>level = LOG_INFO, output_to = LOS_STDERR, max_byte = 104857600,
     log_path = ''/var/log/zsr.log''\<rparr>"

text \<open>The state when \<open>main\<close> starts: static storage only, and the initialised variables.\<close>

definition boot :: st where
  "boot = \<lparr>links = [MOD_LIST_HEAD \<mapsto> \<lparr>lh_next = NULL, lh_prev = NULL\<rparr>], objs = Map.empty, brk = 4096,
     clock = 0, HZ = 100, NUM_OF_CPU = 1, G_LOG_CONFIG = default_log_config,
     log_files = Map.empty, out = '''', err = ''''\<rparr>"

lemma boot_heap_ok: "heap_ok boot"
  by (simp add: heap_ok_def boot_def MOD_LIST_HEAD_def)

definition get_size_in_byte :: "string \<Rightarrow> st \<Rightarrow> nat" where
  "get_size_in_byte file_name s = (case log_files s file_name of Some c \<Rightarrow> length c | None \<Rightarrow> 0)"

text \<open>Mode \<open>wb\<close> empties the file, mode \<open>ab+\<close> creates it if need be and appends.\<close>

definition open_log_file :: "os \<Rightarrow> st \<Rightarrow> (st, st) result" where
  "open_log_file os s =
     (let path = log_path (G_LOG_CONFIG s);
          old_log_size = get_size_in_byte path s;
          start = (if max_byte (G_LOG_CONFIG s) \<le> old_log_size then ''''
                   else case log_files s path of Some c \<Rightarrow> c | None \<Rightarrow> '''')
      in if os_log_open os (clock s) path
         then Some (Done (tick (s\<lparr>log_files := (log_files s)(path \<mapsto> start)\<rparr>)))
         else Some (Exit 1 (fputs_err (''cannot open '' @ [CHR 0x22] @ path @ [CHR 0x22] @ '': '') (tick s))))"

definition fputs_log :: "string \<Rightarrow> st \<Rightarrow> st" where
  "fputs_log t s =
     (let path = log_path (G_LOG_CONFIG s);
          old = (case log_files s path of Some c \<Rightarrow> c | None \<Rightarrow> '''')
      in s\<lparr>log_files := (log_files s)(path \<mapsto> old @ t)\<rparr>)"

definition log_line :: "os \<Rightarrow> log_level_t \<Rightarrow> string \<Rightarrow> nat \<Rightarrow> string \<Rightarrow> nat \<Rightarrow> string" where
  "log_line os lvl file line msg t =
     ''['' @ os_today os t @ ''] ['' @ print_d (os_getpid os) @ ''] ''
     @ (if lvl \<le> LOG_TRACE then file @ '':'' @ dec line @ '' '' else '''')
     @ msg @ [newline]"

definition print_log :: "os \<Rightarrow> log_level_t \<Rightarrow> string \<Rightarrow> nat \<Rightarrow> string \<Rightarrow> st \<Rightarrow> (st, st) result" where
  "print_log os lvl file line msg s =
     (if lvl = LOG_OFF then Some (Done s)
      else if lvl < level (G_LOG_CONFIG s) then Some (Done s)
      else case output_to (G_LOG_CONFIG s) of
          LOS_STDOUT \<Rightarrow> Some (Done (tick (fputs_out (log_line os lvl file line msg (clock s)) s)))
        | LOS_STDERR \<Rightarrow> Some (Done (tick (fputs_err (log_line os lvl file line msg (clock s)) s)))
        | LOS_FILE \<Rightarrow> bnd (open_log_file os s) (\<lambda>s.
            Some (Done (tick (fputs_log (log_line os lvl file line msg (clock s)) s)))))"

text \<open>\<open>print_log_l\<close>: the message is the title, if there is one, and the text of \<open>errno\<close>.\<close>

definition print_log_l :: "os \<Rightarrow> log_level_t \<Rightarrow> string option \<Rightarrow> st \<Rightarrow> (st, st) result" where
  "print_log_l os lvl title s =
     (let buf = take (LEN_128 - 1) (os_strerror os (clock s)) in
      case title of
        Some t \<Rightarrow>
          if t \<noteq> '''' then print_log os lvl ''common.c'' 81 (t @ '': '' @ buf @ [newline]) s
          else print_log os lvl ''common.c'' 83 (buf @ [newline]) s
      | None \<Rightarrow> print_log os lvl ''common.c'' 83 (buf @ [newline]) s)"


subsection \<open>Logging leaves the memory alone\<close>

definition same_memory :: "st \<Rightarrow> st \<Rightarrow> bool" where
  "same_memory s s' \<longleftrightarrow> links s' = links s \<and> objs s' = objs s \<and> brk s' = brk s
     \<and> HZ s' = HZ s \<and> NUM_OF_CPU s' = NUM_OF_CPU s \<and> G_LOG_CONFIG s' = G_LOG_CONFIG s"

lemma same_memory_refl [simp]: "same_memory s s"
  by (simp add: same_memory_def)

lemma same_memory_trans: "same_memory s s' \<Longrightarrow> same_memory s' s'' \<Longrightarrow> same_memory s s''"
  by (simp add: same_memory_def)

lemma same_memory_tick [simp]: "same_memory s (tick s)"
  by (simp add: same_memory_def tick_def)

lemma open_log_file_memory: "open_log_file os s = Some (Done s') \<Longrightarrow> same_memory s s'"
  by (auto simp: open_log_file_def Let_def same_memory_def tick_def split: if_splits)

lemma print_log_memory: "print_log os lvl file line msg s = Some (Done s') \<Longrightarrow> same_memory s s'"
  by (auto simp: print_log_def bnd_Done_iff same_memory_def tick_def fputs_out_def fputs_err_def
        fputs_log_def Let_def split: if_splits log_output_stream_t.splits
        dest!: open_log_file_memory)

lemma print_log_l_memory: "print_log_l os lvl title s = Some (Done s') \<Longrightarrow> same_memory s s'"
  by (auto simp: print_log_l_def Let_def split: option.splits if_splits dest: print_log_memory)


subsection \<open>What is logged\<close>

lemma print_log_silent:
  "lvl = LOG_OFF \<or> lvl < level (G_LOG_CONFIG s) \<Longrightarrow> print_log os lvl file line msg s = Some (Done s)"
  by (auto simp: print_log_def)

lemma log_line_untraced:
  "lvl \<noteq> LOG_TRACE \<Longrightarrow> log_line os lvl file line msg t
     = ''['' @ os_today os t @ ''] ['' @ print_d (os_getpid os) @ ''] '' @ msg @ [newline]"
  by (cases lvl) (simp_all add: log_line_def less_eq_log_level_t_def)

text \<open>What a file holds for \<open>stat\<close> and for a stream that appends: a missing file is empty.\<close>

definition log_text :: "st \<Rightarrow> string \<Rightarrow> string" where
  "log_text s path = (case log_files s path of Some c \<Rightarrow> c | None \<Rightarrow> '''')"

lemma get_size_in_byte_text: "get_size_in_byte path s = length (log_text s path)"
  by (simp add: get_size_in_byte_def log_text_def split: option.split)

lemma print_log_file:
  assumes "output_to (G_LOG_CONFIG s) = LOS_FILE" "lvl \<noteq> LOG_OFF" "level (G_LOG_CONFIG s) \<le> lvl"
    and "os_log_open os (clock s) (log_path (G_LOG_CONFIG s))"
  shows "\<exists>s'. print_log os lvl file line msg s = Some (Done s')
    \<and> log_files s' = (log_files s)(log_path (G_LOG_CONFIG s) \<mapsto>
        (if max_byte (G_LOG_CONFIG s) \<le> length (log_text s (log_path (G_LOG_CONFIG s))) then ''''
         else log_text s (log_path (G_LOG_CONFIG s)))
        @ log_line os lvl file line msg (Suc (clock s)))
    \<and> out s' = out s \<and> err s' = err s \<and> same_memory s s'"
proof -
  have "\<not> lvl < level (G_LOG_CONFIG s)"
    using assms(3) by simp
  then have "\<exists>s'. print_log os lvl file line msg s = Some (Done s')
    \<and> log_files s' = (log_files s)(log_path (G_LOG_CONFIG s) \<mapsto>
        (if max_byte (G_LOG_CONFIG s) \<le> length (log_text s (log_path (G_LOG_CONFIG s))) then ''''
         else log_text s (log_path (G_LOG_CONFIG s)))
        @ log_line os lvl file line msg (Suc (clock s)))
    \<and> out s' = out s \<and> err s' = err s"
    using assms(1,2,4)
    by (simp add: print_log_def open_log_file_def fputs_log_def tick_def Let_def get_size_in_byte_text log_text_def)
  then show ?thesis
    using print_log_memory by blast
qed

lemma log_line_text:
  "log_line os lvl file line msg t = ''['' @ os_today os t @ ''] ['' @ print_d (os_getpid os) @ ''] ''
     @ (if lvl = LOG_TRACE then file @ '':'' @ dec line @ '' '' else '''') @ msg @ [newline]"
  by (cases lvl) (simp_all add: log_line_def less_eq_log_level_t_def)

text \<open>
  C35. If messages go to a file that can be opened, a message at or above the configured level goes to the end of it: date, process
  id, the place in the source at level trace only, the message, a newline. A file that has
  reached the limit is started again, any other keeps what it held; so the file never exceeds its limit by
  more than the text just written. No other file, neither standard stream and no memory of the program
  is written.
\<close>

theorem log_file_bounded:
  assumes "output_to (G_LOG_CONFIG s) = LOS_FILE" "lvl \<noteq> LOG_OFF" "level (G_LOG_CONFIG s) \<le> lvl"
    and "os_log_open os (clock s) (log_path (G_LOG_CONFIG s))"
  shows "\<exists>s' w. print_log os lvl file line msg s = Some (Done s')
    \<and> w = ''['' @ os_today os (Suc (clock s)) @ ''] ['' @ print_d (os_getpid os) @ ''] ''
        @ (if lvl = LOG_TRACE then file @ '':'' @ dec line @ '' '' else '''') @ msg @ [newline]
    \<and> log_files s' = (log_files s)(log_path (G_LOG_CONFIG s) \<mapsto>
        (if max_byte (G_LOG_CONFIG s) \<le> length (log_text s (log_path (G_LOG_CONFIG s))) then ''''
         else log_text s (log_path (G_LOG_CONFIG s))) @ w)
    \<and> get_size_in_byte (log_path (G_LOG_CONFIG s)) s' \<le> (max_byte (G_LOG_CONFIG s) - 1) + length w
    \<and> out s' = out s \<and> err s' = err s \<and> same_memory s s'"
proof -
  let ?p = "log_path (G_LOG_CONFIG s)" and ?w = "log_line os lvl file line msg (Suc (clock s))"
  let ?old = "if max_byte (G_LOG_CONFIG s) \<le> length (log_text s ?p) then '''' else log_text s ?p"
  obtain s' where s': "print_log os lvl file line msg s = Some (Done s')"
    "log_files s' = (log_files s)(?p \<mapsto> ?old @ ?w)" "out s' = out s" "err s' = err s" "same_memory s s'"
    using print_log_file [OF assms] by blast
  then have "get_size_in_byte ?p s' = length ?old + length ?w"
    by (simp add: get_size_in_byte_def)
  moreover have "length ?old \<le> max_byte (G_LOG_CONFIG s) - 1"
    by (cases "max_byte (G_LOG_CONFIG s) \<le> length (log_text s ?p)") auto
  ultimately show ?thesis
    using s' unfolding log_line_text by (intro exI [of _ s']) simp
qed

theorem log_file_bounded_witness:
  "\<exists>s'. print_log (quiet_os (\<lambda>_ _. None)) LOG_WARN ''a.c'' 1 ''m''
       (boot\<lparr>G_LOG_CONFIG := default_log_config\<lparr>output_to := LOS_FILE, max_byte := 4\<rparr>,
          log_files := [''/var/log/zsr.log'' \<mapsto> ''full'']\<rparr>) = Some (Done s')
    \<and> log_files s' = [''/var/log/zsr.log'' \<mapsto> ''['' @ os_today (quiet_os (\<lambda>_ _. None)) 1 @ ''] [''
         @ print_d (os_getpid (quiet_os (\<lambda>_ _. None))) @ ''] m'' @ [newline]]"
  using log_file_bounded [of "boot\<lparr>G_LOG_CONFIG := default_log_config\<lparr>output_to := LOS_FILE, max_byte := 4\<rparr>,
          log_files := [''/var/log/zsr.log'' \<mapsto> ''full'']\<rparr>" LOG_WARN "quiet_os (\<lambda>_ _. None)"
          "''a.c''" 1 "''m''"]
  by (fastforce simp: default_log_config_def boot_def less_eq_log_level_t_def quiet_os_def log_text_def)

end
