(* ===== verification/Records.thy ===== *)
theory Records
  imports Zsr_Log
begin

text \<open>
  Lists of records in memory. Most components keep a ring of structs: a list head
  somewhere, and the structs it links. \<open>holds K s head xs rs\<close> says that in state \<open>s\<close>
  the ring at \<open>head\<close> runs through the addresses \<open>xs\<close> and that these hold the records
  \<open>rs\<close>, of the kind of struct with constructor \<open>K\<close>; it is the abstraction that the
  components' operations are specified over. \<open>only F s s'\<close> is the frame: of the
  memory of \<open>s\<close> nothing outside \<open>F\<close> has changed in \<open>s'\<close>.
\<close>

subsection \<open>Frames\<close>

definition only :: "addr set \<Rightarrow> st \<Rightarrow> st \<Rightarrow> bool" where
  "only F s s' \<longleftrightarrow> brk s \<le> brk s'
     \<and> (\<forall>c < brk s. c \<notin> F \<longrightarrow> links s' c = links s c \<and> objs s' c = objs s c)"

lemma only_refl [simp]: "only F s s"
  by (simp add: only_def)

lemma only_mono: "only F s s' \<Longrightarrow> F \<subseteq> G \<Longrightarrow> only G s s'"
  by (auto simp: only_def)

lemma only_trans:
  "only F s s' \<Longrightarrow> only G s' s'' \<Longrightarrow> (\<And>c. c \<in> G \<Longrightarrow> c < brk s \<Longrightarrow> c \<in> F) \<Longrightarrow> only F s s''"
  unfolding only_def by (metis dual_order.strict_trans1 le_trans)

lemma only_memory: "same_memory s s' \<Longrightarrow> only F s s'"
  by (simp add: only_def same_memory_def)

lemma heap_ok_memory: "same_memory s s' \<Longrightarrow> heap_ok s' = heap_ok s"
  by (simp add: heap_ok_def same_memory_def)

text \<open>Operations on memory leave the rest of the state alone.\<close>

definition same_env :: "st \<Rightarrow> st \<Rightarrow> bool" where
  "same_env s s' \<longleftrightarrow> clock s' = clock s \<and> HZ s' = HZ s \<and> NUM_OF_CPU s' = NUM_OF_CPU s
     \<and> G_LOG_CONFIG s' = G_LOG_CONFIG s \<and> log_files s' = log_files s \<and> out s' = out s \<and> err s' = err s"

lemma same_env_refl [simp]: "same_env s s"
  by (simp add: same_env_def)

lemma same_env_trans: "same_env s s' \<Longrightarrow> same_env s' s'' \<Longrightarrow> same_env s s''"
  by (simp add: same_env_def)

lemma same_env_links [simp]: "same_env s (s\<lparr>links := h\<rparr>)" "same_env s (s\<lparr>objs := ob\<rparr>)"
  by (simp_all add: same_env_def)


subsection \<open>Rings of records\<close>

definition holds :: "('r \<Rightarrow> obj) \<Rightarrow> st \<Rightarrow> addr \<Rightarrow> addr list \<Rightarrow> 'r list \<Rightarrow> bool" where
  "holds K s head xs rs \<longleftrightarrow> ring (links s) head xs \<and> map (objs s) xs = map (\<lambda>r. Some (K r)) rs"

lemma holds_ring: "holds K s head xs rs \<Longrightarrow> ring (links s) head xs"
  by (simp add: holds_def)

lemma holds_length: "holds K s head xs rs \<Longrightarrow> length xs = length rs"
  unfolding holds_def by (metis length_map)

lemma holds_empty: "holds K s head [] rs \<longleftrightarrow> ring (links s) head [] \<and> rs = []"
  by (auto simp: holds_def)

lemma holds_Nil_iff: "holds K s head xs rs \<Longrightarrow> xs = [] \<longleftrightarrow> rs = []"
  by (auto dest: holds_length)

lemma holds_below:
  assumes "heap_ok s" "holds K s head xs rs" "c \<in> insert head (set xs)"
  shows "c < brk s"
  using ring_dom [OF holds_ring [OF assms(2)]] assms(1,3) unfolding heap_ok_def by blast

lemma chain_agree:
  "(\<And>a. a \<in> set zs \<Longrightarrow> h' a = h a) \<Longrightarrow> chain h' zs = chain h zs"
  by (rule successively_cong_set)
     (auto simp: link_def rd_next_def rd_prev_def dest!: in_set_butlastD list.set_sel(2) [rotated])

lemma ring_agree:
  "(\<And>a. a \<in> insert p (set xs) \<Longrightarrow> h' a = h a) \<Longrightarrow> ring h' p xs = ring h p xs"
  using chain_agree [of "p # xs @ [p]" h' h] by (auto simp: ring_def)

text \<open>A ring that an operation does not touch is still there afterwards.\<close>

lemma holds_frame:
  assumes "heap_ok s" "holds K s head xs rs" "only F s s'" "insert head (set xs) \<inter> F = {}"
  shows "holds K s' head xs rs"
proof -
  have "links s' c = links s c \<and> objs s' c = objs s c" if "c \<in> insert head (set xs)" for c
    using holds_below [OF assms(1,2) that] assms(3,4) that by (auto simp: only_def)
  then show ?thesis
    using assms(2) ring_agree [of head xs "links s'" "links s"] unfolding holds_def
    by (metis insertCI map_eq_conv)
qed

lemma holds_memory: "same_memory s s' \<Longrightarrow> holds K s' head xs rs = holds K s head xs rs"
  by (simp add: holds_def same_memory_def)

lemma tick_holds [simp]: "holds K (tick s) head xs rs = holds K s head xs rs" "heap_ok (tick s) = heap_ok s"
  using holds_memory heap_ok_memory same_memory_tick by blast+

lemma ring_rotate: "ring h p (x # ys) \<Longrightarrow> ring h x (ys @ [p])"
  using successively_append_iff [of "link h" "x # ys @ [p]" "[x]"] by (auto simp: ring_def)

text \<open>
  Taking the head itself out of its ring, as five modules do before a new query,
  empties the list at the head; the entries stay behind as a ring of their own that
  nothing points to any more.
\<close>

lemma list_del_init_head:
  assumes "ring h p (x # ys)"
  shows "\<exists>h'. list_del_init p h = Some h' \<and> ring h' p [] \<and> ring h' x ys
    \<and> same_except (insert p (set (x # ys))) h h'"
proof -
  have "ring h x (ys @ p # [])"
    using ring_rotate [OF assms] by simp
  from list_del_init_ring [OF this] obtain h' where h':
    "list_del_init p h = Some h'" "ring h' x ys" "ring h' p []" "same_except {p, last (x # ys), x} h h'"
    by auto
  moreover have "{p, last (x # ys), x} \<subseteq> insert p (set (x # ys))"
    using last_Cons_mem [of x ys] by auto
  ultimately show ?thesis
    by (metis same_except_mono)
qed

lemma on_links_ring:
  assumes "f (links s) = Some h" "same_except F (links s) h" "heap_ok s"
  shows "on_links f s = Some (s\<lparr>links := h\<rparr>)" "heap_ok (s\<lparr>links := h\<rparr>)"
    "F \<subseteq> G \<Longrightarrow> only G s (s\<lparr>links := h\<rparr>)"
  using assms same_exceptD(2) [OF assms(2)]
  by (auto simp: on_links_def only_def same_except_def intro: on_links_heap_ok)


subsection \<open>A new record at the end\<close>

text \<open>
  What the sources do for every record of a list: \<open>malloc\<close> a node (with \<open>memset\<close>, it
  is \<open>cleared\<close>), fill it, and \<open>list_add_tail\<close> it.
\<close>

definition add_new :: "obj \<Rightarrow> obj \<Rightarrow> addr \<Rightarrow> st \<Rightarrow> st option" where
  "add_new cleared ob head s =
     (let (node, s) = malloc cleared s in do {
        s \<leftarrow> set_obj node ob s;
        on_links (list_add_tail node head) s
      })"

text \<open>The loops that build a list amount to a row of such steps.\<close>

fun add_all :: "obj \<Rightarrow> obj list \<Rightarrow> addr \<Rightarrow> st \<Rightarrow> st option" where
  "add_all cleared [] head s = Some s"
| "add_all cleared (ob # obs) head s = do {
     s \<leftarrow> add_new cleared ob head s;
     add_all cleared obs head s
   }"

subsection \<open>FREE_LIST_HEAD\<close>

definition free_body :: "addr \<Rightarrow> st \<Rightarrow> (st, st) ctl option" where
  "free_body entry s = (if entry \<noteq> NULL then map_option Next (free entry s) else Some (Next s))"

definition ctl_state :: "('s, 's) ctl \<Rightarrow> 's" where
  "ctl_state c = (case c of Next s \<Rightarrow> s | Leave s \<Rightarrow> s)"

definition FREE_LIST_HEAD :: "addr \<Rightarrow> st \<Rightarrow> st option" where
  "FREE_LIST_HEAD head s = map_option ctl_state (list_for_each_entry_safe free_body links head s)"


subsection \<open>Kinds of records\<close>

text \<open>
  The interface between the list code and a kind of struct: the constructor \<open>K\<close> can be
  undone, and the struct has one list cell, its first member. What the list operations
  do is proved once, here, for every kind.
\<close>

definition obj_at :: "(obj \<Rightarrow> 'r option) \<Rightarrow> addr \<Rightarrow> st \<Rightarrow> 'r option" where
  "obj_at un a s = Option.bind (objs s a) un"

locale record_kind =
  fixes K :: "'r \<Rightarrow> obj" and un :: "obj \<Rightarrow> 'r option" and sz :: nat
  assumes un_K: "un (K r) = Some r"
    and cells_K: "obj_cells (K r) = [0]"
    and size_K: "obj_size (K r) = sz"
begin

lemma fresh_K: "fresh_cells a (K r) = {a}"
  by (simp add: fresh_cells_def cells_K)

lemma obj_at_nth:
  assumes "holds K s head xs rs" "i < length xs"
  shows "obj_at un (xs ! i) s = Some (rs ! i)"
proof -
  have "map (objs s) xs ! i = map (\<lambda>r. Some (K r)) rs ! i"
    using assms(1) by (simp add: holds_def)
  then show ?thesis
    using assms holds_length [OF assms(1)] by (simp add: obj_at_def un_K)
qed

lemma obj_at_last:
  assumes "holds K s head xs rs" "rs \<noteq> []"
  shows "obj_at un (last xs) s = Some (last rs)"
proof -
  have "xs \<noteq> []" "length xs = length rs"
    using holds_length [OF assms(1)] assms(2) by auto
  then show ?thesis
    using obj_at_nth [OF assms(1), of "length xs - 1"] assms(2) by (simp add: last_conv_nth)
qed

lemma holds_nonnull:
  assumes "holds K s head xs rs" "a \<in> set xs"
  shows "\<exists>r. objs s a = Some (K r)"
proof -
  have "objs s a \<in> set (map (\<lambda>r. Some (K r)) rs)"
    using assms unfolding holds_def by (metis imageI list.set_map)
  then show ?thesis by auto
qed

lemma add_new_holds:
  assumes ok: "heap_ok s" and h: "holds K s head xs rs"
  shows "\<exists>s'. add_new (K z) (K r) head s = Some s' \<and> holds K s' head (xs @ [brk s]) (rs @ [r])
    \<and> heap_ok s' \<and> only (insert head (set xs)) s s' \<and> same_env s s'"
proof -
  obtain a s1 where m: "malloc (K z) s = (a, s1)"
    by (cases "malloc (K z) s")
  note mf = malloc_facts [OF m]
  note fr = malloc_fresh [OF ok m]
  let ?s2 = "s1\<lparr>objs := (objs s1)(a \<mapsto> K r)\<rparr>"
  have ok2: "heap_ok ?s2"
    using malloc_heap_ok [OF ok m] by (auto simp: heap_ok_def size_K mf)
  have so: "set_obj a (K r) s1 = Some ?s2"
    by (simp add: set_obj_def mf(2))
  have below: "c < a" if "c \<in> insert head (set xs)" for c
    using holds_below [OF ok h that] mf(1) by simp
  then have ne: "a \<notin> insert head (set xs)" by blast
  have old: "links s1 c = links s c" if "c \<in> insert head (set xs)" for c
    using that ne mf(5) [of c] by (auto simp: fresh_K)
  then have ring1: "ring (links s1) head xs"
    using holds_ring [OF h] ring_agree [of head xs "links s1" "links s"] by blast
  have "a \<in> dom (links s1)"
    by (simp add: mf(4))
  from list_add_tail_ring [OF ring1 this ne] obtain h2 where h2:
    "list_add_tail a head (links s1) = Some h2" "ring h2 head (xs @ [a])"
    "same_except {a, last (head # xs), head} (links s1) h2"
    by blast
  let ?s' = "?s2\<lparr>links := h2\<rparr>"
  have run: "on_links (list_add_tail a head) ?s2 = Some ?s'" "heap_ok ?s'"
    using on_links_ring(1,2) [of "list_add_tail a head" ?s2 h2] h2 ok2 by simp_all
  have "map (objs ?s') (xs @ [a]) = map (\<lambda>r. Some (K r)) (rs @ [r])"
    using h ne by (auto simp: holds_def mf(2))
  then have "holds K ?s' head (xs @ [a]) (rs @ [r])"
    using h2(2) by (simp add: holds_def)
  moreover have "only (insert head (set xs)) s ?s'"
  proof -
    have "h2 c = links s c" if "c < brk s" "c \<notin> insert head (set xs)" for c
    proof -
      have "c \<notin> {a, last (head # xs), head}"
        using that last_Cons_mem [of head xs] mf(1) by auto
      then have "h2 c = links s1 c"
        by (rule same_exceptD(1) [OF h2(3)])
      then show ?thesis
        using that mf(1) mf(5) [of c] by (simp add: fresh_K)
    qed
    then show ?thesis
      by (auto simp: only_def mf(1-3))
  qed
  moreover have "same_env s ?s'"
    by (simp add: same_env_def mf)
  moreover have "add_new (K z) (K r) head s = Some ?s'"
    using m so run(1) by (simp add: add_new_def)
  ultimately show ?thesis
    using run(2) by (auto simp: mf(1))
qed

lemma add_all_holds:
  assumes "heap_ok s" "holds K s head xs rs"
  shows "\<exists>s' ys. add_all (K z) (map K rs') head s = Some s' \<and> holds K s' head (xs @ ys) (rs @ rs')
    \<and> (\<forall>y\<in>set ys. brk s \<le> y) \<and> heap_ok s' \<and> only (insert head (set xs)) s s' \<and> same_env s s'"
  using assms
proof (induction rs' arbitrary: s xs rs)
  case Nil
  then show ?case by (auto intro!: exI [of _ "[]"])
next
  case (Cons r rs')
  from add_new_holds [OF Cons.prems] obtain s1 where s1:
    "add_new (K z) (K r) head s = Some s1" "holds K s1 head (xs @ [brk s]) (rs @ [r])" "heap_ok s1"
    "only (insert head (set xs)) s s1" "same_env s s1"
    by blast
  from Cons.IH [OF s1(3,2)] obtain s2 ys where s2:
    "add_all (K z) (map K rs') head s1 = Some s2" "holds K s2 head ((xs @ [brk s]) @ ys) ((rs @ [r]) @ rs')"
    "\<forall>y\<in>set ys. brk s1 \<le> y" "heap_ok s2" "only (insert head (set (xs @ [brk s]))) s1 s2" "same_env s1 s2"
    by blast
  have "only (insert head (set xs)) s s2"
    by (rule only_trans [OF s1(4) s2(5)]) auto
  moreover have "\<forall>y\<in>set (brk s # ys). brk s \<le> y"
    using s2(3) s1(4) by (auto simp: only_def dest: le_trans)
  ultimately show ?case
    using s1 s2 same_env_trans [OF s1(5) s2(6)]
    by (intro exI [of _ s2] exI [of _ "brk s # ys"]) simp
qed

lemma set_last_holds:
  assumes ok: "heap_ok s" and h: "holds K s head xs rs" and ne: "rs \<noteq> []"
  shows "\<exists>s'. set_obj (last xs) (K r) s = Some s' \<and> holds K s' head xs (butlast rs @ [r])
    \<and> heap_ok s' \<and> only (set xs) s s' \<and> same_env s s'"
proof -
  have len: "length xs = length rs" "xs \<noteq> []"
    using holds_length [OF h] ne by auto
  then obtain ob where ob: "objs s (last xs) = Some (K ob)"
    using holds_nonnull [OF h, of "last xs"] by auto
  let ?s' = "s\<lparr>objs := (objs s)(last xs \<mapsto> K r)\<rparr>"
  have split: "xs = butlast xs @ [last xs]" and dist: "last xs \<notin> set (butlast xs)"
    using len ring_distinct [OF holds_ring [OF h]] distinct_last_butlast [of "hd xs" "tl xs"] by simp_all
  have "map (objs s) (butlast xs) = map (\<lambda>r. Some (K r)) (butlast rs)"
    using h unfolding holds_def by (metis map_butlast)
  moreover have "map (objs ?s') (butlast xs) = map (objs s) (butlast xs)"
    using dist by simp
  ultimately have "map (objs ?s') (butlast xs @ [last xs]) = map (\<lambda>r. Some (K r)) (butlast rs @ [r])"
    by simp
  then have "holds K ?s' head xs (butlast rs @ [r])"
    using h len unfolding holds_def by simp
  moreover have "set_obj (last xs) (K r) s = Some ?s'"
    using ob by (simp add: set_obj_def)
  moreover have "heap_ok ?s'"
  proof -
    have "last xs + obj_size (K ob) \<le> brk s"
      using ok ob unfolding heap_ok_def by blast
    then show ?thesis
      using ok by (auto simp: heap_ok_def size_K)
  qed
  moreover have "only (set xs) s ?s'"
    using len by (auto simp: only_def)
  ultimately show ?thesis by auto
qed

text \<open>\<open>FREE_LIST_HEAD\<close> frees every entry; the head is left pointing at the first one.\<close>

lemma FREE_LIST_HEAD_frees:
  assumes ok: "heap_ok s" and h: "holds K s head xs rs" and nn: "NULL \<notin> set xs"
  shows "\<exists>s'. FREE_LIST_HEAD head s = Some s' \<and> set xs \<inter> dom (objs s') = {}
    \<and> set xs \<inter> dom (links s') = {} \<and> heap_ok s' \<and> only (set xs) s s' \<and> same_env s s'"
proof -
  define keep where "keep = (\<lambda>ys t. distinct ys \<and> set ys \<subseteq> set xs \<and> head \<notin> set ys \<and> chain (links t) (ys @ [head])
      \<and> head \<in> dom (links t) \<and> (\<forall>y\<in>set ys. \<exists>r. objs t y = Some (K r))
      \<and> (\<forall>y\<in>set xs - set ys. objs t y = None \<and> links t y = None)
      \<and> heap_ok t \<and> only (set xs) s t \<and> same_env s t)"
  have head: "head \<notin> set xs" "distinct xs" "chain (links s) (xs @ [head])" "head \<in> dom (links s)"
    using ring_distinct [OF holds_ring [OF h]] ring_dom [OF holds_ring [OF h]] holds_ring [OF h]
    by (auto simp: ring_def successively_Cons)
  have step: "\<exists>t'. free_body y t = Some (Next t') \<and> keep ys t'" if k: "keep (y # ys) t" for y ys t
  proof -
    from k obtain r where r: "objs t y = Some (K r)"
      unfolding keep_def by auto
    let ?t' = "t\<lparr>links := (links t)(y := None), objs := (objs t)(y := None)\<rparr>"
    have "(\<lambda>c. if c \<in> fresh_cells y (K r) then None else links t c) = (links t)(y := None)"
      by (auto simp: fresh_K)
    then have f: "free y t = Some ?t'"
      using r by (simp add: free_def)
    have "y \<noteq> head" "y \<in> set xs" "y \<notin> set ys" "chain (links t) (ys @ [head])"
      using k unfolding keep_def by (auto simp: successively_Cons)
    moreover from this have "chain ((links t)(y := None)) (ys @ [head])"
      by (subst chain_agree [of _ _ "links t"]) auto
    moreover have "only (set xs) s ?t'"
      using k \<open>y \<in> set xs\<close> unfolding keep_def only_def by auto
    ultimately have "keep ys ?t'"
      using k free_heap_ok [OF _ f] unfolding keep_def by (auto simp: same_env_def)
    then show ?thesis
      using f nn \<open>y \<in> set xs\<close> by (auto simp: free_body_def)
  qed
  have k0: "keep xs s"
    using head ok h holds_nonnull [OF h] by (auto simp: keep_def)
  obtain s' where s': "list_for_each_entry_safe free_body links head s = Some (Next s')" "keep [] s'"
    using list_for_each_entry_safe_steps [of keep xs s links head free_body, OF k0 holds_ring [OF h] _ step]
    by (auto simp: keep_def)
  then have "FREE_LIST_HEAD head s = Some s'"
    by (simp add: FREE_LIST_HEAD_def ctl_state_def)
  then show ?thesis
    using s'(2) unfolding keep_def by (intro exI [of _ s']) auto
qed

end

subsection \<open>The kinds of the program\<close>

text \<open>A pointer is used at the type of the struct it points to, or not at all.\<close>

definition as_cpu :: "obj \<Rightarrow> cpu_t option" where
  "as_cpu ob = (case ob of O_cpu r \<Rightarrow> Some r | _ \<Rightarrow> None)"

definition as_dns :: "obj \<Rightarrow> dns_t option" where
  "as_dns ob = (case ob of O_dns r \<Rightarrow> Some r | _ \<Rightarrow> None)"

definition as_time :: "obj \<Rightarrow> sys_time_t option" where
  "as_time ob = (case ob of O_time r \<Rightarrow> Some r | _ \<Rightarrow> None)"

definition as_gateway :: "obj \<Rightarrow> gateway_t option" where
  "as_gateway ob = (case ob of O_gateway r \<Rightarrow> Some r | _ \<Rightarrow> None)"

definition as_io :: "obj \<Rightarrow> io_t option" where
  "as_io ob = (case ob of O_io r \<Rightarrow> Some r | _ \<Rightarrow> None)"

definition as_interface :: "obj \<Rightarrow> interface_t option" where
  "as_interface ob = (case ob of O_interface r \<Rightarrow> Some r | _ \<Rightarrow> None)"

definition as_link :: "obj \<Rightarrow> rtnl_link_t option" where
  "as_link ob = (case ob of O_link r \<Rightarrow> Some r | _ \<Rightarrow> None)"

definition as_login :: "obj \<Rightarrow> login_user_t option" where
  "as_login ob = (case ob of O_login r \<Rightarrow> Some r | _ \<Rightarrow> None)"

definition as_load :: "obj \<Rightarrow> load_stat_t option" where
  "as_load ob = (case ob of O_load r \<Rightarrow> Some r | _ \<Rightarrow> None)"

definition as_mem :: "obj \<Rightarrow> mem_stat_t option" where
  "as_mem ob = (case ob of O_mem r \<Rightarrow> Some r | _ \<Rightarrow> None)"

definition as_fs :: "obj \<Rightarrow> fs_stat_t option" where
  "as_fs ob = (case ob of O_fs r \<Rightarrow> Some r | _ \<Rightarrow> None)"

definition as_proc :: "obj \<Rightarrow> proc_t option" where
  "as_proc ob = (case ob of O_proc r \<Rightarrow> Some r | _ \<Rightarrow> None)"

definition as_swap :: "obj \<Rightarrow> swap_stat_t option" where
  "as_swap ob = (case ob of O_swap r \<Rightarrow> Some r | _ \<Rightarrow> None)"

definition as_uptime :: "obj \<Rightarrow> uptime_t option" where
  "as_uptime ob = (case ob of O_uptime r \<Rightarrow> Some r | _ \<Rightarrow> None)"

definition as_module :: "obj \<Rightarrow> module_t option" where
  "as_module ob = (case ob of O_module r \<Rightarrow> Some r | _ \<Rightarrow> None)"

interpretation k_cpu: record_kind O_cpu as_cpu 120
  by unfold_locales (simp_all add: as_cpu_def obj_cells_def)

interpretation k_dns: record_kind O_dns as_dns 80
  by unfold_locales (simp_all add: as_dns_def obj_cells_def)

interpretation k_time: record_kind O_time as_time 24
  by unfold_locales (simp_all add: as_time_def obj_cells_def)

interpretation k_gateway: record_kind O_gateway as_gateway 80
  by unfold_locales (simp_all add: as_gateway_def obj_cells_def)

interpretation k_io: record_kind O_io as_io 304
  by unfold_locales (simp_all add: as_io_def obj_cells_def)

interpretation k_interface: record_kind O_interface as_interface 216
  by unfold_locales (simp_all add: as_interface_def obj_cells_def)

interpretation k_link: record_kind O_link as_link 112
  by unfold_locales (simp_all add: as_link_def obj_cells_def)

interpretation k_login: record_kind O_login as_login 344
  by unfold_locales (simp_all add: as_login_def obj_cells_def)

interpretation k_load: record_kind O_load as_load 32
  by unfold_locales (simp_all add: as_load_def obj_cells_def)

interpretation k_mem: record_kind O_mem as_mem 40
  by unfold_locales (simp_all add: as_mem_def obj_cells_def)

interpretation k_fs: record_kind O_fs as_fs 2160
  by unfold_locales (simp_all add: as_fs_def obj_cells_def)

interpretation k_proc: record_kind O_proc as_proc 1632
  by unfold_locales (simp_all add: as_proc_def obj_cells_def)

interpretation k_swap: record_kind O_swap as_swap 40
  by unfold_locales (simp_all add: as_swap_def obj_cells_def)

interpretation k_uptime: record_kind O_uptime as_uptime 64
  by unfold_locales (simp_all add: as_uptime_def obj_cells_def)

text \<open>The memory after \<open>INIT_LIST_HEAD\<close> of one static head, to run examples in.\<close>

definition boot_list :: st where
  "boot_list = boot\<lparr>links := [MOD_LIST_HEAD \<mapsto> \<lparr>lh_next = MOD_LIST_HEAD, lh_prev = MOD_LIST_HEAD\<rparr>]\<rparr>"

lemma boot_list_holds [simp]:
  "heap_ok boot_list" "holds K boot_list MOD_LIST_HEAD [] []" "clock boot_list = 0"
  by (simp_all add: boot_list_def boot_def heap_ok_def holds_def ring_Nil link_def rd_next_def
      rd_prev_def MOD_LIST_HEAD_def)

end
