(* ===== verification/Framework.thy ===== *)
theory Framework
  imports Records
begin

text \<open>
  \<open>zsr/framework.c\<close>: the ring of modules at \<open>MOD_LIST_HEAD\<close>. A module is an object of
  its own with two list cells, its place in the ring and the head of its records.
\<close>

subsection \<open>Modules\<close>

definition zero_module :: "mod_file \<Rightarrow> module_t" where
  "zero_module f = \<lparr>mod_name = chars0 LEN_32, opt_line = chars0 LEN_32, mod_usage = chars0 LEN_256,
     enable = 0, mod_record = '''', num_col = 0, info = [],
     fn_collect_record = f, fn_record_to_str = f, fn_free_record_list = f\<rparr>"

text \<open>The address of \<open>mod->record_list\<close>.\<close>

definition record_list :: "addr \<Rightarrow> addr" where
  "record_list m = m + record_list_offset"

text \<open>
  \<open>sprintf(mod->name, "%s", name)\<close> and its like copy into arrays of fixed size. The three
  functions are those of the file that registers.
\<close>

definition register_mod_fileds ::
    "string \<Rightarrow> string list \<Rightarrow> string \<Rightarrow> string \<Rightarrow> int \<Rightarrow> mod_file \<Rightarrow> st \<Rightarrow> st option" where
  "register_mod_fileds name cols opt usage n f s =
     (let cleared = zero_module f; (md, s) = malloc (O_module cleared) s in do {
        a \<leftarrow> strcpy (mod_name cleared) name;
        b \<leftarrow> strcpy (opt_line cleared) opt;
        c \<leftarrow> strcpy (mod_usage cleared) usage;
        s \<leftarrow> set_obj md (O_module (cleared\<lparr>mod_name := a, opt_line := b, mod_usage := c, enable := 0,
               info := cols, num_col := n\<rparr>)) s;
        s \<leftarrow> on_links (INIT_LIST_HEAD (record_list md)) s;
        on_links (list_add_tail md MOD_LIST_HEAD) s
      })"

definition INIT_MOD_LIST_HEAD :: "st \<Rightarrow> st option" where
  "INIT_MOD_LIST_HEAD s = on_links (INIT_LIST_HEAD MOD_LIST_HEAD) s"

definition free_mod_body :: "addr \<Rightarrow> st \<Rightarrow> (st, st) ctl option" where
  "free_mod_body entry s = do {
     s \<leftarrow> on_links (list_del entry) s;
     s \<leftarrow> free entry s;
     Some (Next s)
   }"

definition FREE_MOD_LIST_HEAD :: "st \<Rightarrow> st option" where
  "FREE_MOD_LIST_HEAD s = map_option ctl_state (list_for_each_entry_safe free_mod_body links MOD_LIST_HEAD s)"


subsection \<open>The fourteen registrations\<close>

text \<open>The static variables \<open>name\<close>, \<open>opt\<close>, \<open>usage\<close> and \<open>info\<close> of a module's file.\<close>

record mod_statics =
  ms_name :: string
  ms_opt :: string
  ms_usage :: string
  ms_info :: "string list"

abbreviation usage_indent :: string where
  "usage_indent \<equiv> ''                 ''"

definition mod_cpu_statics :: mod_statics where
  "mod_cpu_statics = \<lparr>ms_name = ''cpu'', ms_opt = ''--cpu'',
     ms_usage = ''    --cpu        CPU share'' @ [newline] @ usage_indent @ ''(idle, util, wa)'' @ [newline],
     ms_info = [''idle'', ''util'', ''wa'']\<rparr>"

definition mod_dns_statics :: mod_statics where
  "mod_dns_statics = \<lparr>ms_name = ''dns'', ms_opt = ''--dns'',
     ms_usage = ''    --dns        Domain Name System'' @ [newline] @ usage_indent @ ''(dns)'' @ [newline],
     ms_info = [''dns'']\<rparr>"

definition mod_fs_statics :: mod_statics where
  "mod_fs_statics = \<lparr>ms_name = ''fs'', ms_opt = ''--fs'',
     ms_usage = ''    --fs         Report file system disk space usage'' @ [newline]
     @ usage_indent @ ''(mnt_fsname, mnt_dir, mnt_type, total, used, '' @ [newline]
     @ usage_indent @ ''available, util, inodes, iused, ifree, iutil)'' @ [newline],
     ms_info = [''mnt_fsname'', ''mnt_dir'', ''mnt_type'', ''total'', ''used'', ''available'', ''util'',
     ''inodes'', ''iused'', ''ifree'', ''iutil'']\<rparr>"

definition mod_gateway_statics :: mod_statics where
  "mod_gateway_statics = \<lparr>ms_name = ''gateway'', ms_opt = ''--gateway'',
     ms_usage = ''    --gateway    Gateway'' @ [newline] @ usage_indent @ ''(gateway)'' @ [newline],
     ms_info = [''gateway'']\<rparr>"

definition mod_io_statics :: mod_statics where
  "mod_io_statics = \<lparr>ms_name = ''io'', ms_opt = ''--io'',
     ms_usage = ''    --io         Report input/output statistics for devices and partitions'' @ [newline]
     @ usage_indent @ ''(dev, tps, util, rrqm/s, wrqm/s, r/s, w/s, rMB/s, wMB/s,'' @ [newline]
     @ usage_indent @ ''avgrq-sz, avgqu-sz, await, r_await, w_await)'' @ [newline],
     ms_info = [''dev'', ''tps'', ''util'', ''rrqm/s'', ''wrqm/s'', ''r/s'', ''w/s'', ''rMB/s'', ''wMB/s'',
     ''await'', ''avgqu-sz'', ''avgqu-sz'', ''r_await'', ''w_await'']\<rparr>"

definition mod_ip_statics :: mod_statics where
  "mod_ip_statics = \<lparr>ms_name = ''ip'', ms_opt = ''--ip'',
     ms_usage = ''    --ip         IP address'' @ [newline] @ usage_indent @ ''(dev, ip, netmask, ip_version)'' @ [newline],
     ms_info = [''dev'', ''ip'', ''netmask'', ''ip_version'']\<rparr>"

definition mod_load_avg_statics :: mod_statics where
  "mod_load_avg_statics = \<lparr>ms_name = ''load_avg'', ms_opt = ''--load_avg'',
     ms_usage = ''    --load_avg   Load average'' @ [newline] @ usage_indent @ ''(one_min, five_min, fifteen_min)'' @ [newline],
     ms_info = [''one_min'', ''five_min'', ''fifteen_min'']\<rparr>"

definition mod_mem_statics :: mod_statics where
  "mod_mem_statics = \<lparr>ms_name = ''mem'', ms_opt = ''--mem'',
     ms_usage = ''    --mem        Display amount of free and used memory'' @ [newline] @ usage_indent @ ''(total, used, free)'' @ [newline],
     ms_info = [''total'', ''used'', ''free'']\<rparr>"

definition mod_network_statics :: mod_statics where
  "mod_network_statics = \<lparr>ms_name = ''network'', ms_opt = ''--network'',
     ms_usage = ''    --network    Display bandwidth usage'' @ [newline]
     @ usage_indent @ ''(dev, tx_packet, rx_packet, tx_byte, rx_byte)'' @ [newline],
     ms_info = [''dev'', ''tx_packet'', ''rx_packet'', ''tx_byte'', ''rx_byte'']\<rparr>"

definition mod_proc_statics :: mod_statics where
  "mod_proc_statics = \<lparr>ms_name = ''proc'', ms_opt = ''--proc'',
     ms_usage = ''    --proc       Display processes'' @ [newline]
     @ usage_indent @ ''(pid, state, ppid, user, virt_mem_kb, res_mem_kb,'' @ [newline]
     @ usage_indent @ ''mem_util, start_time, cpu_util, cmd, cmd_path)'' @ [newline],
     ms_info = [''pid'', ''state'', ''ppid'', ''user'', ''virt_mem_kb'', ''res_mem_kb'', ''mem_util'',
     ''start_time'', ''cpu_util'', ''cmd'', ''cmd_path'']\<rparr>"

definition mod_swap_statics :: mod_statics where
  "mod_swap_statics = \<lparr>ms_name = ''swap'', ms_opt = ''--swap'',
     ms_usage = ''    --swap       Display amount of free and used swap'' @ [newline] @ usage_indent @ ''(total, used, free)'' @ [newline],
     ms_info = [''total'', ''used'', ''free'']\<rparr>"

definition mod_time_statics :: mod_statics where
  "mod_time_statics = \<lparr>ms_name = ''time'', ms_opt = ''--time'',
     ms_usage = ''    --time       System time(seconds since 1970-01-01 00:00:00 UTC)'' @ [newline] @ usage_indent @ ''(time)'' @ [newline],
     ms_info = [''time'']\<rparr>"

definition mod_uptime_statics :: mod_statics where
  "mod_uptime_statics = \<lparr>ms_name = ''uptime'', ms_opt = ''--uptime'',
     ms_usage = ''    --uptime     Tell how long the system has been running'' @ [newline]
     @ usage_indent @ ''(total_sec, year, month, day, hour, minute)'' @ [newline],
     ms_info = [''total_sec'', ''year'', ''month'', ''day'', ''hour'', ''minute'']\<rparr>"

definition mod_who_statics :: mod_statics where
  "mod_who_statics = \<lparr>ms_name = ''who'', ms_opt = ''--who'',
     ms_usage = ''    --who        Show who is logged in'' @ [newline] @ usage_indent @ ''(username, tty, from, login_time)'' @ [newline],
     ms_info = [''username'', ''tty'', ''from'', ''login_time'']\<rparr>"

fun statics_of :: "mod_file \<Rightarrow> mod_statics" where
  "statics_of M_cpu = mod_cpu_statics"
| "statics_of M_dns = mod_dns_statics"
| "statics_of M_fs = mod_fs_statics"
| "statics_of M_gateway = mod_gateway_statics"
| "statics_of M_io = mod_io_statics"
| "statics_of M_ip = mod_ip_statics"
| "statics_of M_load_avg = mod_load_avg_statics"
| "statics_of M_mem = mod_mem_statics"
| "statics_of M_network = mod_network_statics"
| "statics_of M_proc = mod_proc_statics"
| "statics_of M_swap = mod_swap_statics"
| "statics_of M_time = mod_time_statics"
| "statics_of M_uptime = mod_uptime_statics"
| "statics_of M_who = mod_who_statics"

lemmas statics_defs = mod_cpu_statics_def mod_dns_statics_def mod_fs_statics_def mod_gateway_statics_def
  mod_io_statics_def mod_ip_statics_def mod_load_avg_statics_def mod_mem_statics_def
  mod_network_statics_def mod_proc_statics_def mod_swap_statics_def mod_time_statics_def
  mod_uptime_statics_def mod_who_statics_def

abbreviation mod_name_of :: "mod_file \<Rightarrow> string" where
  "mod_name_of f \<equiv> ms_name (statics_of f)"

abbreviation mod_opt_of :: "mod_file \<Rightarrow> string" where
  "mod_opt_of f \<equiv> ms_opt (statics_of f)"

abbreviation mod_usage_of :: "mod_file \<Rightarrow> string" where
  "mod_usage_of f \<equiv> ms_usage (statics_of f)"

abbreviation mod_info_of :: "mod_file \<Rightarrow> string list" where
  "mod_info_of f \<equiv> ms_info (statics_of f)"

definition mod_register :: "mod_statics \<Rightarrow> mod_file \<Rightarrow> st \<Rightarrow> st option" where
  "mod_register v f s = register_mod_fileds (ms_name v) (ms_info v) (ms_opt v) (ms_usage v)
     (int (length (ms_info v))) f s"

definition mod_cpu_register :: "st \<Rightarrow> st option" where
  "mod_cpu_register s = mod_register mod_cpu_statics M_cpu s"

definition mod_dns_register :: "st \<Rightarrow> st option" where
  "mod_dns_register s = mod_register mod_dns_statics M_dns s"

definition mod_fs_register :: "st \<Rightarrow> st option" where
  "mod_fs_register s = mod_register mod_fs_statics M_fs s"

definition mod_gateway_register :: "st \<Rightarrow> st option" where
  "mod_gateway_register s = mod_register mod_gateway_statics M_gateway s"

definition mod_io_register :: "st \<Rightarrow> st option" where
  "mod_io_register s = mod_register mod_io_statics M_io s"

definition mod_ip_register :: "st \<Rightarrow> st option" where
  "mod_ip_register s = mod_register mod_ip_statics M_ip s"

definition mod_load_avg_register :: "st \<Rightarrow> st option" where
  "mod_load_avg_register s = mod_register mod_load_avg_statics M_load_avg s"

definition mod_mem_register :: "st \<Rightarrow> st option" where
  "mod_mem_register s = mod_register mod_mem_statics M_mem s"

definition mod_network_register :: "st \<Rightarrow> st option" where
  "mod_network_register s = mod_register mod_network_statics M_network s"

definition mod_proc_register :: "st \<Rightarrow> st option" where
  "mod_proc_register s = mod_register mod_proc_statics M_proc s"

definition mod_swap_register :: "st \<Rightarrow> st option" where
  "mod_swap_register s = mod_register mod_swap_statics M_swap s"

definition mod_time_register :: "st \<Rightarrow> st option" where
  "mod_time_register s = mod_register mod_time_statics M_time s"

definition mod_uptime_register :: "st \<Rightarrow> st option" where
  "mod_uptime_register s = mod_register mod_uptime_statics M_uptime s"

definition mod_who_register :: "st \<Rightarrow> st option" where
  "mod_who_register s = mod_register mod_who_statics M_who s"

definition load_modules :: "st \<Rightarrow> st option" where
  "load_modules s = do {
     s \<leftarrow> mod_cpu_register s;
     s \<leftarrow> mod_dns_register s;
     s \<leftarrow> mod_fs_register s;
     s \<leftarrow> mod_gateway_register s;
     s \<leftarrow> mod_io_register s;
     s \<leftarrow> mod_ip_register s;
     s \<leftarrow> mod_load_avg_register s;
     s \<leftarrow> mod_mem_register s;
     s \<leftarrow> mod_network_register s;
     s \<leftarrow> mod_proc_register s;
     s \<leftarrow> mod_swap_register s;
     s \<leftarrow> mod_time_register s;
     s \<leftarrow> mod_uptime_register s;
     mod_who_register s
   }"

lemmas register_defs = mod_cpu_register_def mod_dns_register_def mod_fs_register_def mod_gateway_register_def
  mod_io_register_def mod_ip_register_def mod_load_avg_register_def mod_mem_register_def
  mod_network_register_def mod_proc_register_def mod_swap_register_def mod_time_register_def
  mod_uptime_register_def mod_who_register_def

subsection \<open>The ring of modules\<close>

text \<open>
  The modules of a state: they hang in the ring in the order they registered, at rising
  addresses whose objects do not overlap; before the first round their own lists are empty.
\<close>

definition module_ring :: "st \<Rightarrow> addr list \<Rightarrow> module_t list \<Rightarrow> bool" where
  "module_ring s xs ms \<longleftrightarrow> holds O_module s MOD_LIST_HEAD xs ms
     \<and> sorted_wrt (\<lambda>x y. x + 1048976 \<le> y) xs \<and> (\<forall>x\<in>set xs. MOD_LIST_HEAD < x)"

definition modules :: "st \<Rightarrow> addr list \<Rightarrow> module_t list \<Rightarrow> bool" where
  "modules s xs ms \<longleftrightarrow> module_ring s xs ms \<and> (\<forall>x\<in>set xs. ring (links s) (record_list x) [])"

lemma modules_unfold:
  "modules s xs ms \<longleftrightarrow> holds O_module s MOD_LIST_HEAD xs ms
     \<and> sorted_wrt (\<lambda>x y. x + 1048976 \<le> y) xs
     \<and> (\<forall>x\<in>set xs. MOD_LIST_HEAD < x \<and> ring (links s) (record_list x) [])"
  by (auto simp: modules_def module_ring_def)

lemma modules_module_ring: "modules s xs ms \<Longrightarrow> module_ring s xs ms"
  by (simp add: modules_def)

lemma spaced_between:
  assumes "sorted_wrt (\<lambda>x y. x + 1048976 \<le> (y :: nat)) zs" "x \<in> set zs" "y \<in> set zs"
  shows "record_list x \<noteq> y" "record_list x = record_list y \<longleftrightarrow> x = y"
proof -
  obtain i j where i: "i < length zs" "zs ! i = x" and j: "j < length zs" "zs ! j = y"
    using assms(2,3) by (auto simp: in_set_conv_nth)
  have "x = y \<or> x + 1048976 \<le> y \<or> y + 1048976 \<le> x"
    using i j assms(1) unfolding sorted_wrt_iff_nth_less by (metis nat_neq_iff)
  then show "record_list x \<noteq> y" by (auto simp: record_list_def record_list_offset_def)
  show "record_list x = record_list y \<longleftrightarrow> x = y" by (simp add: record_list_def)
qed

lemma above_head: "MOD_LIST_HEAD < x \<Longrightarrow> record_list x \<noteq> MOD_LIST_HEAD"
  by (simp add: record_list_def)

lemma holds_obj:
  assumes "holds K s head xs rs" "a \<in> set xs"
  shows "\<exists>r\<in>set rs. objs s a = Some (K r)"
proof -
  have "objs s a \<in> set (map (\<lambda>r. Some (K r)) rs)"
    using assms unfolding holds_def by (metis imageI list.set_map)
  then show ?thesis by auto
qed

lemma fresh_module: "fresh_cells a (O_module m) = {a, record_list a}"
  by (auto simp: fresh_cells_def obj_cells_def record_list_def)

lemma register_adds:
  assumes ok: "heap_ok s" and m: "modules s xs ms"
    and fits: "length name < 32" "length opt < 32" "length usage < 256"
  shows "\<exists>s' md. register_mod_fileds name cols opt usage n f s = Some s' \<and> heap_ok s'
    \<and> modules s' (xs @ [brk s]) (ms @ [md])
    \<and> md = (zero_module f)\<lparr>mod_name := name @ NUL # chars0 (31 - length name),
        opt_line := opt @ NUL # chars0 (31 - length opt), mod_usage := usage @ NUL # chars0 (255 - length usage),
        info := cols, num_col := n\<rparr>
    \<and> same_env s s'"
proof -
  let ?md = "(zero_module f)\<lparr>mod_name := name @ NUL # chars0 (31 - length name),
        opt_line := opt @ NUL # chars0 (31 - length opt), mod_usage := usage @ NUL # chars0 (255 - length usage),
        info := cols, num_col := n\<rparr>"
  obtain a s1 where al: "malloc (O_module (zero_module f)) s = (a, s1)"
    by (cases "malloc (O_module (zero_module f)) s")
  note mf = malloc_facts [OF al, unfolded fresh_module]
  have cp: "strcpy (chars0 k) t = Some (t @ NUL # chars0 (k - 1 - length t))" if "length t < k" for k t
    using that by (simp add: strcpy_def chars0_def)
  let ?s2 = "s1\<lparr>objs := (objs s1)(a \<mapsto> O_module ?md)\<rparr>"
  have ok2: "heap_ok ?s2"
    using malloc_heap_ok [OF ok al] by (auto simp: heap_ok_def mf)
  have ring0: "ring (links s) MOD_LIST_HEAD xs"
    using m by (simp add: modules_unfold holds_def)
  have below: "c < a" if "c \<in> dom (links s)" for c
    using ok that mf(1) by (simp add: heap_ok_def)
  have old: "links s1 c = links s c" if "c \<in> dom (links s)" for c
    using below [OF that] mf(5) [of c] by (auto simp: record_list_def)
  have fresh: "a \<in> dom (links s1)" "record_list a \<in> dom (links s1)"
    using mf(4) by simp_all
  from INIT_LIST_HEAD_ring [OF fresh(2)] obtain h3 where h3: "INIT_LIST_HEAD (record_list a) (links s1) = Some h3"
    "ring h3 (record_list a) []" "same_except {record_list a} (links s1) h3"
    by blast
  have cells: "insert MOD_LIST_HEAD (set xs) \<subseteq> dom (links s)"
    by (rule ring_dom [OF ring0])
  then have ring3: "ring h3 MOD_LIST_HEAD xs"
  proof -
    have "h3 c = links s c" if "c \<in> insert MOD_LIST_HEAD (set xs)" for c
    proof -
      have "c \<in> dom (links s)" using cells that by blast
      then show ?thesis
        using old below [of c] same_exceptD(1) [OF h3(3), of c] by (auto simp: record_list_def)
    qed
    then show ?thesis
      using ring0 ring_agree [of MOD_LIST_HEAD xs h3 "links s"] by blast
  qed
  have a3: "a \<in> dom h3" "a \<notin> insert MOD_LIST_HEAD (set xs)"
    using fresh(1) same_exceptD(2) [OF h3(3)] apply simp
    using below [of a] cells by blast
  from list_add_tail_ring [OF ring3 a3] obtain h4 where h4: "list_add_tail a MOD_LIST_HEAD h3 = Some h4"
    "ring h4 MOD_LIST_HEAD (xs @ [a])" "same_except {a, last (MOD_LIST_HEAD # xs), MOD_LIST_HEAD} h3 h4"
    by blast
  let ?s' = "?s2\<lparr>links := h4\<rparr>"
  have run: "register_mod_fileds name cols opt usage n f s = Some ?s'"
    using al fits h3(1) h4(1) mf(2) cp
    by (simp add: register_mod_fileds_def zero_module_def set_obj_def on_links_def)
  have dom4: "dom h4 = dom (links s1)"
    using same_exceptD(2) [OF h3(3)] same_exceptD(2) [OF h4(3)] by simp
  have ok': "heap_ok ?s'"
    using ok2 dom4 by (simp add: heap_ok_def)
  have touched: "{a, last (MOD_LIST_HEAD # xs), MOD_LIST_HEAD} \<subseteq> insert a (insert MOD_LIST_HEAD (set xs))"
    using last_Cons_mem [of MOD_LIST_HEAD xs] by auto
  have off: "h4 c = h3 c" if "c \<notin> insert a (insert MOD_LIST_HEAD (set xs))" for c
    using same_exceptD(1) [OF h4(3), of c] touched that by blast
  have rings: "ring h4 (record_list x) []" if "x \<in> set (xs @ [a])" for x
  proof (cases "x = a")
    case True
    have "record_list a \<notin> insert a (insert MOD_LIST_HEAD (set xs))"
      using cells below by (fastforce simp: record_list_def record_list_offset_def)
    then show ?thesis
      using h3(2) off [of "record_list a"] ring_agree [of "record_list a" "[]" h4 h3] True
      by simp
  next
    case False
    then have x: "x \<in> set xs" using that by simp
    have r: "ring (links s) (record_list x) []"
      using m x by (simp add: modules_unfold)
    then have d: "record_list x \<in> dom (links s)"
      using ring_dom by blast
    have "record_list x \<notin> insert a (insert MOD_LIST_HEAD (set xs))"
      using below [OF d] spaced_between(1) [of xs x] m x above_head [of x] by (auto simp: modules_unfold)
    moreover have "record_list x \<noteq> record_list a"
      using below [OF d] by (auto simp: record_list_def)
    ultimately have "h4 (record_list x) = links s (record_list x)"
      using old [OF d] off [of "record_list x"] same_exceptD(1) [OF h3(3), of "record_list x"]
      by simp
    then show ?thesis
      using r ring_agree [of "record_list x" "[]" h4 "links s"] by auto
  qed
  have sorted: "sorted_wrt (\<lambda>x y. x + 1048976 \<le> y) (xs @ [a])" "MOD_LIST_HEAD < a"
  proof -
    have "x + 1048976 \<le> a" if "x \<in> set xs" for x
    proof -
      obtain md where "objs s x = Some (O_module md)"
        using holds_obj [of O_module s MOD_LIST_HEAD xs ms x] m \<open>x \<in> set xs\<close> by (auto simp: modules_unfold)
      then have "x + obj_size (O_module md) \<le> brk s"
        using ok unfolding heap_ok_def by blast
      then show ?thesis
        using mf(1) by simp
    qed
    then show "sorted_wrt (\<lambda>x y. x + 1048976 \<le> y) (xs @ [a])"
      "MOD_LIST_HEAD < a"
      using m below [of MOD_LIST_HEAD] cells by (auto simp: modules_unfold sorted_wrt_append)
  qed
  have "map (objs ?s') (xs @ [a]) = map (\<lambda>r. Some (O_module r)) (ms @ [?md])"
    using m a3(2) by (auto simp: modules_unfold holds_def mf(2))
  then have "modules ?s' (xs @ [a]) (ms @ [?md])"
    using h4(2) rings sorted m unfolding modules_unfold holds_def by auto
  then show ?thesis
    using run ok' by (intro exI [of _ ?s'] exI [of _ ?md]) (simp add: mf same_env_def)
qed

subsection \<open>Loading the modules\<close>

text \<open>A module as its file registers it.\<close>

definition registered :: "mod_file \<Rightarrow> module_t" where
  "registered f = (zero_module f)\<lparr>
     mod_name := mod_name_of f @ NUL # chars0 (31 - length (mod_name_of f)),
     opt_line := mod_opt_of f @ NUL # chars0 (31 - length (mod_opt_of f)),
     mod_usage := mod_usage_of f @ NUL # chars0 (255 - length (mod_usage_of f)),
     info := mod_info_of f, num_col := int (length (mod_info_of f))\<rparr>"

lemma registration_fits:
  "length (mod_name_of f) < 32" "length (mod_opt_of f) < 32" "length (mod_usage_of f) < 256"
  by (cases f; simp add: statics_defs)+

definition mod_files :: "mod_file list" where
  "mod_files = [M_cpu, M_dns, M_fs, M_gateway, M_io, M_ip, M_load_avg, M_mem, M_network, M_proc,
     M_swap, M_time, M_uptime, M_who]"

fun register_all :: "mod_file list \<Rightarrow> st \<Rightarrow> st option" where
  "register_all [] s = Some s"
| "register_all (f # fs) s = do { s \<leftarrow> mod_register (statics_of f) f s; register_all fs s }"

lemma load_modules_all: "load_modules s = register_all mod_files s"
proof -
  have "register_all [] = Some" "register_all (f # fs) = (\<lambda>s. mod_register (statics_of f) f s \<bind> register_all fs)" for f fs
    by (rule ext, simp)+
  then show ?thesis
    by (simp only: load_modules_def register_defs mod_files_def statics_of.simps bind_runit)
qed

lemma register_all_adds:
  assumes "heap_ok s" "modules s xs ms"
  shows "\<exists>s' ys. register_all fs s = Some s' \<and> heap_ok s' \<and> modules s' (xs @ ys) (ms @ map registered fs)
    \<and> same_env s s'"
  using assms
proof (induction fs arbitrary: s xs ms)
  case Nil
  then show ?case by (auto intro!: exI [of _ "[]"])
next
  case (Cons f fs)
  from register_adds [OF Cons.prems registration_fits [of f]] obtain s1 where s1:
    "mod_register (statics_of f) f s = Some s1" "heap_ok s1" "modules s1 (xs @ [brk s]) (ms @ [registered f])"
    "same_env s s1"
    unfolding mod_register_def registered_def by blast
  from Cons.IH [OF s1(2,3)] obtain s2 ys where
    "register_all fs s1 = Some s2" "heap_ok s2" "modules s2 ((xs @ [brk s]) @ ys) ((ms @ [registered f]) @ map registered fs)"
    "same_env s1 s2"
    by blast
  then show ?case
    using s1(1) same_env_trans [OF s1(4)] by (intro exI [of _ s2] exI [of _ "brk s # ys"]) simp
qed

lemma FREE_MOD_LIST_HEAD_frees:
  assumes ok: "heap_ok s" and m: "module_ring s xs ms"
  shows "\<exists>s'. FREE_MOD_LIST_HEAD s = Some s' \<and> ring (links s') MOD_LIST_HEAD []
    \<and> (\<forall>x\<in>set xs. objs s' x = None \<and> links s' x = None \<and> links s' (record_list x) = None)
    \<and> objs s' = objs s |` (- set xs) \<and> heap_ok s' \<and> same_env s s'"
proof -
  define keep where "keep = (\<lambda>ys t. ring (links t) MOD_LIST_HEAD ys \<and> set ys \<subseteq> set xs
      \<and> (\<forall>y\<in>set xs - set ys. objs t y = None \<and> links t y = None \<and> links t (record_list y) = None)
      \<and> objs t = objs s |` (- (set xs - set ys)) \<and> heap_ok t \<and> same_env s t)"
  have sorted: "sorted_wrt (\<lambda>x y. x + 1048976 \<le> y) xs"
    using m by (simp add: module_ring_def)
  have head: "MOD_LIST_HEAD < z" if "z \<in> set xs" for z
    using m that by (simp add: module_ring_def)
  have step: "\<exists>t'. free_mod_body y t = Some (Next t') \<and> keep ys t'" if k: "keep (y # ys) t" for y ys t
  proof -
    from k have ring: "ring (links t) MOD_LIST_HEAD ([] @ y # ys)"
      and y: "y \<in> set xs" and ys: "set ys \<subseteq> set xs" and okt: "heap_ok t"
      and objs: "objs t = objs s |` (- (set xs - set (y # ys)))"
      unfolding keep_def by auto
    obtain r where "objs s y = Some (O_module r)"
      using holds_obj [of O_module s MOD_LIST_HEAD xs ms y] m y by (auto simp: module_ring_def)
    then have r: "objs t y = Some (O_module r)"
      using objs by simp
    from list_del_ring [OF ring] obtain h where h:
      "list_del y (links t) = Some h" "ring h MOD_LIST_HEAD ys"
      "same_except {y, MOD_LIST_HEAD, hd (ys @ [MOD_LIST_HEAD])} (links t) h"
      by auto
    note dom = same_exceptD(2) [OF h(3)]
    let ?t1 = "t\<lparr>links := h\<rparr>"
    let ?h = "\<lambda>c. if c \<in> {y, record_list y} then None else h c"
    let ?t' = "?t1\<lparr>links := ?h, objs := (objs t)(y := None)\<rparr>"
    have del: "on_links (list_del y) t = Some ?t1"
      using h(1) by (simp add: on_links_def)
    have fr: "free y ?t1 = Some ?t'"
      using r by (simp add: free_def fresh_module cong: if_cong)
    have run: "free_mod_body y t = Some (Next ?t')"
      using del fr by (simp add: free_mod_body_def)
    have notin: "c \<notin> {y, record_list y}" if "c \<in> insert MOD_LIST_HEAD (set ys)" for c
      using that ys y spaced_between(1) [OF sorted, of y c] above_head [OF head [OF y]] ring_distinct [OF ring] by auto
    have "ring ?h MOD_LIST_HEAD ys"
      using h(2) notin ring_agree [of MOD_LIST_HEAD ys ?h h] by auto
    moreover have "\<forall>z\<in>set xs - set ys. objs ?t' z = None \<and> links ?t' z = None \<and> links ?t' (record_list z) = None"
    proof
      fix z
      assume z: "z \<in> set xs - set ys"
      show "objs ?t' z = None \<and> links ?t' z = None \<and> links ?t' (record_list z) = None"
      proof (cases "z = y")
        case False
        then have "objs t z = None \<and> z \<notin> dom (links t) \<and> record_list z \<notin> dom (links t)"
          using k z unfolding keep_def by auto
        then have "objs t z = None \<and> h z = None \<and> h (record_list z) = None"
          unfolding dom [symmetric] by blast
        then show ?thesis by simp
      qed simp
    qed
    moreover have "heap_ok ?t'"
    proof (rule free_heap_ok [OF _ fr])
      show "heap_ok ?t1" using okt dom by (simp add: heap_ok_def)
    qed
    moreover have "same_env s ?t'"
      using k by (simp add: keep_def same_env_def)
    moreover have "objs ?t' = objs s |` (- (set xs - set ys))"
    proof -
      have "y \<notin> set ys"
        using ring_distinct [OF ring] by auto
      then show ?thesis
        using objs y by (auto simp: restrict_map_def fun_eq_iff)
    qed
    ultimately have "keep ys ?t'"
      using ys unfolding keep_def by simp
    then show ?thesis using run by blast
  qed
  have k0: "keep xs s"
    using ok m by (simp add: keep_def module_ring_def holds_def restrict_map_def)
  have ring: "MOD_LIST_HEAD \<notin> set ys \<and> chain (links t) (ys @ [MOD_LIST_HEAD]) \<and> MOD_LIST_HEAD \<in> dom (links t)"
    if "keep ys t" for ys t
  proof -
    have r: "ring (links t) MOD_LIST_HEAD ys" using that by (simp add: keep_def)
    show ?thesis
      using r ring_dom [OF r] by (auto simp: ring_def successively_Cons)
  qed
  obtain s' where s': "list_for_each_entry_safe free_mod_body links MOD_LIST_HEAD s = Some (Next s')" "keep [] s'"
    using list_for_each_entry_safe_steps [of keep xs s links MOD_LIST_HEAD free_mod_body, OF k0 _ ring step] k0
    by (auto simp: keep_def)
  then have "FREE_MOD_LIST_HEAD s = Some s'"
    by (simp add: FREE_MOD_LIST_HEAD_def ctl_state_def)
  then show ?thesis
    using s'(2) unfolding keep_def by (intro exI [of _ s']) auto
qed

text \<open>What a list of modules shows of the strings in it.\<close>

lemma registered_no_NUL: "NUL \<notin> set (mod_name_of f)" "NUL \<notin> set (mod_opt_of f)" "NUL \<notin> set (mod_usage_of f)"
  by (cases f; simp add: statics_defs)+

lemma registered_strings [simp]:
  "buf_str (mod_name (registered f)) = Some (mod_name_of f)" "buf_str (opt_line (registered f)) = Some (mod_opt_of f)"
  "buf_str (mod_usage (registered f)) = Some (mod_usage_of f)" "enable (registered f) = 0"
  "fn_collect_record (registered f) = f" "fn_record_to_str (registered f) = f" "fn_free_record_list (registered f) = f"
  "mod_record (registered f) = ''''"
  using registered_no_NUL [of f] by (simp_all add: registered_def zero_module_def buf_str_def)

lemma INIT_MOD_LIST_HEAD_empty:
  assumes "heap_ok s" "MOD_LIST_HEAD \<in> dom (links s)"
  shows "\<exists>s'. INIT_MOD_LIST_HEAD s = Some s' \<and> heap_ok s' \<and> modules s' [] [] \<and> same_env s s'"
proof -
  from INIT_LIST_HEAD_ring [OF assms(2)] obtain h where h:
    "INIT_LIST_HEAD MOD_LIST_HEAD (links s) = Some h" "ring h MOD_LIST_HEAD []"
    "same_except {MOD_LIST_HEAD} (links s) h"
    by blast
  show ?thesis
    using on_links_ring [of "INIT_LIST_HEAD MOD_LIST_HEAD" s h, OF h(1,3) assms(1)] h(2)
    by (simp add: INIT_MOD_LIST_HEAD_def modules_unfold holds_def)
qed

text \<open>
  C10. After \<open>INIT_MOD_LIST_HEAD\<close> and \<open>load_modules\<close> the fourteen modules hang in
  the ring in the order they registered, none enabled, each with the name, the option, the
  usage text, the columns and the functions of its own file (every string fits its
  buffer) and with an empty list of records; their objects do not overlap.
\<close>

theorem load_modules_registers:
  assumes "heap_ok s" "MOD_LIST_HEAD \<in> dom (links s)"
  shows "\<exists>s' xs. INIT_MOD_LIST_HEAD s \<bind> load_modules = Some s' \<and> heap_ok s' \<and> same_env s s'
    \<and> modules s' xs (map registered [M_cpu, M_dns, M_fs, M_gateway, M_io, M_ip, M_load_avg, M_mem,
         M_network, M_proc, M_swap, M_time, M_uptime, M_who])"
proof -
  obtain s1 where s1: "INIT_MOD_LIST_HEAD s = Some s1" "heap_ok s1" "modules s1 [] []" "same_env s s1"
    using INIT_MOD_LIST_HEAD_empty [OF assms] by blast
  from register_all_adds [OF s1(2,3), of mod_files] obtain s2 xs where
    "load_modules s1 = Some s2" "heap_ok s2" "modules s2 ([] @ xs) ([] @ map registered mod_files)" "same_env s1 s2"
    by (auto simp: load_modules_all)
  then show ?thesis
    using s1(1) same_env_trans [OF s1(4)]
    by (intro exI [of _ s2] exI [of _ xs]) (simp add: mod_files_def)
qed

theorem load_modules_registers_witness:
  "\<exists>s' xs. INIT_MOD_LIST_HEAD boot \<bind> load_modules = Some s' \<and> heap_ok s' \<and> same_env boot s'
    \<and> modules s' xs (map registered [M_cpu, M_dns, M_fs, M_gateway, M_io, M_ip, M_load_avg, M_mem,
         M_network, M_proc, M_swap, M_time, M_uptime, M_who])"
  by (rule load_modules_registers [OF boot_heap_ok]) (simp add: boot_def)

end
