(* ===== verification/Mod_Common.thy ===== *)
theory Mod_Common
  imports Framework
begin

text \<open>
  What the fourteen files \<open>zsr/module/mod_*.c\<close> share. A module keeps its records in the ring at
  \<open>mod->record_list\<close> and formats its report into the array \<open>mod->record\<close>. There are three ways of
  collecting: one record that is read again every time (\<open>collect_single\<close>), a list that
  every query replaces (\<open>collect_query\<close>), and a growing history. A report is one line per record,
  or one line for the last record.
\<close>

subsection \<open>Formatting into mod->record\<close>

text \<open>
  The report so far is the text in the array and its length \<open>ret\<close>. The array has \<open>LEN_1M\<close> bytes;
  writing a NUL past its end is undefined. \<open>snprintf\<close> with bound \<open>n\<close> writes at most \<open>n - 1\<close>
  characters but returns the full length. The bound the sources give is \<open>LEN_1M\<close>, also
  at \<open>mod->record + ret\<close>, so that it only protects the first line.
\<close>

type_synonym report = "string \<times> nat"

definition sprintf_at :: "string \<Rightarrow> report \<Rightarrow> report option" where
  "sprintf_at w v = (case v of (b, ret) \<Rightarrow>
     if ret + length w < LEN_1M then Some (take ret b @ w, ret + length w) else None)"

definition snprintf_at :: "nat \<Rightarrow> string \<Rightarrow> report \<Rightarrow> report option" where
  "snprintf_at n w v = (case v of (b, ret) \<Rightarrow>
     (let t = take (n - 1) w in
      if ret + length t < LEN_1M then Some (take ret b @ t, ret + length w) else None))"

text \<open>A line of a report: the module's name and the columns.\<close>

definition report_line :: "string \<Rightarrow> string list \<Rightarrow> string" where
  "report_line name cols = name @ ''='' @ join '','' cols @ '';'' @ [newline]"

text \<open>What both functions do with lines that fit.\<close>

definition formats :: "(string \<Rightarrow> report \<Rightarrow> report option) \<Rightarrow> bool" where
  "formats put \<longleftrightarrow> (\<forall>w b. length b + length w < LEN_1M
     \<longrightarrow> put w (b, length b) = Some (b @ w, length b + length w))
   \<and> (\<forall>w b. length w < LEN_1M \<longrightarrow> put w (b, 0) = Some (w, length w))"

lemma formats_put [simp]: "formats sprintf_at" "formats (snprintf_at LEN_1M)"
  by (auto simp: formats_def sprintf_at_def snprintf_at_def Let_def)


subsection \<open>record_to_str\<close>

definition report_body ::
    "(string \<Rightarrow> report \<Rightarrow> report option) \<Rightarrow> (obj \<Rightarrow> 'r option) \<Rightarrow> ('r \<Rightarrow> string option)
      \<Rightarrow> addr \<Rightarrow> st \<times> report \<Rightarrow> (st \<times> report, st \<times> report) ctl option" where
  "report_body put un line entry v = (case v of (s, rep) \<Rightarrow> do {
     r \<leftarrow> obj_at un entry s;
     w \<leftarrow> line r;
     rep \<leftarrow> put w rep;
     Some (Next (s, rep))
   })"

definition report_entries ::
    "(string \<Rightarrow> report \<Rightarrow> report option) \<Rightarrow> (obj \<Rightarrow> 'r option) \<Rightarrow> ('r \<Rightarrow> string option)
      \<Rightarrow> addr \<Rightarrow> string \<Rightarrow> st \<Rightarrow> report option" where
  "report_entries put un line head b s =
     map_option (\<lambda>c. snd (ctl_state c))
       (list_for_each_entry (report_body put un line) (\<lambda>v. links (fst v)) head (s, b, 0))"

text \<open>
  With an empty list \<open>record_to_str\<close> returns \<open>-1\<close> as a \<open>size_t\<close> and leaves the array as it is.
\<close>

definition to_str :: "(module_t \<Rightarrow> st \<Rightarrow> report option) \<Rightarrow> addr \<Rightarrow> st \<Rightarrow> (u64 \<times> st) option" where
  "to_str rep m s = do {
     md \<leftarrow> obj_at as_module m s;
     empty \<leftarrow> list_empty (record_list m) (links s);
     if empty then Some (- 1, s)
     else do {
       (b, ret) \<leftarrow> rep md s;
       s \<leftarrow> set_obj m (O_module (md\<lparr>mod_record := b\<rparr>)) s;
       Some (of_nat ret, s)
     }
   }"

definition to_str_all ::
    "(string \<Rightarrow> report \<Rightarrow> report option) \<Rightarrow> (obj \<Rightarrow> 'r option) \<Rightarrow> ('r \<Rightarrow> string option)
      \<Rightarrow> addr \<Rightarrow> st \<Rightarrow> (u64 \<times> st) option" where
  "to_str_all put un line m = to_str (\<lambda>md. report_entries put un line (record_list m) (mod_record md)) m"

definition to_str_last ::
    "(string \<Rightarrow> report \<Rightarrow> report option) \<Rightarrow> (obj \<Rightarrow> 'r option) \<Rightarrow> ('r \<Rightarrow> string option)
      \<Rightarrow> addr \<Rightarrow> st \<Rightarrow> (u64 \<times> st) option" where
  "to_str_last put un line m = to_str (\<lambda>md s. do {
     entry \<leftarrow> rd_prev (record_list m) (links s);
     r \<leftarrow> obj_at un entry s;
     w \<leftarrow> line r;
     put w (mod_record md, 0)
   }) m"

lemma ctl_state_Next [simp]: "ctl_state (Next s) = s" "ctl_state (Leave s) = s"
  by (simp_all add: ctl_state_def)

text \<open>Storing the report changes the module's object and nothing else.\<close>

definition with_record :: "addr \<Rightarrow> module_t \<Rightarrow> string \<Rightarrow> st \<Rightarrow> st" where
  "with_record m md b s = s\<lparr>objs := (objs s)(m \<mapsto> O_module (md\<lparr>mod_record := b\<rparr>))\<rparr>"

lemma with_record_facts:
  "links (with_record m md b s) = links s" "brk (with_record m md b s) = brk s"
  "objs (with_record m md b s) m = Some (O_module (md\<lparr>mod_record := b\<rparr>))"
  "a \<noteq> m \<Longrightarrow> objs (with_record m md b s) a = objs s a"
  "same_env s (with_record m md b s)" "only {m} s (with_record m md b s)"
  by (simp_all add: with_record_def only_def same_env_def)

lemma with_record_heap_ok:
  assumes "heap_ok s" "objs s m = Some (O_module md)"
  shows "heap_ok (with_record m md b s)"
proof -
  have "m + obj_size (O_module md) \<le> brk s"
    using assms unfolding heap_ok_def by blast
  then show ?thesis
    using assms(1) by (auto simp: heap_ok_def with_record_def)
qed

lemma to_str_empty:
  assumes "objs s m = Some (O_module md)" "ring (links s) (record_list m) []"
  shows "to_str rep m s = Some (- 1, s)"
  using assms by (simp add: to_str_def obj_at_def as_module_def list_empty_ring)

lemma to_str_report:
  assumes "objs s m = Some (O_module md)" "ring (links s) (record_list m) xs" "xs \<noteq> []"
    and "rep md s = Some (b, n)"
  shows "to_str rep m s = Some (of_nat n, with_record m md b s)"
  using assms
  by (simp add: to_str_def obj_at_def as_module_def list_empty_ring set_obj_def with_record_def)

context record_kind begin

lemma K_not_module: "K r \<noteq> O_module md"
proof
  assume "K r = O_module md"
  then show False using cells_K [of r] by (simp add: obj_cells_def)
qed

lemma module_not_in:
  "holds K s head xs rs \<Longrightarrow> objs s m = Some (O_module md) \<Longrightarrow> m \<notin> set xs"
  using holds_nonnull K_not_module by fastforce

lemma with_record_holds:
  assumes "holds K s head xs rs" "objs s m = Some (O_module md)"
  shows "holds K (with_record m md b s) head xs rs"
  using assms module_not_in [OF assms] by (auto simp: holds_def with_record_def)

text \<open>Collecting, which works on the records, keeps the module's object.\<close>

lemma module_kept:
  assumes "heap_ok s" "holds K s (record_list m) xs rs" "objs s m = Some (O_module md)"
    and "only (insert (record_list m) (set xs)) s s'"
  shows "objs s' m = Some (O_module md)"
proof -
  have "m + obj_size (O_module md) \<le> brk s"
    using assms(1,3) unfolding heap_ok_def by blast
  then have "m < brk s" "m \<noteq> record_list m" "m \<notin> set xs"
    using module_not_in [OF assms(2,3)] by (simp_all add: record_list_def record_list_offset_def)
  then show ?thesis
    using assms(3,4) by (simp add: only_def)
qed

text \<open>A query that asks once and then appends cleared and filled nodes.\<close>

lemma add_all_after_tick:
  assumes "heap_ok s" "holds K s head xs rs"
  shows "\<exists>s' ys. add_all (K z) (map K rs') head (tick s) = Some s' \<and> holds K s' head (xs @ ys) (rs @ rs')
    \<and> (\<forall>y\<in>set ys. brk s \<le> y) \<and> heap_ok s' \<and> only (insert head (set xs)) s s'"
proof -
  obtain s' ys where s': "add_all (K z) (map K rs') head (tick s) = Some s'" "holds K s' head (xs @ ys) (rs @ rs')"
    "\<forall>y\<in>set ys. brk (tick s) \<le> y" "heap_ok s'" "only (insert head (set xs)) (tick s) s'"
    using add_all_holds [of "tick s" head xs rs z rs'] assms by auto
  moreover have "only (insert head (set xs)) s s'"
    using only_trans [OF only_memory [OF same_memory_tick] s'(5)] by auto
  ultimately show ?thesis
    by (auto simp: heap_simps)
qed

lemma add_all_query:
  assumes "heap_ok s" "holds K s head xs rs"
    and "q = total (add_all (K z) (map K ans) head (tick s))" "answers ans"
  shows "\<exists>s' ys rs'. q = Some (Done s') \<and> holds K s' head (xs @ ys) (rs @ rs') \<and> answers rs'
    \<and> (\<forall>y\<in>set ys. brk s \<le> y) \<and> heap_ok s' \<and> only (insert head (set xs)) s s'"
  using add_all_after_tick [OF assms(1,2), of z ans] assms(3,4) by force

lemma report_fold:
  assumes "formats put" "list_all2 (\<lambda>x w. \<exists>r. objs s x = Some (K r) \<and> line r = Some w) xs ws"
    and "length c + length (concat ws) < LEN_1M"
  shows "fold_ctl (report_body put un line) xs (s, c, length c)
    = Some (Next (s, c @ concat ws, length (c @ concat ws)))"
  using assms(2,3)
proof (induction xs arbitrary: ws c)
  case (Cons x xs)
  then obtain w ws' r where ws: "ws = w # ws'" "objs s x = Some (K r)" "line r = Some w"
    "list_all2 (\<lambda>x w. \<exists>r. objs s x = Some (K r) \<and> line r = Some w) xs ws'"
    by (auto simp: list_all2_Cons1)
  then have "put w (c, length c) = Some (c @ w, length (c @ w))"
    using assms(1) Cons.prems(2) by (simp add: formats_def)
  then show ?case
    using Cons.IH [of ws' "c @ w"] Cons.prems(2) ws by (simp add: report_body_def obj_at_def un_K)
qed simp

lemma report_entries_holds:
  assumes put: "formats put" and h: "holds K s head xs rs" "rs \<noteq> []"
    and ws: "map line rs = map Some ws" "length (concat ws) < LEN_1M"
  shows "report_entries put un line head b s = Some (concat ws, length (concat ws))"
proof -
  have l2: "list_all2 (\<lambda>x w. \<exists>r. objs s x = Some (K r) \<and> line r = Some w) xs ws"
  proof -
    have len: "length xs = length rs" "length ws = length rs"
      using holds_length [OF h(1)] ws(1) by (simp, metis length_map)
    have "objs s (xs ! i) = Some (K (rs ! i))" "line (rs ! i) = Some (ws ! i)" if "i < length rs" for i
      using h(1) ws(1) len that unfolding holds_def by (metis nth_map)+
    then show ?thesis
      using len by (auto simp: list_all2_conv_all_nth)
  qed
  have "list_for_each_entry (report_body put un line) (\<lambda>v. links (fst v)) head (s, b, 0)
      = fold_ctl (report_body put un line) xs (s, b, 0)"
    by (rule list_for_each_entry_fold [where keep = "\<lambda>v. fst v = s"])
       (use holds_ring [OF h(1)] in \<open>auto simp: report_body_def split: bind_splits\<close>)
  moreover obtain x xs' w ws' where x: "xs = x # xs'" "ws = w # ws'"
    using h l2 by (cases xs; cases ws) (auto dest: holds_length)
  ultimately show ?thesis
    using report_fold [OF put, of s line xs' ws' w] l2 ws(2) put
    by (auto simp: report_entries_def report_body_def obj_at_def un_K formats_def)
qed

lemma to_str_all_holds:
  assumes "formats put" "holds K s (record_list m) xs rs" "objs s m = Some (O_module md)" "rs \<noteq> []"
    and "map line rs = map Some ws" "length (concat ws) < LEN_1M"
  shows "to_str_all put un line m s = Some (of_nat (length (concat ws)), with_record m md (concat ws) s)"
  unfolding to_str_all_def
  by (rule to_str_report [OF assms(3) holds_ring [OF assms(2)]])
     (use report_entries_holds [OF assms(1,2,4,5,6)] holds_Nil_iff [OF assms(2)] assms(4) in auto)

lemma to_str_last_holds:
  assumes "formats put" "holds K s (record_list m) xs rs" "objs s m = Some (O_module md)" "rs \<noteq> []"
    and "line (last rs) = Some w" "length w < LEN_1M"
  shows "to_str_last put un line m s = Some (of_nat (length w), with_record m md w s)"
proof -
  have "xs \<noteq> []" using assms(2,4) holds_Nil_iff by blast
  then have "rd_prev (record_list m) (links s) = Some (last xs)"
    using ring_prev [OF holds_ring [OF assms(2)]] by simp
  then show ?thesis
    unfolding to_str_last_def
    using obj_at_last [OF assms(2,4)] assms \<open>xs \<noteq> []\<close>
    by (intro to_str_report [OF assms(3) holds_ring [OF assms(2)]]) (simp_all add: formats_def)
qed

end

subsection \<open>One record, read again every time\<close>

text \<open>
  \<open>collect_record\<close> of six modules: the one entry of the list, allocated and cleared at the
  first call, is handed to the reader.
\<close>

definition single_entry :: "obj \<Rightarrow> addr \<Rightarrow> st \<Rightarrow> (addr \<times> st) option" where
  "single_entry cleared m s = do {
     empty \<leftarrow> list_empty (record_list m) (links s);
     if empty then
       (let (entry, s) = malloc cleared s in do {
          s \<leftarrow> on_links (list_add_tail entry (record_list m)) s;
          Some (entry, s)
        })
     else do {
       entry \<leftarrow> rd_prev (record_list m) (links s);
       Some (entry, s)
     }
   }"

definition collect_single ::
    "('r \<Rightarrow> obj) \<Rightarrow> (obj \<Rightarrow> 'r option) \<Rightarrow> 'r \<Rightarrow> ('r \<Rightarrow> st \<Rightarrow> (st, 'r \<times> st) result) \<Rightarrow> addr \<Rightarrow> st \<Rightarrow> (st, st) result" where
  "collect_single K un zero read m s =
     bnd (total (single_entry (K zero) m s)) (\<lambda>(entry, s).
     bnd (total (obj_at un entry s)) (\<lambda>r.
     bnd (read r s) (\<lambda>(r, s).
       total (set_obj entry (K r) s))))"

text \<open>The interface of such a module to its reader: reading leaves the memory alone.\<close>

locale single_module = record_kind K un sz
  for K :: "'r \<Rightarrow> obj" and un :: "obj \<Rightarrow> 'r option" and sz :: nat +
  fixes zero :: 'r and read :: "os \<Rightarrow> 'r \<Rightarrow> st \<Rightarrow> (st, 'r \<times> st) result"
  assumes read_memory: "read os r s = Some (Done (r', s')) \<Longrightarrow> same_memory s s'"
begin

lemma single_entry_holds:
  assumes ok: "heap_ok s" and h: "holds K s (record_list m) xs rs" and one: "length rs \<le> 1"
  shows "\<exists>a s'. single_entry (K zero) m s = Some (a, s')
    \<and> holds K s' (record_list m) [a] [if rs = [] then zero else hd rs]
    \<and> (a \<in> set xs \<or> brk s \<le> a)
    \<and> heap_ok s' \<and> only (insert (record_list m) (set xs)) s s' \<and> same_env s s'"
proof (cases rs)
  case Nil
  then have xs: "xs = []" using holds_Nil_iff [OF h] by simp
  obtain a s1 where m: "malloc (K zero) s = (a, s1)"
    by (cases "malloc (K zero) s")
  note mf = malloc_facts [OF m]
  have "add_new (K zero) (K zero) (record_list m) s = on_links (list_add_tail a (record_list m)) s1"
  proof -
    have "set_obj a (K zero) s1 = Some s1"
      by (simp add: set_obj_def mf(2))
    then show ?thesis using m by (simp add: add_new_def)
  qed
  then show ?thesis
    using add_new_holds [OF ok h, of zero zero] m Nil xs list_empty_ring [OF holds_ring [OF h]] mf(1)
    by (auto simp: single_entry_def)
next
  case (Cons r rs')
  with one have rs: "rs = [r]" by simp
  then obtain a where xs: "xs = [a]"
    using holds_length [OF h] by (cases xs) auto
  then show ?thesis
    using h ok rs list_empty_ring [OF holds_ring [OF h]] ring_prev [OF holds_ring [OF h]]
    by (auto simp: single_entry_def)
qed

lemma collect_single_holds:
  assumes "heap_ok s" "holds K s (record_list m) xs rs" "length rs \<le> 1"
    and reads: "\<And>s1. same_env s s1 \<Longrightarrow> \<exists>s2. read os (if rs = [] then zero else hd rs) s1 = Some (Done (r', s2))"
  shows "\<exists>a s'. collect_single K un zero (read os) m s = Some (Done s')
    \<and> holds K s' (record_list m) [a] [r'] \<and> heap_ok s' \<and> only (insert (record_list m) (set xs)) s s'"
proof -
  obtain a s1 where s1: "single_entry (K zero) m s = Some (a, s1)"
    "holds K s1 (record_list m) [a] [if rs = [] then zero else hd rs]" "a \<in> set xs \<or> brk s \<le> a"
    "heap_ok s1" "only (insert (record_list m) (set xs)) s s1" "same_env s s1"
    using single_entry_holds [OF assms(1-3)] by blast
  obtain s2 where s2: "read os (if rs = [] then zero else hd rs) s1 = Some (Done (r', s2))"
    using reads [OF s1(6)] by blast
  note mem = read_memory [OF s2]
  have h2: "holds K s2 (record_list m) [a] [if rs = [] then zero else hd rs]" "heap_ok s2"
    using s1(2,4) by (simp_all add: holds_memory [OF mem] heap_ok_memory [OF mem] split del: if_split)
  from set_last_holds [OF h2(2,1), of r'] obtain s3 where s3:
    "set_obj a (K r') s2 = Some s3" "holds K s3 (record_list m) [a] [r']" "heap_ok s3" "only {a} s2 s3"
    by auto
  have "obj_at un a s1 = Some (if rs = [] then zero else hd rs)"
    using obj_at_last [OF s1(2)] by simp
  then have run: "collect_single K un zero (read os) m s = Some (Done s3)"
    using s1(1) s2 s3(1) by (simp add: collect_single_def split del: if_split)
  have "only {a} s1 s3"
    using only_trans [OF only_memory [OF mem] s3(4)] by simp
  then have "only (insert (record_list m) (set xs)) s s3"
    using only_trans [OF s1(5)] s1(3) by fastforce
  then show ?thesis using run s3 by blast
qed

text \<open>A round of the program for such a module: collecting, then formatting the record.\<close>

lemma single_round:
  assumes "heap_ok s" "objs s m = Some (O_module md)" "holds K s (record_list m) xs rs" "length rs \<le> 1"
    and reads: "\<And>s1. same_env s s1 \<Longrightarrow> \<exists>s2. read os (if rs = [] then zero else hd rs) s1 = Some (Done (r', s2))"
    and "formats put" "line r' = Some w" "length w < LEN_1M"
  shows "\<exists>s1 s2 a. collect_single K un zero (read os) m s = Some (Done s1)
    \<and> to_str_last put un line m s1 = Some (of_nat (length w), s2)
    \<and> objs s2 m = Some (O_module (md\<lparr>mod_record := w\<rparr>)) \<and> holds K s2 (record_list m) [a] [r'] \<and> heap_ok s2"
proof -
  obtain s1 a where s1: "collect_single K un zero (read os) m s = Some (Done s1)" "holds K s1 (record_list m) [a] [r']"
    "heap_ok s1" "only (insert (record_list m) (set xs)) s s1"
    using collect_single_holds [OF assms(1,3,4) reads] by blast
  note md = module_kept [OF assms(1,3,2) s1(4)]
  show ?thesis
    using s1(1) to_str_last_holds [OF assms(6) s1(2) md, of line w] with_record_holds [OF s1(2) md]
      with_record_heap_ok [OF s1(3) md] assms(7,8)
    by (intro exI [of _ s1] exI [of _ "with_record m md w s1"] exI [of _ a]) (simp add: with_record_facts)
qed

end

subsection \<open>A list that every query replaces\<close>

text \<open>
  \<open>collect_record\<close> of five modules: \<open>list_del_init\<close> takes the list's own head out of the ring,
  so that the list is empty, and the query fills it again. The old entries are not freed.
\<close>

definition clear_list :: "addr \<Rightarrow> st \<Rightarrow> st option" where
  "clear_list m s = do {
     empty \<leftarrow> list_empty (record_list m) (links s);
     if empty then Some s else on_links (list_del_init (record_list m)) s
   }"

definition collect_query :: "(addr \<Rightarrow> st \<Rightarrow> (st, st) result) \<Rightarrow> addr \<Rightarrow> st \<Rightarrow> (st, st) result" where
  "collect_query query m s = bnd (total (clear_list m s)) (query (record_list m))"

lemma clear_list_empties:
  assumes "heap_ok s" "ring (links s) (record_list m) xs"
  shows "\<exists>s'. clear_list m s = Some s' \<and> ring (links s') (record_list m) [] \<and> objs s' = objs s
    \<and> brk s' = brk s \<and> heap_ok s' \<and> only (insert (record_list m) (set xs)) s s' \<and> same_env s s'"
proof (cases xs)
  case Nil
  then show ?thesis
    using assms list_empty_ring [OF assms(2)] by (simp add: clear_list_def)
next
  case (Cons x ys)
  from list_del_init_head [OF assms(2) [unfolded Cons]] obtain h where h:
    "list_del_init (record_list m) (links s) = Some h" "ring h (record_list m) []"
    "same_except (insert (record_list m) (set (x # ys))) (links s) h"
    by blast
  note on = on_links_ring [of "list_del_init (record_list m)", OF h(1,3) assms(1)]
  show ?thesis
    using on(1,2) on(3) [OF order_refl] h(2) Cons list_empty_ring [OF assms(2)]
    by (simp add: clear_list_def)
qed

text \<open>
  The interface of such a module to its query: on a machine that is \<open>ready\<close>, the query appends
  what it \<open>answers\<close> then, in new objects, and touches no other memory.
\<close>

locale query_module = record_kind K un sz
  for K :: "'r \<Rightarrow> obj" and un :: "obj \<Rightarrow> 'r option" and sz :: nat +
  fixes query :: "os \<Rightarrow> addr \<Rightarrow> st \<Rightarrow> (st, st) result"
    and ready :: "os \<Rightarrow> nat \<Rightarrow> bool"
    and answers :: "os \<Rightarrow> nat \<Rightarrow> 'r list \<Rightarrow> bool"
  assumes query_appends: "heap_ok s \<Longrightarrow> holds K s head xs rs \<Longrightarrow> ready os (clock s) \<Longrightarrow>
    \<exists>s' ys rs'. query os head s = Some (Done s') \<and> holds K s' head (xs @ ys) (rs @ rs')
      \<and> answers os (clock s) rs' \<and> (\<forall>y\<in>set ys. brk s \<le> y)
      \<and> heap_ok s' \<and> only (insert head (set xs)) s s'"
begin

lemma collect_query_replaces:
  assumes "heap_ok s" "holds K s (record_list m) xs rs" "ready os (clock s)"
  shows "\<exists>s' ys rs'. collect_query (query os) m s = Some (Done s') \<and> holds K s' (record_list m) ys rs'
    \<and> answers os (clock s) rs' \<and> (\<forall>y\<in>set ys. brk s \<le> y) \<and> map (objs s') xs = map (\<lambda>r. Some (K r)) rs
    \<and> heap_ok s' \<and> only (insert (record_list m) (set xs)) s s'"
proof -
  obtain s1 where s1: "clear_list m s = Some s1" "ring (links s1) (record_list m) []" "objs s1 = objs s"
    "brk s1 = brk s" "heap_ok s1" "only (insert (record_list m) (set xs)) s s1" "same_env s s1"
    using clear_list_empties [OF assms(1) holds_ring [OF assms(2)]] by blast
  have "holds K s1 (record_list m) [] []"
    using s1(2) by (simp add: holds_def)
  moreover have "clock s1 = clock s" "ready os (clock s1)"
    using assms(3) s1(7) by (simp_all add: same_env_def)
  ultimately obtain s2 ys rs' where s2:
    "query os (record_list m) s1 = Some (Done s2)" "holds K s2 (record_list m) ys rs'"
    "answers os (clock s) rs'" "\<forall>y\<in>set ys. brk s1 \<le> y" "heap_ok s2" "only {record_list m} s1 s2"
    using query_appends [OF s1(5), of "record_list m" "[]" "[]" os] by auto
  have "objs s2 x = objs s x" if "x \<in> set xs" for x
  proof -
    have "x < brk s" "x \<noteq> record_list m"
      using holds_below [OF assms(1,2), of x] ring_distinct [OF holds_ring [OF assms(2)]] that by auto
    then show ?thesis
      using s2(6) s1(3,4) by (simp add: only_def)
  qed
  then have "map (objs s2) xs = map (\<lambda>r. Some (K r)) rs"
    using assms(2) by (simp add: holds_def cong: map_cong)
  moreover have "only (insert (record_list m) (set xs)) s s2"
    by (rule only_trans [OF s1(6) s2(6)]) simp
  ultimately show ?thesis
    using s1(1,4) s2 by (auto simp: collect_query_def)
qed

text \<open>
  A round of the program for such a module: the report lists exactly what the query answers
  now; the old entries stay allocated. After an empty answer the report is the old one.
\<close>

lemma query_round:
  assumes ok: "heap_ok s" and md: "objs s m = Some (O_module md)" and h: "holds K s (record_list m) xs rs"
    and rdy: "ready os (clock s)" and put: "formats put"
    and lines: "\<And>rs'. answers os (clock s) rs' \<Longrightarrow> \<exists>ws. map line rs' = map Some ws \<and> length (concat ws) < LEN_1M"
  shows "\<exists>s1 s2 n ys rs' ws. collect_query (query os) m s = Some (Done s1) \<and> to_str_all put un line m s1 = Some (n, s2)
    \<and> answers os (clock s) rs' \<and> map line rs' = map Some ws
    \<and> n = (if rs' = [] then - 1 else of_nat (length (concat ws)))
    \<and> objs s2 m = Some (O_module (if rs' = [] then md else md\<lparr>mod_record := concat ws\<rparr>))
    \<and> holds K s2 (record_list m) ys rs' \<and> map (objs s2) xs = map (\<lambda>r. Some (K r)) rs \<and> set xs \<inter> set ys = {}
    \<and> heap_ok s2"
proof -
  obtain s1 ys rs' where s1: "collect_query (query os) m s = Some (Done s1)" "holds K s1 (record_list m) ys rs'"
    "answers os (clock s) rs'" "\<forall>y\<in>set ys. brk s \<le> y" "map (objs s1) xs = map (\<lambda>r. Some (K r)) rs"
    "heap_ok s1" "only (insert (record_list m) (set xs)) s s1"
    using collect_query_replaces [OF ok h rdy] by blast
  have disj: "set xs \<inter> set ys = {}"
    using s1(4) holds_below [OF ok h] by fastforce
  note md1 = module_kept [OF ok h md s1(7)]
  obtain ws where ws: "map line rs' = map Some ws" "length (concat ws) < LEN_1M"
    using lines [OF s1(3)] by blast
  show ?thesis
  proof (cases "rs' = []")
    case True
    then have "ring (links s1) (record_list m) []"
      using holds_ring [OF s1(2)] holds_Nil_iff [OF s1(2)] by simp
    from to_str_empty [OF md1 this] show ?thesis
      using True s1 disj md1 ws(1) by (auto simp: to_str_all_def)
  next
    case False
    note str = to_str_all_holds [OF put s1(2) md1 False ws]
    have "m \<notin> set xs"
      by (rule module_not_in [OF h md])
    then have "map (objs (with_record m md (concat ws) s1)) xs = map (objs s1) xs"
      by (auto simp: with_record_def)
    then show ?thesis
      using False s1(1,3,5) str disj ws(1) with_record_holds [OF s1(2) md1] with_record_heap_ok [OF s1(6) md1]
      by (intro exI [of _ s1] exI [of _ "with_record m md (concat ws) s1"] exI conjI) (auto simp: with_record_facts)
  qed
qed

text \<open>Freeing the list after that leaves the old entries allocated for good.\<close>

lemma free_after_query:
  assumes "holds K s' (record_list m) ys rs'" "heap_ok s'" "NULL \<notin> set ys" "set ys \<inter> set xs = {}"
    and "\<forall>x\<in>set xs. x < brk s'" "map (objs s') xs = map (\<lambda>r. Some (K r)) rs"
  shows "\<exists>s''. FREE_LIST_HEAD (record_list m) s' = Some s'' \<and> set ys \<inter> dom (objs s'') = {}
    \<and> map (objs s'') xs = map (\<lambda>r. Some (K r)) rs"
proof -
  obtain s'' where s'': "FREE_LIST_HEAD (record_list m) s' = Some s''" "set ys \<inter> dom (objs s'') = {}"
    "only (set ys) s' s''"
    using FREE_LIST_HEAD_frees [OF assms(2,1,3)] by blast
  have "objs s'' x = objs s' x" if "x \<in> set xs" for x
    using s''(3) assms(4,5) that by (auto simp: only_def)
  then have "map (objs s'') xs = map (objs s') xs"
    by simp
  then show ?thesis
    using s'' assms(6) by auto
qed

end


text \<open>A module as registered, with an empty list, to run examples on.\<close>

definition boot_module :: "mod_file \<Rightarrow> st" where
  "boot_module f = boot\<lparr>links := [4096 + record_list_offset \<mapsto>
       \<lparr>lh_next = 4096 + record_list_offset, lh_prev = 4096 + record_list_offset\<rparr>],
     objs := [4096 \<mapsto> O_module (registered f)], brk := 4096 + 1048976\<rparr>"

lemma boot_module_facts [simp]:
  "heap_ok (boot_module f)" "objs (boot_module f) 4096 = Some (O_module (registered f))"
  "holds K (boot_module f) (record_list 4096) [] []" "clock (boot_module f) = 0"
  by (simp_all add: boot_module_def boot_def heap_ok_def holds_def ring_Nil link_def rd_next_def
      rd_prev_def record_list_def record_list_offset_def)

end
