(* ===== verification/Mem_Swap.thy ===== *)
theory Mem_Swap
  imports Records "HOL-Library.Sublist"
begin

text \<open>
  \<open>libzsr/mem.c\<close> and \<open>libzsr/swap.c\<close>: the totals of \<open>/proc/meminfo\<close>. The memory
  reader stops at the first line it does not know, the swap reader at the line of the
  free swap; both compute what is used as an unsigned difference.
\<close>

subsection \<open>mem.c\<close>

definition scan_into :: "string \<Rightarrow> u64 \<Rightarrow> u64" where
  "scan_into t old = (case scan_lu t of Some (v, _) \<Rightarrow> v | None \<Rightarrow> old)"

fun read_mem_lines :: "string list \<Rightarrow> mem_stat_t \<Rightarrow> mem_stat_t" where
  "read_mem_lines [] mem = mem"
| "read_mem_lines (buf # bufs) mem =
     (if strncmp_eq buf ''MemTotal:'' 9 then
        read_mem_lines bufs (mem\<lparr>mem_total_kb := scan_into (drop 9 buf) (mem_total_kb mem)\<rparr>)
      else if strncmp_eq buf ''MemFree:'' 8 then
        read_mem_lines bufs (mem\<lparr>mem_free_kb := scan_into (drop 8 buf) (mem_free_kb mem)\<rparr>)
      else mem)"

definition read_mem_stat :: "os \<Rightarrow> mem_stat_t \<Rightarrow> st \<Rightarrow> (st, mem_stat_t \<times> st) result" where
  "read_mem_stat os mem s =
     (case fopen os ''/proc/meminfo'' s of
        (None, s) \<Rightarrow> bnd (print_log_l os LOG_ERROR (Some ''/proc/meminfo'') s) (\<lambda>s. Some (Done (mem, s)))
      | (Some txt, s) \<Rightarrow>
          (let mem = read_mem_lines (fgets_all LEN_128 txt) mem
           in Some (Done (mem\<lparr>mem_used_kb := mem_total_kb mem - mem_free_kb mem\<rparr>, s))))"


subsection \<open>swap.c\<close>

fun read_swap_lines :: "string list \<Rightarrow> swap_stat_t \<Rightarrow> swap_stat_t" where
  "read_swap_lines [] swap = swap"
| "read_swap_lines (line # lines) swap =
     (if strncmp_eq line ''SwapTotal:'' 10 then
        read_swap_lines lines (swap\<lparr>swap_total_kb := scan_into (drop 10 line) (swap_total_kb swap)\<rparr>)
      else if strncmp_eq line ''SwapFree:'' 9 then
        swap\<lparr>swap_free_kb := scan_into (drop 9 line) (swap_free_kb swap)\<rparr>
      else read_swap_lines lines swap)"

definition read_swap_stat :: "os \<Rightarrow> swap_stat_t \<Rightarrow> st \<Rightarrow> (st, swap_stat_t \<times> st) result" where
  "read_swap_stat os swap s =
     (case fopen os ''/proc/meminfo'' s of
        (None, s) \<Rightarrow> bnd (print_log_l os LOG_ERROR (Some ''/proc/meminfo'') s) (\<lambda>s. Some (Done (swap, s)))
      | (Some txt, s) \<Rightarrow>
          (let swap = read_swap_lines (fgets_all LEN_128 txt) swap
           in Some (Done (swap\<lparr>swap_used_kb := swap_total_kb swap - swap_free_kb swap\<rparr>, s))))"


subsection \<open>Lines of /proc/meminfo\<close>

definition meminfo_line :: "string \<Rightarrow> nat \<Rightarrow> u64 \<Rightarrow> string" where
  "meminfo_line key pad v = key @ replicate pad CHR '' '' @ print_lu v @ '' kB''"

lemma length_print_lu: "length (print_lu v) \<le> 20"
proof -
  have "unat v < 10 ^ 20"
    using unat_u64_less [of v] by simp
  then show ?thesis
    unfolding print_lu_def by (intro length_dec) simp_all
qed

lemma print_lu_clean: "c \<in> set (print_lu v) \<Longrightarrow> isdigit c"
  using dec_digits [of "unat v"] by (simp add: print_lu_def list_all_iff)

lemma fgets_meminfo_line:
  assumes "newline \<notin> set key" "NUL \<notin> set key" "length key \<le> 20" "pad \<le> 80"
  shows "fgets_all LEN_128 (meminfo_line key pad v @ newline # rest)
    = (meminfo_line key pad v @ [newline]) # fgets_all LEN_128 rest"
proof -
  have d: "newline \<notin> set (print_lu v)" "NUL \<notin> set (print_lu v)"
    using print_lu_clean isdigit_not_special by blast+
  show ?thesis
    using length_print_lu [of v] assms d
    by (intro fgets_all_line) (auto simp: meminfo_line_def)
qed

lemma strncmp_eq_key [simp]: "n = length key \<Longrightarrow> strncmp_eq (key @ t) key n"
  by (simp add: strncmp_eq_def)

lemma scan_into_line:
  "n = length key \<Longrightarrow> scan_into (drop n (meminfo_line key pad v @ [newline])) old = v"
proof -
  assume n: "n = length key"
  have "scan_lu (replicate pad CHR '' '' @ print_lu v @ '' kB'' @ [newline]) = Some (v, '' kB'' @ [newline])"
    by (rule scan_lu_print_lu) (simp_all add: list_all_iff)
  then show ?thesis
    by (simp add: n scan_into_def meminfo_line_def)
qed

lemma first_buffer_prefix:
  assumes "fgets_all n s = b # bs" "strncmp_eq b key k" "k = length key"
  shows "prefix key s"
proof -
  have b: "b = cstr (take (fgets_len n s) s)"
    using assms(1) by (auto simp: fgets_all.simps [of n s] fgets_def split: if_splits)
  have "prefix key b"
    using assms(2,3) unfolding strncmp_eq_def by (metis order_refl take_all take_is_prefix)
  moreover have "prefix b s"
    unfolding b cstr_def by (meson takeWhile_is_prefix take_is_prefix prefix_order.trans)
  ultimately show ?thesis
    by (rule prefix_order.trans)
qed

lemma read_mem_lines_stop:
  assumes "\<not> prefix ''MemTotal:'' rest" "\<not> prefix ''MemFree:'' rest"
  shows "read_mem_lines (fgets_all LEN_128 rest) mem = mem"
proof (cases "fgets_all LEN_128 rest")
  case (Cons b bs)
  have "\<not> strncmp_eq b ''MemTotal:'' 9" "\<not> strncmp_eq b ''MemFree:'' 8"
    using assms first_buffer_prefix [OF Cons] by fastforce+
  then show ?thesis
    using Cons by simp
qed simp

text \<open>
  C26. The memory report is right: if \<open>/proc/meminfo\<close> starts with its two usual lines and
  goes on with any other, \<open>read_mem_stat\<close> stores the two numbers printed there and, as
  used, their difference; that is at most the total when the free amount is.
\<close>

theorem read_mem_stat_roundtrip:
  assumes "os_file os (clock s) ''/proc/meminfo'' = Some (meminfo_line ''MemTotal:'' i total_v @ newline
      # meminfo_line ''MemFree:'' j free_v @ newline # rest)"
    and "i \<le> 80" "j \<le> 80" "\<not> prefix ''MemTotal:'' rest" "\<not> prefix ''MemFree:'' rest"
  shows "read_mem_stat os mem s = Some (Done (\<lparr>mem_total_kb = total_v, mem_used_kb = total_v - free_v,
      mem_free_kb = free_v\<rparr>, tick s))
    \<and> (free_v \<le> total_v \<longrightarrow> unat (total_v - free_v) = unat total_v - unat free_v)"
proof -
  have "strncmp_eq (meminfo_line ''MemFree:'' j free_v @ [newline]) ''MemTotal:'' 9 = False"
    "strncmp_eq (meminfo_line ''MemTotal:'' i total_v @ [newline]) ''MemTotal:'' 9"
    "strncmp_eq (meminfo_line ''MemFree:'' j free_v @ [newline]) ''MemFree:'' 8"
    by (simp_all add: strncmp_eq_def meminfo_line_def)
  moreover have "scan_into (drop 9 (meminfo_line ''MemTotal:'' i total_v @ [newline])) old = total_v"
    "scan_into (drop 8 (meminfo_line ''MemFree:'' j free_v @ [newline])) old = free_v" for old
    by (rule scan_into_line; simp)+
  ultimately have "read_mem_lines (fgets_all LEN_128 (meminfo_line ''MemTotal:'' i total_v @ newline
      # meminfo_line ''MemFree:'' j free_v @ newline # rest)) mem
      = mem\<lparr>mem_total_kb := total_v, mem_free_kb := free_v\<rparr>"
    using assms(2-5) by (simp add: fgets_meminfo_line read_mem_lines_stop)
  then show ?thesis
    using assms(1) by (simp add: read_mem_stat_def fopen_def unat_sub word_le_nat_alt)
qed

lemma read_mem_stat_roundtrip_witness:
  "read_mem_stat (quiet_os (\<lambda>_ _. Some (meminfo_line ''MemTotal:'' 8 16309392 @ newline
     # meminfo_line ''MemFree:'' 10 1203984 @ newline # ''MemAvailable: 9 kB''))) zero_mem boot
   = Some (Done (\<lparr>mem_total_kb = 16309392, mem_used_kb = 15105408, mem_free_kb = 1203984\<rparr>, tick boot))"
  using read_mem_stat_roundtrip [where total_v = 16309392 and free_v = 1203984 and i = 8 and j = 10
      and rest = "''MemAvailable: 9 kB''" and s = boot]
  by simp

text \<open>
  The swap report is right: the two lines may stand anywhere in \<open>/proc/meminfo\<close>, in
  this order, among lines that fit the buffer; what follows the line of the free swap is
  not looked at.
\<close>

theorem read_swap_stat_roundtrip:
  assumes "os_file os (clock s) ''/proc/meminfo'' = Some (concat (map (\<lambda>l. l @ [newline]) ls)
      @ meminfo_line ''SwapTotal:'' i total_v @ newline # concat (map (\<lambda>l. l @ [newline]) ms)
      @ meminfo_line ''SwapFree:'' j free_v @ newline # rest)"
    and "\<forall>l\<in>set (ls @ ms). newline \<notin> set l \<and> NUL \<notin> set l \<and> length l \<le> 126
      \<and> \<not> prefix ''SwapTotal:'' l \<and> \<not> prefix ''SwapFree:'' l"
    and "i \<le> 80" "j \<le> 80"
  shows "read_swap_stat os swap s = Some (Done (\<lparr>swap_total_kb = total_v, swap_used_kb = total_v - free_v,
      swap_free_kb = free_v\<rparr>, tick s))
    \<and> (free_v \<le> total_v \<longrightarrow> unat (total_v - free_v) = unat total_v - unat free_v)"
proof -
  have no: "\<not> strncmp_eq (l @ [newline]) key n"
    if "\<not> prefix key l" "newline \<notin> set key" "n = length key" for l key n
  proof
    assume "strncmp_eq (l @ [newline]) key n"
    then have "prefix key (l @ [newline])"
      using that(3) unfolding strncmp_eq_def by (metis order_refl take_all take_is_prefix)
    with that show False
      by (auto simp: prefix_snoc)
  qed
  have skip: "read_swap_lines (fgets_all LEN_128 (concat (map (\<lambda>l. l @ [newline]) ls) @ r)) w
      = read_swap_lines (fgets_all LEN_128 r) w"
    if "\<forall>l\<in>set ls. newline \<notin> set l \<and> NUL \<notin> set l \<and> length l \<le> 126
      \<and> \<not> prefix ''SwapTotal:'' l \<and> \<not> prefix ''SwapFree:'' l" for ls r w
    using that
  proof (induction ls)
    case (Cons l ls)
    then show ?case
      using no [of "''SwapTotal:''" l 10] no [of "''SwapFree:''" l 9] by (simp add: fgets_all_line)
  qed simp
  have "strncmp_eq (meminfo_line ''SwapFree:'' j free_v @ [newline]) ''SwapTotal:'' 10 = False"
    "strncmp_eq (meminfo_line ''SwapTotal:'' i total_v @ [newline]) ''SwapTotal:'' 10"
    "strncmp_eq (meminfo_line ''SwapFree:'' j free_v @ [newline]) ''SwapFree:'' 9"
    by (simp_all add: strncmp_eq_def meminfo_line_def)
  moreover have "scan_into (drop 10 (meminfo_line ''SwapTotal:'' i total_v @ [newline])) old = total_v"
    "scan_into (drop 9 (meminfo_line ''SwapFree:'' j free_v @ [newline])) old = free_v" for old
    by (rule scan_into_line; simp)+
  ultimately show ?thesis
    using assms by (simp add: skip fgets_meminfo_line read_swap_stat_def fopen_def unat_sub word_le_nat_alt)
qed

lemma read_swap_stat_roundtrip_witness:
  "read_swap_stat (quiet_os (\<lambda>_ _. Some (concat (map (\<lambda>l. l @ [newline]) [''MemTotal: 5 kB'', ''SwapCached: 7 kB''])
     @ meminfo_line ''SwapTotal:'' 8 4194300 @ newline # concat (map (\<lambda>l. l @ [newline]) [])
     @ meminfo_line ''SwapFree:'' 9 4194000 @ newline # ''Dirty: 1 kB''))) zero_swap boot
   = Some (Done (\<lparr>swap_total_kb = 4194300, swap_used_kb = 300, swap_free_kb = 4194000\<rparr>, tick boot))"
  using read_swap_stat_roundtrip [where total_v = 4194300 and free_v = 4194000 and i = 8 and j = 9
      and ls = "[''MemTotal: 5 kB'', ''SwapCached: 7 kB'']" and ms = "[]"
      and rest = "''Dirty: 1 kB''" and s = boot]
  by simp

end
