(* ===== verification/Uptime_Load.thy ===== *)
theory Uptime_Load
  imports Records Common
begin

text \<open>
  \<open>libzsr/uptime.c\<close>, \<open>libzsr/load_avg.c\<close> and \<open>libzsr/time.c\<close>: the time since boot
  taken apart into years, months, days, hours and minutes; the three load averages, read
  into \<open>float\<close>s; the time of day.
\<close>

subsection \<open>uptime.c\<close>

definition set_uptime :: "u64 \<Rightarrow> uptime_t \<Rightarrow> uptime_t" where
  "set_uptime secs up =
     (let minute_sec = 60; hour_sec = 3600; day_sec = 86400; month_sec = 2592000; year_sec = 31536000;
          up = up\<lparr>total_sec := secs\<rparr>;
          up = up\<lparr>year := secs div year_sec\<rparr>;
          tmp_sec = secs mod year_sec;
          up = up\<lparr>month := tmp_sec div month_sec\<rparr>;
          tmp_sec = tmp_sec mod month_sec;
          up = up\<lparr>day := tmp_sec div day_sec\<rparr>;
          tmp_sec = tmp_sec mod day_sec;
          up = up\<lparr>hour := tmp_sec div hour_sec\<rparr>;
          tmp_sec = tmp_sec mod hour_sec
      in up\<lparr>minute := tmp_sec div minute_sec\<rparr>)"

text \<open>The \<open>fscanf\<close> on the stream itself: \<open>total_sec\<close> stays 0 where there is no number.\<close>

definition read_uptime_stat :: "os \<Rightarrow> uptime_t \<Rightarrow> st \<Rightarrow> (st, uptime_t \<times> st) result" where
  "read_uptime_stat os up s =
     (case fopen os ''/proc/uptime'' s of
        (None, s) \<Rightarrow> bnd (print_log_l os LOG_ERROR (Some ''/proc/uptime'') s) (\<lambda>s. Some (Done (up, s)))
      | (Some txt, s) \<Rightarrow>
          (let secs = (case scan_lu txt of Some (v, _) \<Rightarrow> v | None \<Rightarrow> 0)
           in Some (Done (set_uptime secs up, s))))"

lemma set_uptime_fields:
  "unat (total_sec (set_uptime t up)) = unat t"
  "unat (year (set_uptime t up)) = unat t div 31536000"
  "unat (month (set_uptime t up)) = unat t mod 31536000 div 2592000"
  "unat (day (set_uptime t up)) = unat t mod 31536000 mod 2592000 div 86400"
  "unat (hour (set_uptime t up)) = unat t mod 31536000 mod 2592000 mod 86400 div 3600"
  "unat (minute (set_uptime t up)) = unat t mod 31536000 mod 2592000 mod 86400 mod 3600 div 60"
  by (simp_all add: set_uptime_def Let_def unat_div unat_mod)

lemma uptime_arith:
  fixes n :: nat
  shows "n = 31536000 * (n div 31536000) + 2592000 * (n mod 31536000 div 2592000)
      + 86400 * (n mod 31536000 mod 2592000 div 86400)
      + 3600 * (n mod 31536000 mod 2592000 mod 86400 div 3600)
      + 60 * (n mod 31536000 mod 2592000 mod 86400 mod 3600 div 60) + n mod 60"
    "n mod 31536000 div 2592000 \<le> 12" "n mod 31536000 mod 2592000 div 86400 < 30"
    "n mod 31536000 mod 2592000 mod 86400 div 3600 < 24"
    "n mod 31536000 mod 2592000 mod 86400 mod 3600 div 60 < 60"
    "n mod 31536000 div 2592000 = 12 \<Longrightarrow> n mod 31536000 mod 2592000 div 86400 < 5"
proof -
  define y where "y = n mod 31536000"
  define m where "m = y mod 2592000"
  define d where "d = m mod 86400"
  define h where "h = d mod 3600"
  have "n mod 60 = y mod 60" by (simp add: y_def mod_mod_cancel)
  also have "\<dots> = m mod 60" by (simp add: m_def mod_mod_cancel)
  also have "\<dots> = d mod 60" by (simp add: d_def mod_mod_cancel)
  also have "\<dots> = h mod 60" by (simp add: h_def mod_mod_cancel)
  finally have n60: "n mod 60 = h mod 60" .
  have y: "n = 31536000 * (n div 31536000) + y" "y < 31536000" unfolding y_def by simp_all
  have m: "y = 2592000 * (y div 2592000) + m" "m < 2592000" unfolding m_def by simp_all
  have d: "m = 86400 * (m div 86400) + d" "d < 86400" unfolding d_def by simp_all
  have h: "d = 3600 * (d div 3600) + h" "h < 3600" unfolding h_def by simp_all
  have r: "h = 60 * (h div 60) + h mod 60" by simp
  show "n = 31536000 * (n div 31536000) + 2592000 * (n mod 31536000 div 2592000)
      + 86400 * (n mod 31536000 mod 2592000 div 86400)
      + 3600 * (n mod 31536000 mod 2592000 mod 86400 div 3600)
      + 60 * (n mod 31536000 mod 2592000 mod 86400 mod 3600 div 60) + n mod 60"
    unfolding n60 using y(1) m(1) d(1) h(1) r
    unfolding y_def [symmetric] m_def [symmetric] d_def [symmetric] h_def [symmetric] by linarith
  show "n mod 31536000 div 2592000 \<le> 12" "n mod 31536000 mod 2592000 div 86400 < 30"
    "n mod 31536000 mod 2592000 mod 86400 div 3600 < 24"
    "n mod 31536000 mod 2592000 mod 86400 mod 3600 div 60 < 60"
    using y m d h unfolding y_def [symmetric] m_def [symmetric] d_def [symmetric] h_def [symmetric]
    by linarith+
  show "n mod 31536000 div 2592000 = 12 \<Longrightarrow> n mod 31536000 mod 2592000 div 86400 < 5"
    using y m d unfolding y_def [symmetric] m_def [symmetric] by linarith
qed

text \<open>
  C25. \<open>read_uptime_stat\<close> on \<open>/proc/uptime\<close> as the kernel writes it (whole seconds, a dot
  and more) accounts for every second: years of 365 days, months of 30 days, days, hours
  and minutes add up to the uptime but for less than a minute, with fewer than 30 days, 24
  hours and 60 minutes. The month can be 12, in the last 5 days of a year only.
\<close>

theorem read_uptime_stat_decomposes:
  assumes "os_file os (clock s) ''/proc/uptime'' = Some (print_lu t @ ''.'' @ rest)"
  shows "\<exists>u. read_uptime_stat os up s = Some (Done (u, tick s)) \<and> total_sec u = t
    \<and> unat t = 31536000 * unat (year u) + 2592000 * unat (month u) + 86400 * unat (day u)
        + 3600 * unat (hour u) + 60 * unat (minute u) + unat t mod 60
    \<and> unat (month u) \<le> 12 \<and> unat (day u) < 30 \<and> unat (hour u) < 24 \<and> unat (minute u) < 60
    \<and> (unat (month u) = 12 \<longrightarrow> unat (day u) < 5)"
proof -
  have "scan_lu (print_lu t @ ''.'' @ rest) = Some (t, ''.'' @ rest)"
    using scan_lu_print_lu [of "[]" "''.'' @ rest" t] by simp
  then have "read_uptime_stat os up s = Some (Done (set_uptime t up, tick s))"
    using assms by (simp add: read_uptime_stat_def fopen_def)
  moreover have "total_sec (set_uptime t up) = t"
    by (simp add: set_uptime_def Let_def)
  ultimately show ?thesis
    using uptime_arith [of "unat t", folded set_uptime_fields(2-6) [of t up]] by blast
qed

lemma read_uptime_stat_decomposes_witness:
  "\<exists>u. read_uptime_stat (quiet_os (\<lambda>_ _. Some (print_lu 35200000 @ ''.'' @ ''17 1.1''))) zero_uptime boot
      = Some (Done (u, tick boot)) \<and> total_sec u = 35200000"
  using read_uptime_stat_decomposes
    [of "quiet_os (\<lambda>_ _. Some (print_lu 35200000 @ ''.'' @ ''17 1.1''))" boot 35200000 "''17 1.1''" zero_uptime]
  by auto

text \<open>On its 361st day a machine has been up for 12 months of no year.\<close>

lemma twelve_months: "month (set_uptime 31104000 zero_uptime) = 12 \<and> year (set_uptime 31104000 zero_uptime) = 0"
  by (simp add: set_uptime_def Let_def)


subsection \<open>load_avg.c\<close>

text \<open>
  The conversion \<open>%f\<close> for numbers in positional notation, which is what the kernel
  prints; exponents, hexadecimal numbers, \<open>inf\<close> and \<open>nan\<close> are not modelled. The
  value is rounded once, to a \<open>float\<close>.
\<close>

definition scan_f :: "float32 conv" where
  "scan_f s =
     (let (neg, s1) = scan_sign (dropWhile isspace s);
          ds = takeWhile isdigit s1; s2 = dropWhile isdigit s1;
          (fs, s3) = (case s2 of CHR ''.'' # r \<Rightarrow> (takeWhile isdigit r, dropWhile isdigit r) | _ \<Rightarrow> ('''', s2));
          x = of_nat (nat_of_digits (ds @ fs)) / 10 ^ length fs
      in if ds = [] \<and> fs = [] then None else Some (rnd32 (if neg then - x else x), s3))"

text \<open>
  The result of \<open>fgets\<close> is not tested: for an empty file the buffer has no value and
  scanning it is undefined.
\<close>

definition read_load_stat :: "os \<Rightarrow> load_stat_t \<Rightarrow> st \<Rightarrow> (st, load_stat_t \<times> st) result" where
  "read_load_stat os load s =
     (case fopen os ''/proc/loadavg'' s of
        (None, s) \<Rightarrow> bnd (print_log_l os LOG_ERROR (Some ''/proc/loadavg'') s) (\<lambda>s. Some (Done (load, s)))
      | (Some txt, s) \<Rightarrow>
          (case fgets LEN_128 txt of
             None \<Rightarrow> None
           | Some (buf, _) \<Rightarrow>
               (let v = fst (scan_many scan_f 3 buf) in
                Some (Done (\<lparr>one_min = (if 0 < length v then v ! 0 else one_min load),
                             five_min = (if 1 < length v then v ! 1 else five_min load),
                             fifteen_min = (if 2 < length v then v ! 2 else fifteen_min load)\<rparr>, s)))))"

lemma fgets_of_all: "fgets_all n s = b # bs \<Longrightarrow> \<exists>r. fgets n s = Some (b, r)"
  by (auto simp: fgets_all.simps [of n s] split: option.splits if_splits)

text \<open>A load average as the kernel prints it, from its hundredths.\<close>

definition print_hundredths :: "nat \<Rightarrow> string" where
  "print_hundredths n = dec (n div 100) @ ''.'' @ two_digits (n mod 100)"

lemma two_digits_val:
  assumes "m < 100"
  shows "list_all isdigit (two_digits m)" "nat_of_digits (ds @ two_digits m) = 100 * nat_of_digits ds + m"
proof -
  have "m div 10 < 10" "m mod 10 < 10" using assms by simp_all
  then show "list_all isdigit (two_digits m)" "nat_of_digits (ds @ two_digits m) = 100 * nat_of_digits ds + m"
    by (simp_all add: two_digits_def nat_of_digits_def)
qed

lemma scan_f_print:
  assumes "list_all isspace ws" "rest = [] \<or> \<not> isdigit (hd rest)"
  shows "scan_f (ws @ print_hundredths n @ rest) = Some (rnd32 (of_nat n / 100), rest)"
proof -
  obtain c cs where c: "dec (n div 100) = c # cs" "isdigit c"
    using dec_hd [of "n div 100"] by (cases "dec (n div 100)") auto
  have "dropWhile isspace (ws @ print_hundredths n @ rest) = print_hundredths n @ rest"
    using assms(1) c isdigit_not_special [of c] by (induction ws) (auto simp: print_hundredths_def)
  moreover have "scan_sign (print_hundredths n @ rest) = (False, print_hundredths n @ rest)"
    using c isdigit_not_special [of c] by (simp add: scan_sign_def print_hundredths_def)
  moreover have "takeWhile isdigit (print_hundredths n @ rest) = dec (n div 100)"
    "dropWhile isdigit (print_hundredths n @ rest) = ''.'' @ two_digits (n mod 100) @ rest"
    using takeWhile_digits [OF dec_digits, of "''.'' @ two_digits (n mod 100) @ rest" "n div 100"]
    by (simp_all add: print_hundredths_def isdigit_def)
  moreover have "takeWhile isdigit (two_digits (n mod 100) @ rest) = two_digits (n mod 100)"
    "dropWhile isdigit (two_digits (n mod 100) @ rest) = rest"
    using takeWhile_digits [OF two_digits_val(1) assms(2), of "n mod 100"] by simp_all
  moreover have "nat_of_digits (dec (n div 100) @ two_digits (n mod 100)) = n"
    using two_digits_val(2) [of "n mod 100" "dec (n div 100)"] by simp
  moreover have "length (two_digits (n mod 100)) = 2"
    by (simp add: two_digits_def)
  ultimately show ?thesis
    by (simp add: scan_f_def)
qed

text \<open>A \<open>float\<close> holds two decimals up to \<open>2\<^sup>2\<^sup>3\<close> hundredths.\<close>

lemma fmt2_rnd32:
  assumes "n < 2 ^ 23"
  shows "fmt2 (rnd32 (of_nat n / 100)) = print_hundredths n"
proof (cases "n = 0")
  case True
  then show ?thesis
    by (simp add: rnd32_def round_to_def print_hundredths_def)
next
  case False
  define x :: rat where "x = of_nat n / 100"
  have n: "(of_nat n :: rat) < 2 ^ 23" "(1::rat) \<le> of_nat n"
    using assms False of_nat_less_iff [of n "2 ^ 23", where ?'a = rat] by simp_all
  have x: "0 < x" "2 powi (- 7) \<le> x" "x \<le> 2 powi 17"
    using n by (simp_all add: x_def power_int_minus divide_le_eq le_divide_eq)
  have "(2::rat) powi (- 7) < 2 powi (ilog2 x + 1)"
    using ilog2_bounds(2) [OF x(1)] x(2) by linarith
  then have lo: "- 7 < ilog2 x + 1"
    by (metis not_less one_le_numeral power_int_increasing)
  have "(2::rat) powi (ilog2 x) \<le> 2 powi 17"
    using ilog2_bounds(1) [OF x(1)] x(3) by linarith
  then have hi: "ilog2 x \<le> 17"
    by (metis not_le one_less_numeral_iff power_int_strict_increasing semiring_norm(76))
  define y where "y = round_pos 24 (- 149) x"
  have y: "\<bar>y - x\<bar> \<le> x * 2 powi (- 24)"
    unfolding y_def using x(1) lo by (intro round_pos_rel) simp_all
  have "y \<le> 2 powi 17"
    unfolding y_def using x(3) hi by (intro round_pos_le_pow2) (simp_all add: quantum_def)
  also have "\<dots> < (2::rat) powi 128"
    by (intro power_int_strict_increasing) simp_all
  finally have fin: "rnd32 x = Fin y"
    using x(1) by (simp add: rnd32_def round_to_def Let_def y_def)
  define e where "e = x * 2 powi (- 24)"
  have "e * 100 < 1 / 2"
    using n by (simp add: e_def x_def power_int_minus)
  moreover have "y * 100 - of_nat n = (y - x) * 100"
    by (simp add: x_def algebra_simps)
  ultimately have "\<bar>y * 100 - of_int (int n)\<bar> < 1 / 2"
    using y unfolding of_int_of_nat_eq abs_le_iff abs_less_iff e_def [symmetric] by simp
  then have "rne (y * 100) = int n"
    by (rule rne_less_half)
  moreover have "0 \<le> y"
    unfolding y_def by (rule round_pos_bounds(2) [OF x(1)])
  ultimately show ?thesis
    by (simp add: fin [unfolded x_def] print_hundredths_def Let_def)
qed

lemma read_load_stat_prints:
  assumes "os_file os (clock s) ''/proc/loadavg'' = Some (print_hundredths a @ '' '' @ print_hundredths b
      @ '' '' @ print_hundredths c @ '' '' @ rest @ [newline])"
    and "a < 2 ^ 23" "b < 2 ^ 23" "c < 2 ^ 23"
    and "newline \<notin> set rest" "NUL \<notin> set rest" "length rest \<le> 80"
  shows "read_load_stat os load s = Some (Done (\<lparr>one_min = rnd32 (of_nat a / 100),
      five_min = rnd32 (of_nat b / 100), fifteen_min = rnd32 (of_nat c / 100)\<rparr>, tick s))"
proof -
  have len: "length (print_hundredths n) \<le> 10" if "n < 2 ^ 23" for n
    using that length_dec [of "n div 100" 7] by (simp add: print_hundredths_def two_digits_def)
  have clean: "newline \<notin> set (print_hundredths n) \<and> NUL \<notin> set (print_hundredths n)" for n
  proof -
    have "isdigit x \<or> x = CHR ''.''" if "x \<in> set (print_hundredths n)" for x
      using that dec_digits [of "n div 100"] two_digits_val(1) [of "n mod 100"]
      by (auto simp: print_hundredths_def list_all_iff)
    then show ?thesis
      using isdigit_not_special by fastforce
  qed
  let ?t = "print_hundredths a @ '' '' @ print_hundredths b @ '' '' @ print_hundredths c @ '' '' @ rest"
  have "newline \<notin> set ?t" "NUL \<notin> set ?t" "length ?t + 2 \<le> LEN_128"
    using clean assms(5-7) len [OF assms(2)] len [OF assms(3)] len [OF assms(4)] by auto
  then have "fgets_all LEN_128 (?t @ newline # []) = (?t @ [newline]) # fgets_all LEN_128 []"
    by (intro fgets_all_line) simp_all
  then have buf: "\<exists>r. fgets LEN_128 (?t @ [newline]) = Some (?t @ [newline], r)"
    by (rule fgets_of_all)
  have "scan_many scan_f 3 (?t @ [newline]) =
      ([rnd32 (of_nat a / 100), rnd32 (of_nat b / 100), rnd32 (of_nat c / 100)], '' '' @ rest @ [newline])"
    using scan_f_print [of "[]" "'' '' @ print_hundredths b @ '' '' @ print_hundredths c @ '' '' @ rest @ [newline]" a]
      scan_f_print [of "'' ''" "'' '' @ print_hundredths c @ '' '' @ rest @ [newline]" b]
      scan_f_print [of "'' ''" "'' '' @ rest @ [newline]" c]
    by (simp add: numeral_3_eq_3)
  then show ?thesis
    using assms(1) buf
    by (auto simp: read_load_stat_def fopen_def)
qed

text \<open>
  C24. The load averages that are printed are the ones the kernel printed, digit for digit,
  for loads below 83886.08: reading \<open>a b c ...\<close> from \<open>/proc/loadavg\<close> into three
  \<open>float\<close>s and printing them with two decimals gives \<open>a\<close>, \<open>b\<close> and \<open>c\<close> back.
\<close>

theorem read_load_stat_roundtrip:
  assumes "os_file os (clock s) ''/proc/loadavg'' = Some (print_hundredths a @ '' '' @ print_hundredths b
      @ '' '' @ print_hundredths c @ '' '' @ rest @ [newline])"
    and "a < 2 ^ 23" "b < 2 ^ 23" "c < 2 ^ 23"
    and "newline \<notin> set rest" "NUL \<notin> set rest" "length rest \<le> 80"
  shows "\<exists>l. read_load_stat os load s = Some (Done (l, tick s))
    \<and> fmt2 (one_min l) = print_hundredths a \<and> fmt2 (five_min l) = print_hundredths b
    \<and> fmt2 (fifteen_min l) = print_hundredths c"
  using read_load_stat_prints [OF assms] assms(2-4) by (simp add: fmt2_rnd32)

lemma read_load_stat_roundtrip_witness:
  "\<exists>l. read_load_stat (quiet_os (\<lambda>_ _. Some (print_hundredths 109 @ '' '' @ print_hundredths 108
      @ '' '' @ print_hundredths 100 @ '' '' @ ''1/80 112'' @ [newline]))) zero_load boot = Some (Done (l, tick boot))
    \<and> fmt2 (one_min l) = ''1.09''"
  using read_load_stat_roundtrip [where a = 109 and b = 108 and c = 100 and rest = "''1/80 112''" and s = boot
      and os = "quiet_os (\<lambda>_ _. Some (print_hundredths 109 @ '' '' @ print_hundredths 108
      @ '' '' @ print_hundredths 100 @ '' '' @ ''1/80 112'' @ [newline]))" and load = zero_load]
  by (force simp: print_hundredths_def two_digits_def dec.simps text_simps)


subsection \<open>time.c\<close>

definition get_sys_time :: "os \<Rightarrow> st \<Rightarrow> time_t \<times> st" where
  "get_sys_time os s = (os_time os (clock s), tick s)"

end
