(* ===== verification/Net.thy ===== *)
theory Net
  imports Records Common
begin

text \<open>
  \<open>libzsr/dns.c\<close>, \<open>libzsr/gateway.c\<close>, \<open>libzsr/ip.c\<close> and \<open>libzsr/network.c\<close>: the name
  servers, the default gateway of the routing table, the addresses and the traffic
  counters of the network interfaces.
\<close>

subsection \<open>dns.c\<close>

text \<open>\<open>inet_ntoa\<close> of an address given by its bytes in network order.\<close>

definition inet_ntoa :: "nat list \<Rightarrow> string" where
  "inet_ntoa bytes = join ''.'' (map dec bytes)"

definition is_local_host :: "string \<Rightarrow> bool" where
  "is_local_host s \<longleftrightarrow> s = ''0.0.0.0'' \<or> s = ''127.0.0.1'' \<or> s = ''::'' \<or> s = ''::1''"

fun dns_loop :: "nat list list \<Rightarrow> addr \<Rightarrow> st \<Rightarrow> st option" where
  "dns_loop [] head s = Some s"
| "dns_loop (ns # nss) head s =
     (let ret = inet_ntoa ns in
      if \<not> is_local_host ret then do {
        a \<leftarrow> strncpy (dns_addr zero_dns) ret LEN_64;
        s \<leftarrow> add_new (O_dns zero_dns) (O_dns (zero_dns\<lparr>dns_addr := a\<rparr>)) head s;
        dns_loop nss head s
      } else dns_loop nss head s)"

definition get_dns :: "os \<Rightarrow> addr \<Rightarrow> st \<Rightarrow> st option" where
  "get_dns os head s =
     (case os_nameservers os (clock s) of
        None \<Rightarrow> Some (tick s)
      | Some nss \<Rightarrow> dns_loop nss head (tick s))"


subsection \<open>gateway.c\<close>

text \<open>\<open>inet_ntop\<close> reads the first four bytes of the \<open>unsigned long\<close> in memory.\<close>

definition bytes_of :: "u64 \<Rightarrow> nat list" where
  "bytes_of w = map (\<lambda>i. unat w div 256 ^ i mod 256) [0, 1, 2, 3]"

definition scan_route :: "string \<Rightarrow> u64 \<times> u64 \<times> u64" where
  "scan_route buf =
     (let v = (case scan_s buf of None \<Rightarrow> [] | Some (_, r) \<Rightarrow> fst (scan_many scan_lx 3 r))
      in (if 0 < length v then v ! 0 else 0,
          if 1 < length v then v ! 1 else 0,
          if 2 < length v then v ! 2 else 0))"

fun gateway_lines :: "string list \<Rightarrow> gateway_t \<Rightarrow> gateway_t option" where
  "gateway_lines [] gateway = Some gateway"
| "gateway_lines (buf # bufs) gateway =
     (case scan_route buf of (hex_dest, hex_gateway, hex_flag) \<Rightarrow>
        if hex_flag = 3 \<and> hex_dest = 0 \<and> hex_gateway \<noteq> 0 then do {
          a \<leftarrow> strncpy (gw_addr gateway) (inet_ntoa (bytes_of hex_gateway)) LEN_64;
          Some (gateway\<lparr>gw_addr := a\<rparr>)
        } else gateway_lines bufs gateway)"

definition get_gateway :: "os \<Rightarrow> gateway_t \<Rightarrow> st \<Rightarrow> (st, gateway_t \<times> st) result" where
  "get_gateway os gateway s =
     (case fopen os ''/proc/net/route'' s of
        (None, s) \<Rightarrow> bnd (print_log_l os LOG_ERROR (Some ''/proc/net/route'') s) (\<lambda>s. Some (Done (gateway, s)))
      | (Some txt, s) \<Rightarrow>
          bnd (total (gateway_lines (fgets_all LEN_256 txt) gateway)) (\<lambda>g. Some (Done (g, s))))"


subsection \<open>ip.c\<close>

definition INET_ADDRSTRLEN :: nat where "INET_ADDRSTRLEN = 16"
definition INET6_ADDRSTRLEN :: nat where "INET6_ADDRSTRLEN = 46"

text \<open>\<open>strtok(host, "%")\<close>; NULL is handed on to \<open>strncpy\<close>.\<close>

definition strtok_zone :: "string \<Rightarrow> string option" where
  "strtok_zone host = (case strtok_all (\<lambda>c. c = CHR ''%'') host of [] \<Rightarrow> None | t # _ \<Rightarrow> Some t)"

text \<open>
  The loop keeps \<open>node\<close> between rounds. A round whose \<open>getnameinfo\<close> fails frees the node
  but does not clear the pointer, so that the next address writes to freed memory.
\<close>

fun ip_loop :: "os \<Rightarrow> ifaddrs_t list \<Rightarrow> addr \<Rightarrow> addr \<Rightarrow> st \<Rightarrow> st option" where
  "ip_loop os [] head node s = Some s"
| "ip_loop os (ifap # ifaps) head node s =
     (case ifa_addr ifap of
        None \<Rightarrow> ip_loop os ifaps head node s
      | Some sa \<Rightarrow>
          let family = sa_family sa in
          if family \<noteq> AF_INET \<and> family \<noteq> AF_INET6 then ip_loop os ifaps head node s
          else
            let (node, s) = (if node = NULL then malloc (O_interface zero_interface) s else (node, s)) in do {
              r \<leftarrow> obj_at as_interface node s;
              dev \<leftarrow> strncpy (if_dev r) (ifa_name ifap) LEN_64;
              let r = r\<lparr>if_dev := dev, if_ip_ver := (if family = AF_INET then IPv4 else IPv6)\<rparr>;
              s \<leftarrow> set_obj node (O_interface r) s;
              let len = (if family = AF_INET then INET_ADDRSTRLEN else INET6_ADDRSTRLEN);
              case (os_nameinfo os (Some sa) len, os_nameinfo os (ifa_netmask ifap) len) of
                (Some host, Some netmask) \<Rightarrow> do {
                  src \<leftarrow> (if family = AF_INET6 then strtok_zone host else Some host);
                  a \<leftarrow> strncpy (if_ip_addr r) src len;
                  m \<leftarrow> strncpy (if_netmask r) netmask len;
                  s \<leftarrow> set_obj node (O_interface (r\<lparr>if_ip_addr := a, if_netmask := m\<rparr>)) s;
                  s \<leftarrow> on_links (list_add_tail node head) s;
                  ip_loop os ifaps head NULL s
                }
              | _ \<Rightarrow> do {
                  s \<leftarrow> free node s;
                  ip_loop os ifaps head node s
                }
            })"

definition get_ip_addr :: "os \<Rightarrow> addr \<Rightarrow> st \<Rightarrow> st option" where
  "get_ip_addr os head s =
     (case os_ifaddrs os (clock s) of
        None \<Rightarrow> Some (tick s)
      | Some ifs \<Rightarrow> ip_loop os ifs head NULL (tick s))"


subsection \<open>network.c\<close>

fun network_loop :: "ifaddrs_t list \<Rightarrow> addr \<Rightarrow> st \<Rightarrow> st option" where
  "network_loop [] head s = Some s"
| "network_loop (ifap # ifaps) head s =
     (case (ifa_addr ifap, ifa_data ifap) of
        (Some sa, Some stats) \<Rightarrow>
          if sa_family sa \<noteq> AF_PACKET then network_loop ifaps head s
          else do {
            dev \<leftarrow> strncpy (rl_dev zero_link) (ifa_name ifap) LEN_64;
            s \<leftarrow> add_new (O_link zero_link)
                   (O_link (zero_link\<lparr>rl_dev := dev, tx_packet := ucast (ls_tx_packets stats),
                      rx_packet := ucast (ls_rx_packets stats), tx_byte := ucast (ls_tx_bytes stats),
                      rx_byte := ucast (ls_rx_bytes stats)\<rparr>)) head s;
            network_loop ifaps head s
          }
      | _ \<Rightarrow> network_loop ifaps head s)"

definition get_network :: "os \<Rightarrow> addr \<Rightarrow> st \<Rightarrow> st option" where
  "get_network os head s =
     (case os_ifaddrs os (clock s) of
        None \<Rightarrow> Some (tick s)
      | Some ifs \<Rightarrow> network_loop ifs head (tick s))"

text \<open>Nothing is computed for the network.\<close>

definition compute_network_stat :: "addr \<Rightarrow> addr \<Rightarrow> st \<Rightarrow> st" where
  "compute_network_stat cur_list pre_list s = s"

subsection \<open>Name servers\<close>

lemma length_inet_ntoa:
  assumes "length bytes = 4" "\<forall>b\<in>set bytes. b < 256"
  shows "length (inet_ntoa bytes) \<le> 15"
proof -
  obtain a b c d where bytes: "bytes = [a, b, c, d]"
    using assms(1) by (auto simp: numeral_eq_Suc length_Suc_conv)
  have "length (dec x) \<le> 3" if "x \<in> {a, b, c, d}" for x
    using that assms(2) bytes by (intro length_dec) fastforce+
  then have "length (dec a) \<le> 3" "length (dec b) \<le> 3" "length (dec c) \<le> 3" "length (dec d) \<le> 3"
    by blast+
  then show ?thesis
    by (simp add: bytes inet_ntoa_def)
qed

lemma NUL_inet_ntoa: "NUL \<notin> set (inet_ntoa bytes)"
proof -
  have "isdigit c" if "c \<in> set (dec n)" for c n
    using dec_digits [of n] that by (simp add: list_all_iff)
  then show ?thesis
    using set_join [of "''.''" "map dec bytes"] isdigit_not_special unfolding inet_ntoa_def by fastforce
qed

lemma buf_str_inet_ntoa:
  "length bytes = 4 \<Longrightarrow> \<forall>b\<in>set bytes. b < 256 \<Longrightarrow> buf_str (field 64 (inet_ntoa bytes)) = Some (inet_ntoa bytes)"
  using length_inet_ntoa [of bytes] by (intro buf_str_field NUL_inet_ntoa) simp

lemma dns_loop_eq:
  "dns_loop nss head s = add_all (O_dns zero_dns)
     (map O_dns (map (\<lambda>ns. \<lparr>dns_addr = field LEN_64 (inet_ntoa ns)\<rparr>)
        (filter (\<lambda>ns. \<not> is_local_host (inet_ntoa ns)) nss))) head s"
  by (induction nss arbitrary: s)
     (simp_all add: Let_def strncpy_field zero_dns_def chars0_def split: bind_splits)

text \<open>
  \<open>get_dns\<close> appends one record for every configured name server that is not the local
  host, in the resolver's order, each holding its dotted address; it always returns and
  changes no other memory.
\<close>

theorem get_dns_appends:
  assumes "heap_ok s" "holds O_dns s head xs rs" "os_nameservers os (clock s) = Some nss"
    and "\<forall>ns\<in>set nss. length ns = 4 \<and> (\<forall>b\<in>set ns. b < 256)"
  shows "\<exists>s' ys rs'. get_dns os head s = Some s' \<and> holds O_dns s' head (xs @ ys) (rs @ rs')
    \<and> map (buf_str \<circ> dns_addr) rs'
      = map (Some \<circ> inet_ntoa) (filter (\<lambda>ns. \<not> is_local_host (inet_ntoa ns)) nss)
    \<and> heap_ok s' \<and> only (insert head (set xs)) s s'"
proof -
  let ?rs = "map (\<lambda>ns. \<lparr>dns_addr = field LEN_64 (inet_ntoa ns)\<rparr>)
        (filter (\<lambda>ns. \<not> is_local_host (inet_ntoa ns)) nss)"
  obtain s' ys where s': "dns_loop nss head (tick s) = Some s'" "holds O_dns s' head (xs @ ys) (rs @ ?rs)"
    "heap_ok s'" "only (insert head (set xs)) (tick s) s'"
    using k_dns.add_all_holds [of "tick s" head xs rs zero_dns ?rs] assms(1,2) by (auto simp: dns_loop_eq)
  moreover have "only (insert head (set xs)) s s'"
    using only_trans [OF only_memory [OF same_memory_tick] s'(4)] by auto
  moreover have "map (buf_str \<circ> dns_addr) ?rs
      = map (Some \<circ> inet_ntoa) (filter (\<lambda>ns. \<not> is_local_host (inet_ntoa ns)) nss)"
    using assms(4) by (auto intro: buf_str_inet_ntoa)
  ultimately show ?thesis
    using assms(3) unfolding get_dns_def by fastforce
qed

lemma get_dns_appends_witness:
  "\<exists>s' ys rs'. get_dns (quiet_os (\<lambda>_ _. None)\<lparr>os_nameservers := \<lambda>_. Some [[127, 0, 0, 1], [8, 8, 8, 8]]\<rparr>)
      MOD_LIST_HEAD boot_list = Some s' \<and> holds O_dns s' MOD_LIST_HEAD ys rs'
    \<and> map (buf_str \<circ> dns_addr) rs' = [Some ''8.8.8.8'']"
proof -
  have "is_local_host (inet_ntoa [127, 0, 0, 1])" "inet_ntoa [8, 8, 8, 8] = ''8.8.8.8''"
    "\<not> is_local_host ''8.8.8.8''"
    by (simp_all add: inet_ntoa_def is_local_host_def dec.simps text_simps)
  then show ?thesis
    using get_dns_appends [of boot_list MOD_LIST_HEAD "[]" "[]"
        "quiet_os (\<lambda>_ _. None)\<lparr>os_nameservers := \<lambda>_. Some [[127, 0, 0, 1], [8, 8, 8, 8]]\<rparr>"
        "[[127, 0, 0, 1], [8, 8, 8, 8]]"]
    by fastforce
qed


subsection \<open>Network counters\<close>

definition link_record :: "ifaddrs_t \<Rightarrow> link_stats_t \<Rightarrow> rtnl_link_t" where
  "link_record ifap stats = \<lparr>rl_dev = field LEN_64 (ifa_name ifap), tx_packet = ucast (ls_tx_packets stats),
     rx_packet = ucast (ls_rx_packets stats), tx_byte = ucast (ls_tx_bytes stats),
     rx_byte = ucast (ls_rx_bytes stats)\<rparr>"

text \<open>The links among the interfaces: an address of the packet family, with counters.\<close>

definition packet_links :: "ifaddrs_t list \<Rightarrow> (ifaddrs_t \<times> link_stats_t) list" where
  "packet_links ifs = [(i, the (ifa_data i)). i \<leftarrow> ifs,
     ifa_addr i \<noteq> None \<and> sa_family (the (ifa_addr i)) = AF_PACKET \<and> ifa_data i \<noteq> None]"

lemma network_loop_eq:
  "network_loop ifs head s = add_all (O_link zero_link)
     (map O_link (map (\<lambda>(i, d). link_record i d) (packet_links ifs))) head s"
proof (induction ifs arbitrary: s)
  case (Cons i ifs)
  have "strncpy (chars0 LEN_64) (ifa_name i) LEN_64 = Some (field LEN_64 (ifa_name i))"
    by (simp add: strncpy_field chars0_def)
  then show ?case
    using Cons by (auto simp: packet_links_def link_record_def zero_link_def split: option.splits bind_splits)
qed (simp add: packet_links_def)

text \<open>
  \<open>get_network\<close> appends one record for every link of the machine, in the order of
  \<open>getifaddrs\<close>, with the link's name and its four 32-bit counters unchanged in 64 bits; it
  always returns, and changes no other memory.
\<close>

theorem get_network_appends:
  assumes "heap_ok s" "holds O_link s head xs rs" "os_ifaddrs os (clock s) = Some ifs"
    and "\<forall>(i, d)\<in>set (packet_links ifs). NUL \<notin> set (ifa_name i) \<and> length (ifa_name i) < 64"
  shows "\<exists>s' ys rs'. get_network os head s = Some s' \<and> holds O_link s' head (xs @ ys) (rs @ rs')
    \<and> map (\<lambda>r. (buf_str (rl_dev r), unat (tx_packet r), unat (rx_packet r), unat (tx_byte r), unat (rx_byte r))) rs'
      = map (\<lambda>(i, d). (Some (ifa_name i), unat (ls_tx_packets d), unat (ls_rx_packets d),
               unat (ls_tx_bytes d), unat (ls_rx_bytes d))) (packet_links ifs)
    \<and> heap_ok s' \<and> only (insert head (set xs)) s s'"
proof -
  let ?rs = "map (\<lambda>(i, d). link_record i d) (packet_links ifs)"
  obtain s' ys where s': "network_loop ifs head (tick s) = Some s'" "holds O_link s' head (xs @ ys) (rs @ ?rs)"
    "heap_ok s'" "only (insert head (set xs)) (tick s) s'"
    using k_link.add_all_holds [of "tick s" head xs rs zero_link ?rs] assms(1,2) by (auto simp: network_loop_eq)
  moreover have "only (insert head (set xs)) s s'"
    using only_trans [OF only_memory [OF same_memory_tick] s'(4)] by auto
  moreover have "unat (ucast w :: u64) = unat w" for w :: u32
    by transfer (simp add: take_bit_nat_eq_self)
  then have "map (\<lambda>r. (buf_str (rl_dev r), unat (tx_packet r), unat (rx_packet r), unat (tx_byte r), unat (rx_byte r))) ?rs
      = map (\<lambda>(i, d). (Some (ifa_name i), unat (ls_tx_packets d), unat (ls_rx_packets d),
               unat (ls_tx_bytes d), unat (ls_rx_bytes d))) (packet_links ifs)"
    using assms(4) by (auto simp: link_record_def intro!: buf_str_field)
  ultimately show ?thesis
    using assms(3) unfolding get_network_def by fastforce
qed

lemma get_network_appends_witness:
  "\<exists>s' ys rs'. get_network (quiet_os (\<lambda>_ _. None)\<lparr>os_ifaddrs := \<lambda>_. Some [\<lparr>ifa_name = ''em1'',
      ifa_addr = Some \<lparr>sa_family = 17, sa_data = []\<rparr>, ifa_netmask = None,
      ifa_data = Some \<lparr>ls_rx_packets = 1, ls_tx_packets = 2, ls_rx_bytes = 3, ls_tx_bytes = 4\<rparr>\<rparr>]\<rparr>)
      MOD_LIST_HEAD boot_list = Some s' \<and> holds O_link s' MOD_LIST_HEAD ys rs' \<and> map (unat \<circ> tx_byte) rs' = [4]"
proof -
  let ?i = "\<lparr>ifa_name = ''em1'', ifa_addr = Some \<lparr>sa_family = 17, sa_data = []\<rparr>, ifa_netmask = None,
      ifa_data = Some \<lparr>ls_rx_packets = 1, ls_tx_packets = 2, ls_rx_bytes = 3, ls_tx_bytes = 4\<rparr>\<rparr>"
  have p: "packet_links [?i] = [(?i, the (ifa_data ?i))]"
    by (simp add: packet_links_def AF_PACKET_def)
  show ?thesis
    using get_network_appends [of boot_list MOD_LIST_HEAD "[]" "[]"
        "quiet_os (\<lambda>_ _. None)\<lparr>os_ifaddrs := \<lambda>_. Some [?i]\<rparr>" "[?i]"] unfolding p
    by (fastforce simp: map_eq_Cons_conv)
qed

subsection \<open>The routing table\<close>

abbreviation tab :: char where "tab \<equiv> CHR 0x09"

text \<open>A number in \<open>k\<close> hexadecimal digits, as the kernel prints it.\<close>

definition hex_digit :: "nat \<Rightarrow> char" where
  "hex_digit n = (if n < 10 then char_of (48 + n) else char_of (55 + n))"

fun hex_digits :: "nat \<Rightarrow> nat \<Rightarrow> string" where
  "hex_digits 0 n = []"
| "hex_digits (Suc k) n = hex_digits k (n div 16) @ [hex_digit (n mod 16)]"

lemma hex_digit_facts:
  assumes "n < 16"
  shows "isxdigit (hex_digit n)" "xdigit_val (hex_digit n) = n" "hex_digit n \<noteq> CHR ''x''" "hex_digit n \<noteq> CHR ''X''"
proof -
  have "n \<in> {0, 1, 2, 3, 4, 5, 6, 7, 8, 9, 10, 11, 12, 13, 14, 15}"
    using assms by (auto simp: less_Suc_eq numeral_eq_Suc)
  then show "isxdigit (hex_digit n)" "xdigit_val (hex_digit n) = n" "hex_digit n \<noteq> CHR ''x''" "hex_digit n \<noteq> CHR ''X''"
    by (elim insertE; simp add: hex_digit_def isxdigit_def xdigit_val_def isdigit_def digit_val_def
        char_of_def bit_0 bit_numeral_rec)+
qed

lemma hex_digits_facts:
  "length (hex_digits k n) = k"
  "\<forall>c\<in>set (hex_digits k n). isxdigit c \<and> c \<noteq> CHR ''x'' \<and> c \<noteq> CHR ''X''"
  by (induction k arbitrary: n) (auto simp: hex_digit_facts)

lemma nat_of_hex_digits: "nat_of_xdigits (hex_digits k n) = n mod 16 ^ k"
proof (induction k arbitrary: n)
  case (Suc k)
  have "nat_of_xdigits (hex_digits (Suc k) n) = 16 * (n div 16 mod 16 ^ k) + n mod 16"
    using Suc [of "n div 16"] by (simp add: nat_of_xdigits_def hex_digit_facts)
  then show ?case
    by (simp add: mod_mult2_eq)
qed (simp add: nat_of_xdigits_def)

lemma isxdigit_not_special:
  "isxdigit c \<Longrightarrow> \<not> isspace c \<and> c \<noteq> CHR ''-'' \<and> c \<noteq> CHR ''+'' \<and> c \<noteq> NUL \<and> c \<noteq> newline \<and> c \<noteq> tab"
  by (auto simp: isxdigit_def isdigit_def isspace_def)

lemma scan_lx_hex:
  assumes "1 < k" "k \<le> 15"
  shows "scan_lx (tab # hex_digits k n @ tab # rest) = Some (of_nat (n mod 16 ^ k), tab # rest)"
proof -
  let ?h = "hex_digits k n"
  obtain a b r where h: "?h = a # b # r"
    using hex_digits_facts(1) [of k n] assms(1) by (cases ?h; cases "tl ?h") auto
  have all: "\<forall>c\<in>set ?h. isxdigit c \<and> c \<noteq> CHR ''x'' \<and> c \<noteq> CHR ''X''"
    by (rule hex_digits_facts)
  have skip: "dropWhile isspace (tab # ?h @ tab # rest) = ?h @ tab # rest"
    using all h isxdigit_not_special by (auto simp: isspace_def)
  have sign: "scan_sign (?h @ tab # rest) = (False, ?h @ tab # rest)"
    using all h isxdigit_not_special [of a] by (simp add: scan_sign_def)
  have pre: "drop_0x (?h @ tab # rest) = ?h @ tab # rest"
    using all h by (auto simp: drop_0x_def split: list.split)
  have "\<not> isxdigit tab"
    using isxdigit_not_special by blast
  then have tk: "takeWhile isxdigit (?h @ tab # rest) = ?h" "dropWhile isxdigit (?h @ tab # rest) = tab # rest"
    using all by (simp_all add: takeWhile_append dropWhile_append)
  have "(16::nat) ^ k \<le> 16 ^ 15"
    using assms(2) by (intro power_increasing) simp_all
  moreover have "n mod 16 ^ k < (16::nat) ^ k"
    by simp
  ultimately have "n mod 16 ^ k < 16 ^ 15"
    by (rule order.strict_trans2 [rotated])
  then have "n mod 16 ^ k < 2 ^ 64"
    by simp
  moreover have "?h \<noteq> []"
    using h by simp
  ultimately show ?thesis
    using nat_of_hex_digits [of k n] unfolding scan_lx_def skip sign
    by (simp add: pre tk strtoul_def Let_def del: hex_digits.simps)
qed

record route_t =
  rt_iface :: string
  rt_dest :: u32
  rt_gateway :: u32
  rt_flags :: "16 word"
  rt_more :: string

definition route_line :: "route_t \<Rightarrow> string" where
  "route_line r = rt_iface r @ tab # hex_digits 8 (unat (rt_dest r)) @ tab # hex_digits 8 (unat (rt_gateway r))
     @ tab # hex_digits 4 (unat (rt_flags r)) @ tab # rt_more r"

definition route_ok :: "route_t \<Rightarrow> bool" where
  "route_ok r \<longleftrightarrow> rt_iface r \<noteq> '''' \<and> (\<forall>c\<in>set (rt_iface r). \<not> isspace c \<and> c \<noteq> NUL)
     \<and> newline \<notin> set (rt_more r) \<and> NUL \<notin> set (rt_more r)
     \<and> length (rt_iface r) \<le> 20 \<and> length (rt_more r) \<le> 200"

text \<open>Flags up and gateway, destination 0.0.0.0, a gateway.\<close>

definition default_route :: "route_t \<Rightarrow> bool" where
  "default_route r \<longleftrightarrow> rt_flags r = 3 \<and> rt_dest r = 0 \<and> rt_gateway r \<noteq> 0"

lemma scan_route_line:
  assumes "route_ok r"
  shows "scan_route (route_line r @ [newline])
    = (ucast (rt_dest r), ucast (rt_gateway r), ucast (rt_flags r))"
proof -
  have iface: "rt_iface r \<noteq> ''''" "\<forall>c\<in>set (rt_iface r). \<not> isspace c"
    using assms by (simp_all add: route_ok_def)
  let ?rest = "\<lambda>t. tab # t"
  have "isspace tab" by (simp add: isspace_def)
  then have s: "scan_s (rt_iface r @ tab # t) = Some (rt_iface r, tab # t)" for t
    using iface by (cases "rt_iface r") (auto simp: scan_s_def takeWhile_append dropWhile_append)
  have "unat w mod 16 ^ 8 = unat w" for w :: u32
  proof -
    have "unat w < 2 ^ LENGTH(32)" by (rule unsigned_less)
    then show ?thesis by simp
  qed
  moreover have "unat w mod 16 ^ 4 = unat w" for w :: "16 word"
  proof -
    have "unat w < 2 ^ LENGTH(16)" by (rule unsigned_less)
    then show ?thesis by simp
  qed
  ultimately show ?thesis
    by (simp add: scan_route_def route_line_def s scan_lx_hex numeral_3_eq_3 del: hex_digits.simps)
qed

lemma fgets_route_line:
  assumes "route_ok r"
  shows "fgets_all LEN_256 (route_line r @ newline # rest) = (route_line r @ [newline]) # fgets_all LEN_256 rest"
proof -
  have "newline \<notin> set (rt_iface r)" "NUL \<notin> set (rt_iface r)"
    using assms isspace_blank(2) unfolding route_ok_def by blast+
  moreover have "newline \<notin> set (hex_digits k n)" "NUL \<notin> set (hex_digits k n)" for k n
    using hex_digits_facts(2) isxdigit_not_special by blast+
  ultimately show ?thesis
    using assms
    by (intro fgets_all_line)
       (auto simp: route_line_def route_ok_def hex_digits_facts(1) simp del: hex_digits.simps)
qed

lemma ucast_eq_iff:
  fixes w :: u32 and v :: "16 word"
  shows "(ucast w = (0 :: u64)) = (w = 0)" "(ucast v = (3 :: u64)) = (v = 3)"
  by (transfer; simp add: take_bit_eq_mod mod_mod_trivial)+

lemma gateway_lines_routes:
  assumes "\<forall>r\<in>set routes. route_ok r" "length (gw_addr g) = LEN_64"
  shows "gateway_lines (fgets_all LEN_256 (concat (map (\<lambda>r. route_line r @ [newline]) routes))) g
    = Some (case find default_route routes of
        None \<Rightarrow> g
      | Some r \<Rightarrow> g\<lparr>gw_addr := field LEN_64 (inet_ntoa (bytes_of (ucast (rt_gateway r))))\<rparr>)"
  using assms
proof (induction routes)
  case (Cons r routes)
  then show ?case
    by (auto simp: fgets_route_line scan_route_line default_route_def ucast_eq_iff strncpy_field)
qed simp

text \<open>
  C21. On a routing table as the kernel prints it, \<open>get_gateway\<close> stores the dotted address
  of the first default route (flags up and gateway, destination 0, a gateway that is not 0),
  and leaves the record alone if the table has none.
\<close>

theorem get_gateway_first_default:
  assumes "os_file os (clock s) ''/proc/net/route''
      = Some (header @ newline # concat (map (\<lambda>r. route_line r @ [newline]) routes))"
    and "newline \<notin> set header" "NUL \<notin> set header" "length header \<le> 254"
    and "fst (scan_route (header @ [newline])) \<noteq> 0"
    and "\<forall>r\<in>set routes. route_ok r" "length (gw_addr g) = LEN_64"
  shows "\<exists>g'. get_gateway os g s = Some (Done (g', tick s))
    \<and> (case find default_route routes of
         None \<Rightarrow> g' = g
       | Some r \<Rightarrow> buf_str (gw_addr g') = Some (inet_ntoa (bytes_of (ucast (rt_gateway r)))))"
proof -
  let ?g = "case find default_route routes of None \<Rightarrow> g
      | Some r \<Rightarrow> g\<lparr>gw_addr := field LEN_64 (inet_ntoa (bytes_of (ucast (rt_gateway r))))\<rparr>"
  have "fgets_all LEN_256 (header @ newline # t) = (header @ [newline]) # fgets_all LEN_256 t" for t
    using assms(2-4) by (intro fgets_all_line) simp_all
  moreover obtain d w f where "scan_route (header @ [newline]) = (d, w, f)"
    by (cases "scan_route (header @ [newline])")
  ultimately have "get_gateway os g s = Some (Done (?g, tick s))"
    using assms(1,5) gateway_lines_routes [OF assms(6,7)]
    by (simp add: get_gateway_def fopen_def)
  moreover have "buf_str (field 64 (inet_ntoa (bytes_of w))) = Some (inet_ntoa (bytes_of w))" for w
    by (rule buf_str_inet_ntoa) (simp_all add: bytes_of_def)
  ultimately show ?thesis
    by (auto split: option.splits)
qed

definition sample_route :: route_t where
  "sample_route = \<lparr>rt_iface = ''em1'', rt_dest = 0, rt_gateway = 0x010C0A0A, rt_flags = 3, rt_more = ''0''\<rparr>"

lemma sample_gateway: "inet_ntoa (bytes_of 0x010C0A0A) = ''10.10.12.1''"
  by (simp add: inet_ntoa_def bytes_of_def dec.simps text_simps)

lemma get_gateway_first_default_witness:
  "\<exists>g'. get_gateway (quiet_os (\<lambda>_ _. Some (''Iface Destination'' @ newline
      # concat (map (\<lambda>r. route_line r @ [newline]) [sample_route\<lparr>rt_dest := 10, rt_flags := 1\<rparr>, sample_route]))))
      zero_gateway boot = Some (Done (g', tick boot)) \<and> buf_str (gw_addr g') = Some ''10.10.12.1''"
proof -
  have "scan_route (''Iface Destination'' @ [newline]) = (0xDE, 0, 0)"
    by (simp add: scan_route_def scan_s_def scan_lx_def isspace_def isxdigit_def isdigit_def scan_sign_def
        drop_0x_def nat_of_xdigits_def xdigit_val_def strtoul_def numeral_3_eq_3)
  then show ?thesis
    using get_gateway_first_default [where header = "''Iface Destination''" and s = boot and g = zero_gateway
        and routes = "[sample_route\<lparr>rt_dest := 10, rt_flags := 1\<rparr>, sample_route]"
        and os = "quiet_os (\<lambda>_ _. Some (''Iface Destination'' @ newline # concat (map (\<lambda>r. route_line r @ [newline])
            [sample_route\<lparr>rt_dest := 10, rt_flags := 1\<rparr>, sample_route])))"]
    by (simp add: sample_route_def route_ok_def default_route_def isspace_def zero_gateway_def chars0_def
        sample_gateway)
qed


subsection \<open>Interface addresses\<close>

definition inet_addrs :: "ifaddrs_t list \<Rightarrow> ifaddrs_t list" where
  "inet_addrs ifs = [i \<leftarrow> ifs. ifa_addr i \<noteq> None
     \<and> (sa_family (the (ifa_addr i)) = AF_INET \<or> sa_family (the (ifa_addr i)) = AF_INET6)]"

text \<open>What \<open>getnameinfo\<close> answers for an address and its mask; both are C strings that fit.\<close>

definition addr_len :: "sockaddr_t \<Rightarrow> nat" where
  "addr_len sa = (if sa_family sa = AF_INET then INET_ADDRSTRLEN else INET6_ADDRSTRLEN)"

definition named :: "os \<Rightarrow> ifaddrs_t \<Rightarrow> bool" where
  "named os i = (case ifa_addr i of None \<Rightarrow> False | Some sa \<Rightarrow>
     (case (os_nameinfo os (Some sa) (addr_len sa), os_nameinfo os (ifa_netmask i) (addr_len sa)) of
        (Some h, Some m) \<Rightarrow> NUL \<notin> set h \<and> NUL \<notin> set m \<and> length h < addr_len sa \<and> length m < addr_len sa
          \<and> strtok_zone h \<noteq> None
      | _ \<Rightarrow> False))"

definition shown_addr :: "os \<Rightarrow> ifaddrs_t \<Rightarrow> string" where
  "shown_addr os i = (let sa = the (ifa_addr i); h = the (os_nameinfo os (Some sa) (addr_len sa)) in
     if sa_family sa = AF_INET6 then the (strtok_zone h) else h)"

definition shown_mask :: "os \<Rightarrow> ifaddrs_t \<Rightarrow> string" where
  "shown_mask os i = the (os_nameinfo os (ifa_netmask i) (addr_len (the (ifa_addr i))))"

definition shown_ver :: "ifaddrs_t \<Rightarrow> ip_version_t" where
  "shown_ver i = (if sa_family (the (ifa_addr i)) = AF_INET then IPv4 else IPv6)"

text \<open>The record of one address, as the copies leave it.\<close>

definition ip_record :: "os \<Rightarrow> ifaddrs_t \<Rightarrow> interface_t" where
  "ip_record os i = (let n = addr_len (the (ifa_addr i)) in
     \<lparr>if_dev = field LEN_64 (ifa_name i), if_ip_addr = field n (shown_addr os i) @ chars0 (64 - n),
      if_ip_ver = shown_ver i, if_netmask = field n (shown_mask os i) @ chars0 (64 - n)\<rparr>)"

lemma chars0_0: "chars0 0 = []"
  by (simp add: chars0_def)

lemma strncpy_chars0: "n \<le> m \<Longrightarrow> strncpy (chars0 m) src n = Some (field n src @ chars0 (m - n))"
  by (simp add: strncpy_def field_def chars0_def)

lemma buf_str_field_chars0:
  "NUL \<notin> set src \<Longrightarrow> length src < n \<Longrightarrow> buf_str (field n src @ t) = Some src"
proof -
  assume a: "NUL \<notin> set src" "length src < n"
  then obtain m where "n = length src + Suc m"
    using less_imp_Suc_add by fastforce
  then have "field n src = src @ NUL # replicate m NUL"
    by (simp add: field_def)
  with a show ?thesis by (simp add: buf_str_def)
qed

text \<open>One round of the loop that finds an address with its two names is one step of list building.\<close>

lemma set_obj_twice:
  assumes "objs s a = Some ob"
  shows "Option.bind (set_obj a r1 s) (set_obj a r2) = set_obj a r2 s"
  using assms by (simp add: set_obj_def)

lemma ip_loop_round:
  assumes ok: "heap_ok s" and i: "named os i" "i \<in> set (inet_addrs [i])"
  shows "ip_loop os (i # ifaps) head NULL s = do {
      s \<leftarrow> add_new (O_interface zero_interface) (O_interface (ip_record os i)) head s;
      ip_loop os ifaps head NULL s
    }"
proof -
  obtain sa h m where sa: "ifa_addr i = Some sa" "sa_family sa = AF_INET \<or> sa_family sa = AF_INET6"
    and h: "os_nameinfo os (Some sa) (addr_len sa) = Some h" "strtok_zone h \<noteq> None"
    and m: "os_nameinfo os (ifa_netmask i) (addr_len sa) = Some m"
    using i by (auto simp: named_def inet_addrs_def split: option.splits if_splits)
  obtain a s1 where al: "malloc (O_interface zero_interface) s = (a, s1)"
    by (cases "malloc (O_interface zero_interface) s")
  have ob: "objs s1 a = Some (O_interface zero_interface)"
    using malloc_facts(2) [OF al] by simp
  then have "obj_at as_interface a s1 = Some zero_interface"
    by (simp add: obj_at_def as_interface_def)
  moreover have "addr_len sa \<le> 64"
    by (simp add: addr_len_def INET_ADDRSTRLEN_def INET6_ADDRSTRLEN_def)
  moreover obtain t where "strtok_zone h = Some t"
    using h(2) by blast
  ultimately show ?thesis
    using sa h m al ob
    by (auto simp: add_new_def ip_record_def shown_addr_def shown_mask_def shown_ver_def Let_def
        strncpy_chars0 chars0_0 zero_interface_def set_obj_def
        simp flip: addr_len_def split: bind_splits)
qed

lemma ip_loop_named:
  assumes "heap_ok s" "holds O_interface s head xs rs" "\<forall>i\<in>set (inet_addrs ifs). named os i"
  shows "ip_loop os ifs head NULL s = add_all (O_interface zero_interface)
     (map O_interface (map (ip_record os) (inet_addrs ifs))) head s"
  using assms
proof (induction ifs arbitrary: s xs rs)
  case (Cons i ifs)
  have rest: "\<forall>i\<in>set (inet_addrs ifs). named os i"
    using Cons.prems(3) by (auto simp: inet_addrs_def)
  show ?case
  proof (cases "i \<in> set (inet_addrs [i])")
    case True
    then have i: "named os i" "inet_addrs (i # ifs) = i # inet_addrs ifs"
      using Cons.prems(3) by (auto simp: inet_addrs_def split: if_splits)
    obtain s1 where "add_new (O_interface zero_interface) (O_interface (ip_record os i)) head s = Some s1"
      "holds O_interface s1 head (xs @ [brk s]) (rs @ [ip_record os i])" "heap_ok s1"
      using k_interface.add_new_holds [OF Cons.prems(1,2)] by blast
    then show ?thesis
      using Cons.IH [OF _ _ rest] ip_loop_round [OF Cons.prems(1) i(1) True] i(2) by simp
  next
    case False
    then show ?thesis
      using Cons.IH [OF Cons.prems(1,2) rest]
      by (auto simp: inet_addrs_def Let_def split: option.splits if_splits)
  qed
qed (simp add: inet_addrs_def)

text \<open>
  C22. When every address has a numeric name, \<open>get_ip_addr\<close> appends one record for every
  IPv4 or IPv6 address, in the order of \<open>getifaddrs\<close>, with the device, the address (an IPv6
  address without its zone), the netmask and the version.
\<close>

theorem get_ip_addr_appends:
  assumes "heap_ok s" "holds O_interface s head xs rs" "os_ifaddrs os (clock s) = Some ifs"
    and "\<forall>i\<in>set (inet_addrs ifs). named os i \<and> NUL \<notin> set (ifa_name i) \<and> length (ifa_name i) < 64"
    and "\<forall>i\<in>set (inet_addrs ifs). NUL \<notin> set (shown_addr os i) \<and> length (shown_addr os i) < addr_len (the (ifa_addr i))"
  shows "\<exists>s' ys rs'. get_ip_addr os head s = Some s' \<and> holds O_interface s' head (xs @ ys) (rs @ rs')
    \<and> map (\<lambda>r. (buf_str (if_dev r), buf_str (if_ip_addr r), buf_str (if_netmask r), if_ip_ver r)) rs'
      = map (\<lambda>i. (Some (ifa_name i), Some (shown_addr os i), Some (shown_mask os i), shown_ver i)) (inet_addrs ifs)
    \<and> heap_ok s' \<and> only (insert head (set xs)) s s'"
proof -
  let ?rs = "map (ip_record os) (inet_addrs ifs)"
  have "\<forall>i\<in>set (inet_addrs ifs). named os i"
    using assms(4) by blast
  then obtain s' ys where s': "ip_loop os ifs head NULL (tick s) = Some s'"
    "holds O_interface s' head (xs @ ys) (rs @ ?rs)" "heap_ok s'" "only (insert head (set xs)) (tick s) s'"
    using k_interface.add_all_holds [of "tick s" head xs rs zero_interface ?rs] assms(1,2)
      ip_loop_named [of "tick s" head xs rs ifs os] by auto
  moreover have "only (insert head (set xs)) s s'"
    using only_trans [OF only_memory [OF same_memory_tick] s'(4)] by auto
  moreover have "NUL \<notin> set (shown_mask os i) \<and> length (shown_mask os i) < addr_len (the (ifa_addr i))"
    if "i \<in> set (inet_addrs ifs)" for i
  proof -
    have "named os i" using assms(4) that by blast
    then show ?thesis by (auto simp: named_def shown_mask_def split: option.splits)
  qed
  then have "map (\<lambda>r. (buf_str (if_dev r), buf_str (if_ip_addr r), buf_str (if_netmask r), if_ip_ver r)) ?rs
      = map (\<lambda>i. (Some (ifa_name i), Some (shown_addr os i), Some (shown_mask os i), shown_ver i)) (inet_addrs ifs)"
    using assms(4,5) by (simp add: ip_record_def Let_def buf_str_field buf_str_field_chars0)
  ultimately show ?thesis
    using assms(3) unfolding get_ip_addr_def by fastforce
qed

text \<open>An interface with an address of the given family, and a machine that names every address alike.\<close>

definition sample_if :: "int \<Rightarrow> ifaddrs_t" where
  "sample_if family = \<lparr>ifa_name = ''em1'', ifa_addr = Some \<lparr>sa_family = family, sa_data = []\<rparr>,
     ifa_netmask = Some \<lparr>sa_family = family, sa_data = []\<rparr>, ifa_data = None\<rparr>"

definition named_os :: "(sockaddr_t option \<Rightarrow> nat \<Rightarrow> string option) \<Rightarrow> ifaddrs_t list \<Rightarrow> os" where
  "named_os f ifs = quiet_os (\<lambda>_ _. None)\<lparr>os_ifaddrs := \<lambda>_. Some ifs, os_nameinfo := f\<rparr>"

lemma named_os_simps [simp]:
  "os_nameinfo (named_os f ifs) = f" "os_ifaddrs (named_os f ifs) = (\<lambda>_. Some ifs)"
  by (simp_all add: named_os_def)

lemma get_ip_addr_appends_witness:
  "\<exists>s' ys rs'. get_ip_addr (named_os (\<lambda>_ _. Some ''fe80%em1'') [sample_if 17, sample_if 10])
      MOD_LIST_HEAD boot_list = Some s' \<and> holds O_interface s' MOD_LIST_HEAD ys rs'
    \<and> map (\<lambda>r. buf_str (if_ip_addr r)) rs' = [Some ''fe80'']"
proof -
  let ?os = "named_os (\<lambda>_ _. Some ''fe80%em1'') [sample_if 17, sample_if 10]"
  have i: "inet_addrs [sample_if 17, sample_if 10] = [sample_if 10]"
    by (simp add: inet_addrs_def sample_if_def AF_INET_def AF_INET6_def)
  have z: "strtok_zone ''fe80%em1'' = Some ''fe80''"
    by (simp add: strtok_zone_def strtok_all.simps)
  have a: "shown_addr ?os (sample_if 10) = ''fe80''" "named ?os (sample_if 10)"
    by (simp_all add: shown_addr_def named_def z sample_if_def addr_len_def AF_INET_def AF_INET6_def
        INET6_ADDRSTRLEN_def)
  have l: "ifa_name (sample_if 10) = ''em1''" "addr_len (the (ifa_addr (sample_if 10))) = 46"
    by (simp_all add: sample_if_def addr_len_def AF_INET_def INET6_ADDRSTRLEN_def)
  show ?thesis
    using get_ip_addr_appends [of boot_list MOD_LIST_HEAD "[]" "[]" ?os "[sample_if 17, sample_if 10]"]
    by (fastforce simp: i a l map_eq_Cons_conv)
qed

text \<open>An address whose own name or whose mask's name \<open>getnameinfo\<close> does not give.\<close>

definition unnamed :: "os \<Rightarrow> ifaddrs_t \<Rightarrow> bool" where
  "unnamed os i \<longleftrightarrow> (case ifa_addr i of None \<Rightarrow> False | Some sa \<Rightarrow>
     os_nameinfo os (Some sa) (addr_len sa) = None \<or> os_nameinfo os (ifa_netmask i) (addr_len sa) = None)"

lemma inet_addrs_append: "inet_addrs (is @ js) = inet_addrs is @ inet_addrs js"
  by (simp add: inet_addrs_def)

lemma inet_addrs_Cons:
  "inet_addrs (i # is) = (case ifa_addr i of None \<Rightarrow> inet_addrs is | Some sa \<Rightarrow>
     if sa_family sa \<noteq> AF_INET \<and> sa_family sa \<noteq> AF_INET6 then inet_addrs is else i # inet_addrs is)"
  by (auto simp: inet_addrs_def split: option.split)

text \<open>The pointer dangles: it is not null, and what it points to is not allocated.\<close>

lemma ip_loop_dangling:
  "node \<noteq> NULL \<Longrightarrow> objs s node = None \<Longrightarrow> inet_addrs ifs \<noteq> [] \<Longrightarrow> ip_loop os ifs head node s = None"
proof (induction ifs)
  case (Cons i ifs)
  then show ?case
    by (cases "ifa_addr i") (auto simp: inet_addrs_Cons obj_at_def Let_def split: if_splits)
qed (simp add: inet_addrs_def)

text \<open>A round on an address that has no name leaves a dangling pointer.\<close>

lemma ip_loop_unnamed:
  assumes sa: "ifa_addr i = Some sa" "sa_family sa \<in> {AF_INET, AF_INET6}" and un: "unnamed os i"
  shows "\<exists>t. ip_loop os (i # ifs) head NULL s = ip_loop os ifs head (brk s) t \<and> objs t (brk s) = None"
proof -
  obtain s1 where m: "malloc (O_interface zero_interface) s = (brk s, s1)"
    using malloc_facts(1) by (cases "malloc (O_interface zero_interface) s") blast
  have ob: "objs s1 (brk s) = Some (O_interface zero_interface)"
    using malloc_facts(2) [OF m] by simp
  then have at: "obj_at as_interface (brk s) s1 = Some zero_interface"
    by (simp add: obj_at_def as_interface_def)
  have dev: "strncpy (if_dev zero_interface) name LEN_64 = Some (field LEN_64 name)" for name
    by (intro strncpy_field) (simp add: zero_interface_def chars0_def)
  have names: "(case os_nameinfo os (Some sa) (addr_len sa) of None \<Rightarrow> g
      | Some h \<Rightarrow> (case os_nameinfo os (ifa_netmask i) (addr_len sa) of None \<Rightarrow> g | Some m \<Rightarrow> f h m)) = g"
    for f and g :: "st option"
    using un sa(1) by (auto simp: unnamed_def split: option.split)
  have fam: "\<not> (sa_family sa \<noteq> AF_INET \<and> sa_family sa \<noteq> AF_INET6)"
    using sa(2) by auto
  have "\<exists>t. Option.bind (set_obj (brk s) r s1) (\<lambda>t. Option.bind (free (brk s) t) (ip_loop os ifs head (brk s)))
      = ip_loop os ifs head (brk s) t \<and> objs t (brk s) = None" for r
    by (simp add: set_obj_def free_def ob) (rule exI, rule conjI, rule refl, simp)
  then show ?thesis
    unfolding ip_loop.simps(2) sa(1) option.case Let_def if_not_P [OF fam] if_P [OF refl] m prod.case at
      bind.bind_lunit dev names [unfolded addr_len_def] by blast
qed

lemma ip_loop_unnamed_then:
  assumes "ifa_addr i = Some sa" "sa_family sa \<in> {AF_INET, AF_INET6}" "unnamed os i" "0 < brk s" "inet_addrs ifs \<noteq> []"
  shows "ip_loop os (i # ifs) head NULL s = None"
proof -
  obtain t where t: "ip_loop os (i # ifs) head NULL s = ip_loop os ifs head (brk s) t" "objs t (brk s) = None"
    using ip_loop_unnamed [OF assms(1-3)] by blast
  have "brk s \<noteq> NULL"
    using assms(4) by (simp add: NULL_def)
  then show ?thesis
    unfolding t(1) by (rule ip_loop_dangling [OF _ t(2) assms(5)])
qed

text \<open>A round on an address that has both names starts the next one with a null pointer, if it returns.\<close>

lemma ip_loop_not_unnamed:
  assumes sa: "ifa_addr i = Some sa" "sa_family sa \<in> {AF_INET, AF_INET6}" and un: "\<not> unnamed os i" and brk: "0 < brk s"
    and next_none: "\<And>t. 0 < brk t \<Longrightarrow> ip_loop os ifs head NULL t = None"
  shows "ip_loop os (i # ifs) head NULL s = None"
proof -
  obtain a s1 where m: "malloc (O_interface zero_interface) s = (a, s1)"
    by (cases "malloc (O_interface zero_interface) s")
  have brk1: "0 < brk s1"
    using malloc_facts(3) [OF m] brk by simp
  obtain h k where hk: "os_nameinfo os (Some sa) (addr_len sa) = Some h" "os_nameinfo os (ifa_netmask i) (addr_len sa) = Some k"
    using un sa(1) by (auto simp: unnamed_def)
  have fam: "\<not> (sa_family sa \<noteq> AF_INET \<and> sa_family sa \<noteq> AF_INET6)"
    using sa(2) by auto
  have "Option.bind (set_obj a r t) (\<lambda>t. f t) = None" if "0 < brk t" "\<And>t'. 0 < brk t' \<Longrightarrow> f t' = None" for r t and f :: "st \<Rightarrow> st option"
    using that by (cases "objs t a") (simp_all add: set_obj_def)
  moreover have "Option.bind (on_links g t) (ip_loop os ifs head NULL) = None" if "0 < brk t" for g t
    using that next_none by (cases "g (links t)") (simp_all add: on_links_def)
  moreover have "Option.bind q (\<lambda>x. None) = None" for q :: "'x option"
    by (cases q) simp_all
  ultimately show ?thesis
    unfolding ip_loop.simps(2) sa(1) option.case Let_def if_not_P [OF fam] if_P [OF refl] m prod.case
      hk [unfolded addr_len_def]
    using brk1 by simp
qed

text \<open>
  C23. The pointer to the freed node is used again: whenever \<open>getnameinfo\<close> gives no name for an
  IPv4 or IPv6 address of the list, or none for its mask, and another IPv4 or IPv6 address stands
  anywhere after it, \<open>get_ip_addr\<close> writes to freed memory and has no defined result.
\<close>

theorem get_ip_addr_use_after_free:
  assumes "os_ifaddrs os (clock s) = Some (before @ i # between @ j # rest)"
    and "ifa_addr i = Some sa" "sa_family sa \<in> {AF_INET, AF_INET6}"
    and "os_nameinfo os (Some sa) (addr_len sa) = None \<or> os_nameinfo os (ifa_netmask i) (addr_len sa) = None"
    and "ifa_addr j = Some sb" "sa_family sb \<in> {AF_INET, AF_INET6}" "0 < brk s"
  shows "get_ip_addr os head s = None"
proof -
  let ?tail = "between @ j # rest"
  have tail: "inet_addrs ?tail \<noteq> []" "unnamed os i"
    using assms(2,4-6) by (auto simp: inet_addrs_def unnamed_def)
  have "ip_loop os (before @ i # ?tail) head NULL t = None" if "0 < brk t" for t
    using that
  proof (induction before arbitrary: t)
    case Nil
    then show ?case
      unfolding append_Nil by (rule ip_loop_unnamed_then [OF assms(2,3) tail(2) _ tail(1)])
  next
    case (Cons k before)
    have more: "inet_addrs (before @ i # ?tail) \<noteq> []"
      using tail(1) inet_addrs_append [of "before @ [i]" ?tail] by simp
    show ?case
    proof (cases "inet_addrs [k] = []")
      case True
      then have "ip_loop os (k # before @ i # ?tail) head NULL t = ip_loop os (before @ i # ?tail) head NULL t"
        by (cases "ifa_addr k") (auto simp: inet_addrs_Cons Let_def split: if_splits)
      then show ?thesis
        using Cons by simp
    next
      case False
      then obtain sk where sk: "ifa_addr k = Some sk" "sa_family sk \<in> {AF_INET, AF_INET6}"
        by (auto simp: inet_addrs_def split: if_splits)
      show ?thesis
      proof (cases "unnamed os k")
        case True
        show ?thesis
          unfolding append_Cons by (rule ip_loop_unnamed_then [OF sk True Cons.prems more])
      next
        case False
        show ?thesis
          unfolding append_Cons by (rule ip_loop_not_unnamed [OF sk False Cons.prems Cons.IH])
      qed
    qed
  qed
  then show ?thesis
    using assms(1,7) by (simp add: get_ip_addr_def tick_def)
qed

lemma get_ip_addr_use_after_free_witness:
  "get_ip_addr (named_os (\<lambda>_ _. None) [sample_if 17, sample_if 2, sample_if 17, sample_if 10]) MOD_LIST_HEAD boot_list = None"
  by (rule get_ip_addr_use_after_free [where before = "[sample_if 17]" and i = "sample_if 2" and between = "[sample_if 17]"
        and j = "sample_if 10" and rest = "[]" and sa = "\<lparr>sa_family = 2, sa_data = []\<rparr>"
        and sb = "\<lparr>sa_family = 10, sa_data = []\<rparr>"])
     (simp_all add: sample_if_def AF_INET_def AF_INET6_def boot_list_def boot_def)

end
