(* ===== verification/Mod_Single.thy ===== *)
theory Mod_Single
  imports Mod_Common Mem_Swap Uptime_Load Net
begin

text \<open>
  The six modules that keep one record and read it again every time: \<open>mod_gateway.c\<close>,
  \<open>mod_load_avg.c\<close>, \<open>mod_mem.c\<close>, \<open>mod_swap.c\<close>, \<open>mod_time.c\<close> and \<open>mod_uptime.c\<close>. For each of them
  its \<open>collect_record\<close>, the line and the function \<open>record_to_str\<close>, and \<open>free_record_list\<close>.
\<close>

subsection \<open>mod_gateway.c\<close>

definition gateway_collect_record :: "os \<Rightarrow> addr \<Rightarrow> st \<Rightarrow> (st, st) result" where
  "gateway_collect_record os = collect_single O_gateway as_gateway zero_gateway (get_gateway os)"

definition gateway_line :: "gateway_t \<Rightarrow> string option" where
  "gateway_line entry = do {
     a \<leftarrow> buf_str (gw_addr entry);
     Some (report_line (mod_name_of M_gateway) [a])
   }"

definition gateway_record_to_str :: "addr \<Rightarrow> st \<Rightarrow> (u64 \<times> st) option" where
  "gateway_record_to_str = to_str_last sprintf_at as_gateway gateway_line"

definition gateway_free_record_list :: "addr \<Rightarrow> st \<Rightarrow> st option" where
  "gateway_free_record_list head = FREE_LIST_HEAD head"

subsection \<open>mod_load_avg.c\<close>

definition load_avg_collect_record :: "os \<Rightarrow> addr \<Rightarrow> st \<Rightarrow> (st, st) result" where
  "load_avg_collect_record os = collect_single O_load as_load zero_load (read_load_stat os)"

definition load_avg_line :: "load_stat_t \<Rightarrow> string option" where
  "load_avg_line entry = Some (report_line (mod_name_of M_load_avg)
     [fmt2 (one_min entry), fmt2 (five_min entry), fmt2 (fifteen_min entry)])"

definition load_avg_record_to_str :: "addr \<Rightarrow> st \<Rightarrow> (u64 \<times> st) option" where
  "load_avg_record_to_str = to_str_last (snprintf_at LEN_1M) as_load load_avg_line"

definition load_avg_free_record_list :: "addr \<Rightarrow> st \<Rightarrow> st option" where
  "load_avg_free_record_list head = FREE_LIST_HEAD head"

subsection \<open>mod_mem.c\<close>

definition mem_collect_record :: "os \<Rightarrow> addr \<Rightarrow> st \<Rightarrow> (st, st) result" where
  "mem_collect_record os = collect_single O_mem as_mem zero_mem (read_mem_stat os)"

definition mem_line :: "mem_stat_t \<Rightarrow> string option" where
  "mem_line entry = Some (report_line (mod_name_of M_mem)
     [print_lu (mem_total_kb entry), print_lu (mem_used_kb entry), print_lu (mem_free_kb entry)])"

definition mem_record_to_str :: "addr \<Rightarrow> st \<Rightarrow> (u64 \<times> st) option" where
  "mem_record_to_str = to_str_last (snprintf_at LEN_1M) as_mem mem_line"

definition mem_free_record_list :: "addr \<Rightarrow> st \<Rightarrow> st option" where
  "mem_free_record_list head = FREE_LIST_HEAD head"

subsection \<open>mod_swap.c\<close>

definition swap_collect_record :: "os \<Rightarrow> addr \<Rightarrow> st \<Rightarrow> (st, st) result" where
  "swap_collect_record os = collect_single O_swap as_swap zero_swap (read_swap_stat os)"

definition swap_line :: "swap_stat_t \<Rightarrow> string option" where
  "swap_line entry = Some (report_line (mod_name_of M_swap)
     [print_lu (swap_total_kb entry), print_lu (swap_used_kb entry), print_lu (swap_free_kb entry)])"

definition swap_record_to_str :: "addr \<Rightarrow> st \<Rightarrow> (u64 \<times> st) option" where
  "swap_record_to_str = to_str_last (snprintf_at LEN_1M) as_swap swap_line"

definition swap_free_record_list :: "addr \<Rightarrow> st \<Rightarrow> st option" where
  "swap_free_record_list head = FREE_LIST_HEAD head"

subsection \<open>mod_time.c\<close>

definition set_sys_time :: "os \<Rightarrow> sys_time_t \<Rightarrow> st \<Rightarrow> (st, sys_time_t \<times> st) result" where
  "set_sys_time os entry s = (case get_sys_time os s of (t, s) \<Rightarrow> Some (Done (entry\<lparr>time_in_sec := t\<rparr>, s)))"

definition time_collect_record :: "os \<Rightarrow> addr \<Rightarrow> st \<Rightarrow> (st, st) result" where
  "time_collect_record os = collect_single O_time as_time zero_time (set_sys_time os)"

text \<open>The format \<open>%lu\<close> reads the signed time as unsigned.\<close>

definition time_line :: "sys_time_t \<Rightarrow> string option" where
  "time_line entry = Some (report_line (mod_name_of M_time) [print_lu (word_of_int (time_in_sec entry))])"

definition time_record_to_str :: "addr \<Rightarrow> st \<Rightarrow> (u64 \<times> st) option" where
  "time_record_to_str = to_str_last (snprintf_at LEN_1M) as_time time_line"

definition time_free_record_list :: "addr \<Rightarrow> st \<Rightarrow> st option" where
  "time_free_record_list head = FREE_LIST_HEAD head"

subsection \<open>mod_uptime.c\<close>

definition uptime_collect_record :: "os \<Rightarrow> addr \<Rightarrow> st \<Rightarrow> (st, st) result" where
  "uptime_collect_record os = collect_single O_uptime as_uptime zero_uptime (read_uptime_stat os)"

definition uptime_line :: "uptime_t \<Rightarrow> string option" where
  "uptime_line entry = Some (report_line (mod_name_of M_uptime)
     [print_lu (total_sec entry), print_lu (year entry), print_lu (month entry), print_lu (day entry),
      print_lu (hour entry), print_lu (minute entry)])"

definition uptime_record_to_str :: "addr \<Rightarrow> st \<Rightarrow> (u64 \<times> st) option" where
  "uptime_record_to_str = to_str_last (snprintf_at LEN_1M) as_uptime uptime_line"

definition uptime_free_record_list :: "addr \<Rightarrow> st \<Rightarrow> st option" where
  "uptime_free_record_list head = FREE_LIST_HEAD head"


subsection \<open>The readers leave the memory alone\<close>

lemmas reader_defs = fopen_def Let_def bnd_Done_iff

interpretation gateway_module: single_module O_gateway as_gateway 80 zero_gateway get_gateway
  by unfold_locales
     (auto simp: get_gateway_def reader_defs split: option.splits prod.splits
        dest!: print_log_l_memory intro: same_memory_trans [OF same_memory_tick])

interpretation load_avg_module: single_module O_load as_load 32 zero_load read_load_stat
  by unfold_locales
     (auto simp: read_load_stat_def reader_defs split: option.splits prod.splits
        dest!: print_log_l_memory intro: same_memory_trans [OF same_memory_tick])

interpretation mem_module: single_module O_mem as_mem 40 zero_mem read_mem_stat
  by unfold_locales
     (auto simp: read_mem_stat_def reader_defs split: option.splits prod.splits
        dest!: print_log_l_memory intro: same_memory_trans [OF same_memory_tick])

interpretation swap_module: single_module O_swap as_swap 40 zero_swap read_swap_stat
  by unfold_locales
     (auto simp: read_swap_stat_def reader_defs split: option.splits prod.splits
        dest!: print_log_l_memory intro: same_memory_trans [OF same_memory_tick])

interpretation time_module: single_module O_time as_time 24 zero_time set_sys_time
  by unfold_locales (auto simp: set_sys_time_def get_sys_time_def)

interpretation uptime_module: single_module O_uptime as_uptime 64 zero_uptime read_uptime_stat
  by unfold_locales
     (auto simp: read_uptime_stat_def reader_defs split: option.splits prod.splits
        dest!: print_log_l_memory intro: same_memory_trans [OF same_memory_tick])

text \<open>
  C15. A round of the load module prints what the kernel printed: whether or not the module
  has a record yet, \<open>collect_record\<close> and \<open>record_to_str\<close> leave exactly one record in its list, and
  its report is \<open>load_avg=a,b,c;\<close> with the three numbers at the start of \<open>/proc/loadavg\<close>.
\<close>

theorem load_avg_module_round:
  assumes "heap_ok s" "objs s m = Some (O_module md)" "holds O_load s (record_list m) xs rs" "length rs \<le> 1"
    and "os_file os (clock s) ''/proc/loadavg'' = Some (print_hundredths a @ '' '' @ print_hundredths b
      @ '' '' @ print_hundredths c @ '' '' @ rest @ [newline])"
    and "a < 2 ^ 23" "b < 2 ^ 23" "c < 2 ^ 23"
    and "newline \<notin> set rest" "NUL \<notin> set rest" "length rest \<le> 80"
  shows "\<exists>s1 s2 n x r. load_avg_collect_record os m s = Some (Done s1) \<and> load_avg_record_to_str m s1 = Some (n, s2)
    \<and> objs s2 m = Some (O_module (md\<lparr>mod_record := ''load_avg='' @ print_hundredths a @ '','' @ print_hundredths b
         @ '','' @ print_hundredths c @ '';'' @ [newline]\<rparr>))
    \<and> holds O_load s2 (record_list m) [x] [r] \<and> heap_ok s2"
proof -
  let ?w = "''load_avg='' @ print_hundredths a @ '','' @ print_hundredths b @ '','' @ print_hundredths c @ '';'' @ [newline]"
  let ?r = "\<lparr>one_min = rnd32 (of_nat a / 100), five_min = rnd32 (of_nat b / 100), fifteen_min = rnd32 (of_nat c / 100)\<rparr>"
  have reads: "\<exists>s2. read_load_stat os (if rs = [] then zero_load else hd rs) s1 = Some (Done (?r, s2))"
    if "same_env s s1" for s1
    using read_load_stat_prints [of os s1 a b c rest] assms(5-11) that by (simp add: same_env_def)
  have "load_avg_line ?r = Some ?w"
    using assms(6-8) by (simp add: load_avg_line_def report_line_def statics_defs fmt2_rnd32)
  moreover have "length ?w < LEN_1M"
  proof -
    have "length (print_hundredths n) \<le> 10" if "n < 2 ^ 23" for n
      using that length_dec [of "n div 100" 7] by (simp add: print_hundredths_def two_digits_def)
    from this [OF assms(6)] this [OF assms(7)] this [OF assms(8)] show ?thesis
      by simp
  qed
  ultimately show ?thesis
    using load_avg_module.single_round [OF assms(1-4) reads, of "snprintf_at LEN_1M" load_avg_line ?w]
    unfolding load_avg_collect_record_def load_avg_record_to_str_def by auto
qed


theorem load_avg_module_round_witness:
  "\<exists>s1 s2 n x r. load_avg_collect_record (quiet_os (\<lambda>_ _. Some (print_hundredths 109 @ '' '' @ print_hundredths 108
        @ '' '' @ print_hundredths 100 @ '' '' @ ''1/80 112'' @ [newline]))) 4096 (boot_module M_load_avg) = Some (Done s1)
    \<and> load_avg_record_to_str 4096 s1 = Some (n, s2)
    \<and> objs s2 4096 = Some (O_module ((registered M_load_avg)\<lparr>mod_record := ''load_avg=1.09,1.08,1.00;'' @ [newline]\<rparr>))
    \<and> holds O_load s2 (record_list 4096) [x] [r]"
proof -
  have "print_hundredths 109 = ''1.09''" "print_hundredths 108 = ''1.08''" "print_hundredths 100 = ''1.00''"
    by (simp_all add: print_hundredths_def two_digits_def dec.simps text_simps)
  then show ?thesis
    using load_avg_module_round [where a = 109 and b = 108 and c = 100 and rest = "''1/80 112''"
        and s = "boot_module M_load_avg" and m = 4096 and md = "registered M_load_avg" and xs = "[]" and rs = "[]"
        and os = "quiet_os (\<lambda>_ _. Some (''1.09'' @ '' '' @ ''1.08'' @ '' '' @ ''1.00'' @ '' '' @ ''1/80 112'' @ [newline]))"]
    by fastforce
qed

end
