(* ===== verification/Fs_Who.thy ===== *)
theory Fs_Who
  imports Records Common
begin

text \<open>
  \<open>libzsr/fs.c\<close> and \<open>libzsr/who.c\<close>: space and inodes of the mounted file systems, and
  who is logged in.
\<close>

subsection \<open>fs.c\<close>

text \<open>
  All sizes are unsigned; the shares are rounded to two decimals. \<open>None\<close> is the
  undefined conversion in \<open>round_with_prec\<close>.
\<close>

definition fs_share :: "fs_stat_t \<Rightarrow> double" where
  "fs_share node = dsub (Fin 1) (ddiv (dbl_of_u64 (fs_available node)) (dbl_of_u64 (fs_total node)))"

definition set_fs_stat :: "os \<Rightarrow> string \<Rightarrow> fs_stat_t \<Rightarrow> st \<Rightarrow> (fs_stat_t \<times> st) option" where
  "set_fs_stat os dir node s =
     (case os_statfs os (clock s) dir of
        None \<Rightarrow> Some (node, tick s)
      | Some fs \<Rightarrow> do {
          let node = node\<lparr>fs_total := f_blocks fs * f_bsize fs\<rparr>;
          let node = node\<lparr>fs_used := (f_blocks fs - f_bfree fs) * f_bsize fs\<rparr>;
          let node = node\<lparr>fs_available := f_bavail fs * f_bsize fs\<rparr>;
          util \<leftarrow> round_with_prec (fs_share node) 2;
          let node = node\<lparr>fs_util := util\<rparr>;
          let node = node\<lparr>inodes := f_files fs\<rparr>;
          let node = node\<lparr>iused := f_files fs - f_ffree fs\<rparr>;
          let node = node\<lparr>ifree := f_ffree fs\<rparr>;
          util \<leftarrow> round_with_prec (ddiv (dbl_of_u64 (iused node)) (dbl_of_u64 (inodes node))) 2;
          Some (node\<lparr>iutil := util\<rparr>, tick s)
        })"

text \<open>The node is not cleared: what \<open>malloc\<close> returns is arbitrary.\<close>

fun fs_loop :: "os \<Rightarrow> mntent_t list \<Rightarrow> addr \<Rightarrow> st \<Rightarrow> st option" where
  "fs_loop os [] head s = Some s"
| "fs_loop os (mn # mns) head s =
     (if strncmp_eq (me_fsname mn) ''/'' 1 then do {
        let fresh = os_fill os (clock s);
        let (node, s) = malloc (O_fs fresh) s;
        a \<leftarrow> strncpy (mnt_fsname fresh) (me_fsname mn) LEN_1024;
        b \<leftarrow> strncpy (mnt_dir fresh) (me_dir mn) LEN_1024;
        c \<leftarrow> strncpy (mnt_type fresh) (me_type mn) LEN_32;
        (r, s) \<leftarrow> set_fs_stat os (me_dir mn) (fresh\<lparr>mnt_fsname := a, mnt_dir := b, mnt_type := c\<rparr>) s;
        s \<leftarrow> set_obj node (O_fs r) s;
        s \<leftarrow> on_links (list_add_tail node head) s;
        fs_loop os mns head s
      } else fs_loop os mns head s)"

definition read_fs_stat :: "os \<Rightarrow> addr \<Rightarrow> st \<Rightarrow> (st, st) result" where
  "read_fs_stat os head s =
     (case os_mtab os (clock s) of
        None \<Rightarrow> print_log_l os LOG_ERROR (Some ''/etc/mtab'') (tick s)
      | Some mns \<Rightarrow> total (fs_loop os mns head (tick s)))"


subsection \<open>who.c\<close>

definition USER_PROCESS :: int where "USER_PROCESS = 7"

fun login_loop :: "utmp_t list \<Rightarrow> addr \<Rightarrow> st \<Rightarrow> st option" where
  "login_loop [] head s = Some s"
| "login_loop (up # ups) head s =
     (if ut_type up \<noteq> USER_PROCESS then login_loop ups head s
      else do {
        a \<leftarrow> strncpy (lu_user zero_login) (ut_user up) LEN_32;
        b \<leftarrow> strncpy (lu_tty zero_login) (ut_line up) LEN_32;
        c \<leftarrow> strncpy (lu_from zero_login) (ut_host up) LEN_256;
        s \<leftarrow> add_new (O_login zero_login)
               (O_login \<lparr>lu_user = a, lu_tty = b, lu_from = c, login_time = ut_time up\<rparr>) head s;
        login_loop ups head s
      })"

definition get_login_user :: "os \<Rightarrow> addr \<Rightarrow> st \<Rightarrow> st option" where
  "get_login_user os head s = login_loop (os_utmp os (clock s)) head (tick s)"


subsection \<open>Shares of a file system\<close>

lemma ddiv_share:
  assumes "a \<le> n" "0 < n" "n \<le> 2 ^ 64"
  shows "\<exists>q. ddiv (dbl_of_nat a) (dbl_of_nat n) = Fin q \<and> 0 \<le> q \<and> q \<le> 1"
proof -
  have d: "dbl_of_nat a = Fin (rndv (of_nat a))" "dbl_of_nat n = Fin (rndv (of_nat n))"
    using assms by (auto intro: dbl_of_nat_eq)
  have n1: "1 \<le> rndv (of_nat n)"
    using rndv_mono [of 1 "of_nat n"] rndv_of_nat [of 1] assms(2) by simp
  have an: "rndv (of_nat a) \<le> rndv (of_nat n)"
    using assms(1) by (intro rndv_mono) simp_all
  have a0: "0 \<le> rndv (of_nat a)"
    by (intro rndv_nonneg) simp
  define x where "x = rndv (of_nat a) / rndv (of_nat n)"
  have x: "0 \<le> x" "x \<le> 1"
    using n1 an a0 by (simp_all add: x_def divide_le_eq)
  have "rnd x = Fin (rndv x)"
    using x by (intro rnd_eq_rndv) simp_all
  then have "ddiv (dbl_of_nat a) (dbl_of_nat n) = Fin (rndv x)"
    using n1 by (simp add: d x_def)
  moreover have "0 \<le> rndv x" "rndv x \<le> 1"
    using rndv_nonneg [OF x(1)] rndv_mono [OF x] rndv_of_nat [of 1] by simp_all
  ultimately show ?thesis by blast
qed

text \<open>What is printed for a share: whole hundredths, at most 1.00.\<close>

definition hundredths_near :: "double \<Rightarrow> rat \<Rightarrow> bool" where
  "hundredths_near y d \<longleftrightarrow> (\<exists>k\<le>100. fmt2 y = dec (k div 100) @ ''.'' @ two_digits (k mod 100)
     \<and> \<bar>d * 100 - of_nat k\<bar> \<le> 1 / 2 + 1 / 2 ^ 44)"

lemma round_share:
  assumes "0 \<le> q" "q \<le> 1"
  shows "\<exists>y. round_with_prec (Fin q) 2 = Some y \<and> hundredths_near y q"
proof (cases "q = 0")
  case True
  then show ?thesis
    by (intro exI [of _ "Fin 0"])
       (auto simp: round_with_prec_def hundredths_near_def intro!: exI [of _ 0])
next
  case False
  with assms obtain k y where ky: "round_with_prec (Fin q) 2 = Some y"
    "fmt2 y = dec (k div 100) @ ''.'' @ two_digits (k mod 100)" "\<bar>q * 100 - of_nat k\<bar> \<le> 1 / 2 + 1 / 2 ^ 44"
    using round_with_prec_unit [of q] by auto
  then have "(of_nat k :: rat) < of_nat 101"
    using assms unfolding abs_le_iff by simp
  then have "k \<le> 100"
    unfolding of_nat_less_iff by simp
  with ky show ?thesis
    unfolding hundredths_near_def by blast
qed

lemma dsub_share: "0 \<le> q \<Longrightarrow> q \<le> 1 \<Longrightarrow> \<exists>r. dsub (Fin 1) (Fin q) = Fin r \<and> 0 \<le> r \<and> r \<le> 1"
proof -
  assume q: "0 \<le> q" "q \<le> 1"
  then have "rnd (1 - q) = Fin (rndv (1 - q))"
    by (intro rnd_eq_rndv) simp_all
  moreover have "0 \<le> rndv (1 - q)" "rndv (1 - q) \<le> 1"
    using rndv_nonneg [of "1 - q"] rndv_mono [of "1 - q" 1] rndv_of_nat [of 1] q by simp_all
  ultimately show ?thesis by (simp add: dsub_def)
qed

text \<open>A file system with blocks and inodes whose sizes fit 64 bits and agree with each other.\<close>

definition sane_fs :: "statfs_t \<Rightarrow> bool" where
  "sane_fs fs \<longleftrightarrow> unat (f_blocks fs) * unat (f_bsize fs) < 2 ^ 64 \<and> 0 < unat (f_blocks fs)
     \<and> 0 < unat (f_bsize fs) \<and> f_bfree fs \<le> f_blocks fs \<and> f_bavail fs \<le> f_blocks fs
     \<and> f_ffree fs \<le> f_files fs \<and> 0 < unat (f_files fs)"

lemma set_fs_stat_sane:
  assumes "os_statfs os (clock s) dir = Some fs"
    and "sane_fs fs"
  shows "\<exists>r. set_fs_stat os dir node s = Some (r, tick s)
    \<and> unat (fs_total r) = unat (f_blocks fs) * unat (f_bsize fs)
    \<and> unat (fs_used r) = (unat (f_blocks fs) - unat (f_bfree fs)) * unat (f_bsize fs)
    \<and> unat (fs_available r) = unat (f_bavail fs) * unat (f_bsize fs)
    \<and> inodes r = f_files fs \<and> ifree r = f_ffree fs \<and> unat (iused r) = unat (f_files fs) - unat (f_ffree fs)
    \<and> (\<exists>u v. fs_share r = Fin u \<and> hundredths_near (fs_util r) u
         \<and> ddiv (dbl_of_u64 (iused r)) (dbl_of_u64 (inodes r)) = Fin v \<and> hundredths_near (iutil r) v)"
proof -
  note sane = assms(2) [unfolded sane_fs_def]
  have prod: "unat (w * f_bsize fs) = unat w * unat (f_bsize fs)" if "w \<le> f_blocks fs" for w
  proof -
    have "unat w * unat (f_bsize fs) \<le> unat (f_blocks fs) * unat (f_bsize fs)"
      using that by (intro mult_right_mono) (simp_all add: word_le_nat_alt)
    then have "unat w * unat (f_bsize fs) < 2 ^ 64"
      using conjunct1 [OF sane] by (rule order.strict_trans1)
    then show ?thesis
      by (simp add: unat_word_ariths(2))
  qed
  have t: "unat (f_blocks fs * f_bsize fs) = unat (f_blocks fs) * unat (f_bsize fs)"
    "unat (f_bavail fs * f_bsize fs) = unat (f_bavail fs) * unat (f_bsize fs)"
    "unat ((f_blocks fs - f_bfree fs) * f_bsize fs) = (unat (f_blocks fs) - unat (f_bfree fs)) * unat (f_bsize fs)"
    using prod [of "f_blocks fs"] prod [of "f_bavail fs"] prod [of "f_blocks fs - f_bfree fs"] sane
    by (simp_all add: unat_sub word_le_nat_alt)
  have i: "unat (f_files fs - f_ffree fs) = unat (f_files fs) - unat (f_ffree fs)"
    using sane by (intro unat_sub) blast
  obtain q where q: "ddiv (dbl_of_u64 (f_bavail fs * f_bsize fs)) (dbl_of_u64 (f_blocks fs * f_bsize fs)) = Fin q"
    "0 \<le> q" "q \<le> 1"
    using ddiv_share [of "unat (f_bavail fs * f_bsize fs)" "unat (f_blocks fs * f_bsize fs)"] sane
    unfolding dbl_of_u64_def t by (auto simp: word_le_nat_alt)
  obtain u where u: "dsub (Fin 1) (Fin q) = Fin u" "0 \<le> u" "u \<le> 1"
    using dsub_share [OF q(2,3)] by blast
  obtain v where v: "ddiv (dbl_of_u64 (f_files fs - f_ffree fs)) (dbl_of_u64 (f_files fs)) = Fin v" "0 \<le> v" "v \<le> 1"
    using ddiv_share [of "unat (f_files fs - f_ffree fs)" "unat (f_files fs)"] sane unat_u64_less [of "f_files fs"]
    unfolding dbl_of_u64_def i by auto
  obtain y z where yz: "round_with_prec (Fin u) 2 = Some y" "hundredths_near y u"
    "round_with_prec (Fin v) 2 = Some z" "hundredths_near z v"
    using round_share [OF u(2,3)] round_share [OF v(2,3)] by blast
  show ?thesis
    using assms(1) t i q(1) u(1) v(1) yz
    by (simp add: set_fs_stat_def fs_share_def Let_def)
qed

text \<open>
  C27. For a file system with blocks and inodes, whose sizes in bytes fit 64 bits,
  \<open>set_fs_stat\<close> stores the exact sizes and counts, and the two shares print as whole
  hundredths from 0.00 to 1.00, next to one less the share of the available space and to
  the share of the used inodes.
\<close>

theorem set_fs_stat_shares:
  assumes "os_statfs os (clock s) dir = Some fs"
    and "sane_fs fs"
  shows "\<exists>r. set_fs_stat os dir node s = Some (r, tick s)
    \<and> unat (fs_total r) = unat (f_blocks fs) * unat (f_bsize fs)
    \<and> unat (fs_used r) = (unat (f_blocks fs) - unat (f_bfree fs)) * unat (f_bsize fs)
    \<and> unat (fs_available r) = unat (f_bavail fs) * unat (f_bsize fs)
    \<and> inodes r = f_files fs \<and> ifree r = f_ffree fs \<and> unat (iused r) = unat (f_files fs) - unat (f_ffree fs)
    \<and> (\<exists>u v. fs_share r = Fin u \<and> hundredths_near (fs_util r) u
         \<and> ddiv (dbl_of_u64 (iused r)) (dbl_of_u64 (inodes r)) = Fin v \<and> hundredths_near (iutil r) v)"
  using assms by (rule set_fs_stat_sane)

definition sample_statfs :: statfs_t where
  "sample_statfs = \<lparr>f_blocks = 1000, f_bsize = 4096, f_bfree = 300, f_bavail = 250, f_files = 64, f_ffree = 48\<rparr>"

lemma set_fs_stat_shares_witness:
  "\<exists>r. set_fs_stat (quiet_os (\<lambda>_ _. None)\<lparr>os_statfs := \<lambda>_ _. Some sample_statfs\<rparr>) ''/''
      (os_fill (quiet_os (\<lambda>_ _. None)) 0) boot = Some (r, tick boot)
    \<and> unat (fs_used r) = 2867200 \<and> unat (iused r) = 16"
  using set_fs_stat_shares [of "quiet_os (\<lambda>_ _. None)\<lparr>os_statfs := \<lambda>_ _. Some sample_statfs\<rparr>" boot "''/''"
      sample_statfs "os_fill (quiet_os (\<lambda>_ _. None)) 0"]
  by (auto simp: sample_statfs_def sane_fs_def)

text \<open>
  C40. A file system that counts no inodes (as vfat and btrfs) or no blocks has a share
  0/0, a NaN, and rounding it converts the NaN to an integer: \<open>set_fs_stat\<close> has no defined
  result then.
\<close>

theorem set_fs_stat_no_inodes:
  assumes "os_statfs os (clock s) dir = Some fs"
    and "f_files fs = 0 \<and> f_ffree fs = 0 \<or> f_blocks fs = 0 \<and> f_bavail fs = 0"
  shows "set_fs_stat os dir node s = None"
proof -
  have nan: "ddiv (dbl_of_u64 0) (dbl_of_u64 0) = NaN"
    by (simp add: dbl_of_u64_def dbl_of_nat_exact)
  have "round_with_prec (fs_share r) 2 = None" if "fs_available r = 0" "fs_total r = 0" for r
    using that nan round_with_prec_undefined(1) by (simp add: fs_share_def dsub_def)
  moreover have "round_with_prec (ddiv (dbl_of_u64 (0 - 0)) (dbl_of_u64 0)) 2 = None"
    using nan round_with_prec_undefined(1) by simp
  ultimately show ?thesis
    using assms by (auto simp: set_fs_stat_def Let_def split: bind_splits)
qed

lemma set_fs_stat_no_inodes_witness:
  "set_fs_stat (quiet_os (\<lambda>_ _. None)\<lparr>os_statfs := \<lambda>_ _. Some (sample_statfs\<lparr>f_files := 0, f_ffree := 0\<rparr>)\<rparr>) ''/boot/efi''
     (os_fill (quiet_os (\<lambda>_ _. None)) 0) boot = None"
  by (rule set_fs_stat_no_inodes [where fs = "sample_statfs\<lparr>f_files := 0, f_ffree := 0\<rparr>"]) simp_all

subsection \<open>The mounted file systems\<close>

text \<open>The devices among the mounts: their name starts with a slash.\<close>

definition device_mounts :: "mntent_t list \<Rightarrow> mntent_t list" where
  "device_mounts mns = [mn \<leftarrow> mns. \<exists>t. me_fsname mn = CHR ''/'' # t]"

lemma set_fs_stat_names:
  "set_fs_stat os dir node s = Some (r, s') \<Longrightarrow>
     mnt_fsname r = mnt_fsname node \<and> mnt_dir r = mnt_dir node \<and> mnt_type r = mnt_type node"
  by (auto simp: set_fs_stat_def Let_def split: option.splits bind_splits)


lemma malloc_tick: "malloc ob (tick s) = (fst (malloc ob s), tick (snd (malloc ob s)))"
  by (cases s) (simp add: malloc_def tick_def Let_def cong: if_cong)

lemma set_fs_stat_defined:
  assumes "\<forall>t d fs. os_statfs os t d = Some fs \<longrightarrow> sane_fs fs"
  shows "\<exists>r. set_fs_stat os dir node s = Some (r, tick s)"
proof (cases "os_statfs os (clock s) dir")
  case (Some fs)
  then show ?thesis
    using set_fs_stat_sane [OF Some, of node] assms by blast
qed (simp add: set_fs_stat_def)

definition fill_ok :: "os \<Rightarrow> bool" where
  "fill_ok os \<longleftrightarrow> (\<forall>t. length (mnt_fsname (os_fill os t)) = LEN_1024
     \<and> length (mnt_dir (os_fill os t)) = LEN_1024 \<and> length (mnt_type (os_fill os t)) = LEN_32)"

definition fs_names :: "fs_stat_t \<Rightarrow> string \<times> string \<times> string" where
  "fs_names r = (mnt_fsname r, mnt_dir r, mnt_type r)"

definition mount_names :: "mntent_t \<Rightarrow> string \<times> string \<times> string" where
  "mount_names mn = (field LEN_1024 (me_fsname mn), field LEN_1024 (me_dir mn), field LEN_32 (me_type mn))"

lemma fs_loop_appends:
  assumes "\<forall>t d fs. os_statfs os t d = Some fs \<longrightarrow> sane_fs fs" "fill_ok os"
    and "heap_ok s" "holds O_fs s head xs rs"
  shows "\<exists>s' ys rs'. fs_loop os mns head s = Some s' \<and> holds O_fs s' head (xs @ ys) (rs @ rs')
    \<and> map fs_names rs' = map mount_names (device_mounts mns)
    \<and> (\<forall>y\<in>set ys. brk s \<le> y) \<and> heap_ok s' \<and> only (insert head (set xs)) s s'"
  using assms(3,4)
proof (induction mns arbitrary: s xs rs)
  case Nil
  then show ?case
    by (auto simp: device_mounts_def intro!: exI [of _ "[]"])
next
  case (Cons mn mns)
  show ?case
  proof (cases "\<exists>t. me_fsname mn = CHR ''/'' # t")
    case False
    then have "\<not> strncmp_eq (me_fsname mn) ''/'' 1"
      by (cases "me_fsname mn") (auto simp: strncmp_eq_def)
    then show ?thesis
      using Cons False by (simp add: device_mounts_def)
  next
    case True
    then have slash: "strncmp_eq (me_fsname mn) ''/'' 1"
      by (auto simp: strncmp_eq_def)
    let ?f = "os_fill os (clock s)"
    obtain a s1 where m: "malloc (O_fs ?f) s = (a, s1)"
      by (cases "malloc (O_fs ?f) s")
    obtain r where r: "set_fs_stat os (me_dir mn) (?f\<lparr>mnt_fsname := field LEN_1024 (me_fsname mn),
        mnt_dir := field LEN_1024 (me_dir mn), mnt_type := field LEN_32 (me_type mn)\<rparr>) s1 = Some (r, tick s1)"
      using set_fs_stat_defined [OF assms(1)] by blast
    have names: "fs_names r = mount_names mn"
      using set_fs_stat_names [OF r] by (simp add: fs_names_def mount_names_def)
    obtain s2 where s2: "add_new (O_fs ?f) (O_fs r) head (tick s) = Some s2"
      "holds O_fs s2 head (xs @ [brk s]) (rs @ [r])" "heap_ok s2" "only (insert head (set xs)) (tick s) s2"
      using k_fs.add_new_holds [of "tick s" head xs rs ?f r] Cons.prems by (auto simp: heap_simps)
    have run: "fs_loop os (mn # mns) head s = fs_loop os mns head s2"
      using slash m r s2(1) assms(2)
      by (auto simp: fill_ok_def strncpy_field add_new_def malloc_tick Let_def split: bind_splits)
    obtain s3 ys rs' where s3: "fs_loop os mns head s2 = Some s3" "holds O_fs s3 head ((xs @ [brk s]) @ ys) ((rs @ [r]) @ rs')"
      "map fs_names rs' = map mount_names (device_mounts mns)" "\<forall>y\<in>set ys. brk s2 \<le> y" "heap_ok s3"
      "only (insert head (set (xs @ [brk s]))) s2 s3"
      using Cons.IH [OF s2(3,2)] by blast
    have o2: "only (insert head (set xs)) s s2"
      using only_trans [OF only_memory [OF same_memory_tick] s2(4)] by auto
    have "only (insert head (set xs)) s s3"
      by (rule only_trans [OF o2 s3(6)]) auto
    moreover have "\<forall>y\<in>set (brk s # ys). brk s \<le> y"
      using s3(4) o2 by (auto simp: only_def dest: le_trans)
    moreover have "map fs_names (r # rs') = map mount_names (device_mounts (mn # mns))"
      using True s3(3) names by (simp add: device_mounts_def)
    ultimately show ?thesis
      using run s3 by (intro exI [of _ s3] exI [of _ "brk s # ys"] exI [of _ "r # rs'"]) simp
  qed
qed

text \<open>
  C28. On a machine whose file systems all have blocks and inodes, \<open>read_fs_stat\<close> appends
  one record for every mounted device, in the order of \<open>/etc/mtab\<close>, with its name, mount
  point and type, although the nodes come uncleared from \<open>malloc\<close>.
\<close>

theorem read_fs_stat_appends:
  assumes "heap_ok s" "holds O_fs s head xs rs" "os_mtab os (clock s) = Some mns"
    and "\<forall>t d fs. os_statfs os t d = Some fs \<longrightarrow> sane_fs fs" "fill_ok os"
    and "\<forall>m\<in>set mns. NUL \<notin> set (me_fsname m @ me_dir m @ me_type m)
      \<and> length (me_fsname m) < 1024 \<and> length (me_dir m) < 1024 \<and> length (me_type m) < 32"
  shows "\<exists>s' ys rs'. read_fs_stat os head s = Some (Done s') \<and> holds O_fs s' head (xs @ ys) (rs @ rs')
    \<and> map (\<lambda>r. (buf_str (mnt_fsname r), buf_str (mnt_dir r), buf_str (mnt_type r))) rs'
      = map (\<lambda>m. (Some (me_fsname m), Some (me_dir m), Some (me_type m))) (device_mounts mns)
    \<and> heap_ok s' \<and> only (insert head (set xs)) s s'"
proof -
  obtain s' ys rs' where s': "fs_loop os mns head (tick s) = Some s'" "holds O_fs s' head (xs @ ys) (rs @ rs')"
    "map fs_names rs' = map mount_names (device_mounts mns)" "heap_ok s'" "only (insert head (set xs)) (tick s) s'"
    using fs_loop_appends [OF assms(4,5), of "tick s" head xs rs mns] assms(1,2) by auto
  have "map (\<lambda>(a, b, c). (buf_str a, buf_str b, buf_str c)) (map fs_names rs')
      = map (\<lambda>m. (Some (me_fsname m), Some (me_dir m), Some (me_type m))) (device_mounts mns)"
    unfolding s'(3) using assms(6) by (auto simp: mount_names_def device_mounts_def intro!: buf_str_field)
  moreover have "only (insert head (set xs)) s s'"
    using only_trans [OF only_memory [OF same_memory_tick] s'(5)] by auto
  moreover have "map (\<lambda>(a, b, c). (buf_str a, buf_str b, buf_str c)) (map fs_names rs')
      = map (\<lambda>r. (buf_str (mnt_fsname r), buf_str (mnt_dir r), buf_str (mnt_type r))) rs'"
    by (simp add: fs_names_def)
  moreover have "read_fs_stat os head s = Some (Done s')"
    using s'(1) assms(3) by (simp add: read_fs_stat_def)
  ultimately show ?thesis
    using s' by metis
qed

lemma read_fs_stat_appends_witness:
  "\<exists>s' ys rs'. read_fs_stat (quiet_os (\<lambda>_ _. None)\<lparr>os_mtab := \<lambda>_. Some [\<lparr>me_fsname = ''proc'', me_dir = ''/proc'',
        me_type = ''proc''\<rparr>, \<lparr>me_fsname = ''/dev/sda1'', me_dir = ''/'', me_type = ''ext4''\<rparr>],
        os_statfs := \<lambda>_ _. Some sample_statfs\<rparr>) MOD_LIST_HEAD boot_list = Some (Done s')
    \<and> holds O_fs s' MOD_LIST_HEAD ys rs' \<and> map (\<lambda>r. buf_str (mnt_dir r)) rs' = [Some ''/'']"
proof -
  let ?m = "[\<lparr>me_fsname = ''proc'', me_dir = ''/proc'', me_type = ''proc''\<rparr>,
     \<lparr>me_fsname = ''/dev/sda1'', me_dir = ''/'', me_type = ''ext4''\<rparr>]"
  let ?os = "quiet_os (\<lambda>_ _. None)\<lparr>os_mtab := \<lambda>_. Some ?m, os_statfs := \<lambda>_ _. Some sample_statfs\<rparr>"
  have "fill_ok ?os" "sane_fs sample_statfs"
    by (simp_all add: fill_ok_def quiet_os_def chars0_def sample_statfs_def sane_fs_def)
  moreover have "device_mounts ?m = [\<lparr>me_fsname = ''/dev/sda1'', me_dir = ''/'', me_type = ''ext4''\<rparr>]"
    by (simp add: device_mounts_def)
  ultimately show ?thesis
    using read_fs_stat_appends [of boot_list MOD_LIST_HEAD "[]" "[]" ?os ?m]
    by (fastforce simp: map_eq_Cons_conv)
qed


subsection \<open>Logged-in users\<close>

lemma login_loop_eq:
  "login_loop ups head s = add_all (O_login zero_login)
     (map O_login (map (\<lambda>up. \<lparr>lu_user = field LEN_32 (ut_user up), lu_tty = field LEN_32 (ut_line up),
         lu_from = field LEN_256 (ut_host up), login_time = ut_time up\<rparr>)
       (filter (\<lambda>up. ut_type up = USER_PROCESS) ups))) head s"
  by (induction ups arbitrary: s)
     (simp_all add: strncpy_field zero_login_def chars0_def split: bind_splits)

text \<open>
  C29. \<open>get_login_user\<close> appends one record for every entry of type \<open>USER_PROCESS\<close>, in
  the order of the file, with user, terminal, host and time; a user name that fills all 32
  bytes of its field is stored without a terminating NUL, so that printing it runs past
  the field.
\<close>

theorem get_login_user_appends:
  assumes "heap_ok s" "holds O_login s head xs rs" "ups = os_utmp os (clock s)"
    and "\<forall>u\<in>set ups. NUL \<notin> set (ut_user u) \<and> NUL \<notin> set (ut_line u) \<and> NUL \<notin> set (ut_host u)
      \<and> length (ut_user u) \<le> 32 \<and> length (ut_line u) < 32 \<and> length (ut_host u) < 256"
  shows "\<exists>s' ys rs'. get_login_user os head s = Some s' \<and> holds O_login s' head (xs @ ys) (rs @ rs')
    \<and> map (\<lambda>r. (buf_str (lu_user r), buf_str (lu_tty r), buf_str (lu_from r), login_time r)) rs'
      = map (\<lambda>u. (if length (ut_user u) < 32 then Some (ut_user u) else None, Some (ut_line u),
               Some (ut_host u), ut_time u)) (filter (\<lambda>u. ut_type u = USER_PROCESS) ups)
    \<and> heap_ok s' \<and> only (insert head (set xs)) s s'"
proof -
  let ?rs = "map (\<lambda>up. \<lparr>lu_user = field LEN_32 (ut_user up), lu_tty = field LEN_32 (ut_line up),
         lu_from = field LEN_256 (ut_host up), login_time = ut_time up\<rparr>)
       (filter (\<lambda>up. ut_type up = USER_PROCESS) ups)"
  obtain s' ys where s': "login_loop ups head (tick s) = Some s'" "holds O_login s' head (xs @ ys) (rs @ ?rs)"
    "heap_ok s'" "only (insert head (set xs)) (tick s) s'"
    using k_login.add_all_holds [of "tick s" head xs rs zero_login ?rs] assms(1,2) by (auto simp: login_loop_eq)
  moreover have "only (insert head (set xs)) s s'"
    using only_trans [OF only_memory [OF same_memory_tick] s'(4)] by auto
  moreover have full: "buf_str (field 32 t) = None" if "NUL \<notin> set t" "length t = 32" for t
    using that by (auto simp: buf_str_def field_def)
  have "map (\<lambda>r. (buf_str (lu_user r), buf_str (lu_tty r), buf_str (lu_from r), login_time r)) ?rs
      = map (\<lambda>u. (if length (ut_user u) < 32 then Some (ut_user u) else None, Some (ut_line u),
               Some (ut_host u), ut_time u)) (filter (\<lambda>u. ut_type u = USER_PROCESS) ups)"
    using assms(4) full by (auto intro!: buf_str_field)
  ultimately show ?thesis
    using assms(3) unfolding get_login_user_def by fastforce
qed

lemma get_login_user_appends_witness:
  "\<exists>s' ys rs'. get_login_user (quiet_os (\<lambda>_ _. None)\<lparr>os_utmp := \<lambda>_. [\<lparr>ut_type = 2, ut_user = ''reboot'',
        ut_line = '''', ut_host = '''', ut_time = 0\<rparr>, \<lparr>ut_type = 7, ut_user = ''fifi'', ut_line = ''pts/0'',
        ut_host = ''10.10.12.3'', ut_time = 1460000000\<rparr>]\<rparr>) MOD_LIST_HEAD boot_list = Some s'
    \<and> holds O_login s' MOD_LIST_HEAD ys rs' \<and> map (\<lambda>r. buf_str (lu_user r)) rs' = [Some ''fifi'']"
  using get_login_user_appends [of boot_list MOD_LIST_HEAD "[]" "[]"
      "[\<lparr>ut_type = 2, ut_user = ''reboot'', ut_line = '''', ut_host = '''', ut_time = 0\<rparr>,
        \<lparr>ut_type = 7, ut_user = ''fifi'', ut_line = ''pts/0'', ut_host = ''10.10.12.3'', ut_time = 1460000000\<rparr>]"
      "quiet_os (\<lambda>_ _. None)\<lparr>os_utmp := \<lambda>_. [\<lparr>ut_type = 2, ut_user = ''reboot'',
        ut_line = '''', ut_host = '''', ut_time = 0\<rparr>, \<lparr>ut_type = 7, ut_user = ''fifi'', ut_line = ''pts/0'',
        ut_host = ''10.10.12.3'', ut_time = 1460000000\<rparr>]\<rparr>"]
  by (fastforce simp: USER_PROCESS_def map_eq_Cons_conv)

end
