(* ===== verification/Mod_Query.thy ===== *)
theory Mod_Query
  imports Mod_Common Net Fs_Who
begin

text \<open>
  The five modules whose list every query replaces: \<open>mod_dns.c\<close>, \<open>mod_fs.c\<close>, \<open>mod_ip.c\<close>,
  \<open>mod_network.c\<close> and \<open>mod_who.c\<close>.
\<close>

subsection \<open>mod_dns.c\<close>

definition dns_query :: "os \<Rightarrow> addr \<Rightarrow> st \<Rightarrow> (st, st) result" where
  "dns_query os head s = total (get_dns os head s)"

definition dns_collect_record :: "os \<Rightarrow> addr \<Rightarrow> st \<Rightarrow> (st, st) result" where
  "dns_collect_record os = collect_query (dns_query os)"

definition dns_line :: "dns_t \<Rightarrow> string option" where
  "dns_line entry = do {
     a \<leftarrow> buf_str (dns_addr entry);
     Some (report_line (mod_name_of M_dns) [a])
   }"

definition dns_record_to_str :: "addr \<Rightarrow> st \<Rightarrow> (u64 \<times> st) option" where
  "dns_record_to_str = to_str_all sprintf_at as_dns dns_line"

definition dns_free_record_list :: "addr \<Rightarrow> st \<Rightarrow> st option" where
  "dns_free_record_list head = FREE_LIST_HEAD head"

subsection \<open>mod_fs.c\<close>

definition fs_collect_record :: "os \<Rightarrow> addr \<Rightarrow> st \<Rightarrow> (st, st) result" where
  "fs_collect_record os = collect_query (read_fs_stat os)"

definition fs_line :: "fs_stat_t \<Rightarrow> string option" where
  "fs_line entry = do {
     fsname \<leftarrow> buf_str (mnt_fsname entry);
     dir \<leftarrow> buf_str (mnt_dir entry);
     type \<leftarrow> buf_str (mnt_type entry);
     Some (report_line (mod_name_of M_fs)
       [fsname, dir, type, print_lu (fs_total entry), print_lu (fs_used entry), print_lu (fs_available entry),
        fmt2 (fs_util entry), print_lu (inodes entry), print_lu (iused entry), print_lu (ifree entry),
        fmt2 (iutil entry)])
   }"

definition fs_record_to_str :: "addr \<Rightarrow> st \<Rightarrow> (u64 \<times> st) option" where
  "fs_record_to_str = to_str_all (snprintf_at LEN_1M) as_fs fs_line"

definition fs_free_record_list :: "addr \<Rightarrow> st \<Rightarrow> st option" where
  "fs_free_record_list head = FREE_LIST_HEAD head"

subsection \<open>mod_ip.c\<close>

definition ip_query :: "os \<Rightarrow> addr \<Rightarrow> st \<Rightarrow> (st, st) result" where
  "ip_query os head s = total (get_ip_addr os head s)"

definition ip_collect_record :: "os \<Rightarrow> addr \<Rightarrow> st \<Rightarrow> (st, st) result" where
  "ip_collect_record os = collect_query (ip_query os)"

text \<open>The version is printed as the position of its enumeration constant.\<close>

primrec ip_version_rank :: "ip_version_t \<Rightarrow> int" where
  "ip_version_rank IPv4 = 0"
| "ip_version_rank IPv6 = 1"

definition ip_line :: "interface_t \<Rightarrow> string option" where
  "ip_line entry = do {
     dev \<leftarrow> buf_str (if_dev entry);
     a \<leftarrow> buf_str (if_ip_addr entry);
     netmask \<leftarrow> buf_str (if_netmask entry);
     Some (report_line (mod_name_of M_ip) [dev, a, netmask, print_d (ip_version_rank (if_ip_ver entry))])
   }"

definition ip_record_to_str :: "addr \<Rightarrow> st \<Rightarrow> (u64 \<times> st) option" where
  "ip_record_to_str = to_str_all sprintf_at as_interface ip_line"

definition ip_free_record_list :: "addr \<Rightarrow> st \<Rightarrow> st option" where
  "ip_free_record_list head = FREE_LIST_HEAD head"

subsection \<open>mod_network.c\<close>

definition network_query :: "os \<Rightarrow> addr \<Rightarrow> st \<Rightarrow> (st, st) result" where
  "network_query os head s = total (get_network os head s)"

definition network_collect_record :: "os \<Rightarrow> addr \<Rightarrow> st \<Rightarrow> (st, st) result" where
  "network_collect_record os = collect_query (network_query os)"

definition network_line :: "rtnl_link_t \<Rightarrow> string option" where
  "network_line entry = do {
     dev \<leftarrow> buf_str (rl_dev entry);
     Some (report_line (mod_name_of M_network)
       [dev, print_lu (tx_packet entry), print_lu (rx_packet entry), print_lu (tx_byte entry), print_lu (rx_byte entry)])
   }"

definition network_record_to_str :: "addr \<Rightarrow> st \<Rightarrow> (u64 \<times> st) option" where
  "network_record_to_str = to_str_all (snprintf_at LEN_1M) as_link network_line"

definition network_free_record_list :: "addr \<Rightarrow> st \<Rightarrow> st option" where
  "network_free_record_list head = FREE_LIST_HEAD head"

subsection \<open>mod_who.c\<close>

definition who_query :: "os \<Rightarrow> addr \<Rightarrow> st \<Rightarrow> (st, st) result" where
  "who_query os head s = total (get_login_user os head s)"

definition who_collect_record :: "os \<Rightarrow> addr \<Rightarrow> st \<Rightarrow> (st, st) result" where
  "who_collect_record os = collect_query (who_query os)"

definition who_line :: "login_user_t \<Rightarrow> string option" where
  "who_line entry = do {
     user \<leftarrow> buf_str (lu_user entry);
     tty \<leftarrow> buf_str (lu_tty entry);
     from_host \<leftarrow> buf_str (lu_from entry);
     Some (report_line (mod_name_of M_who) [user, tty, from_host, print_d (login_time entry)])
   }"

definition who_record_to_str :: "addr \<Rightarrow> st \<Rightarrow> (u64 \<times> st) option" where
  "who_record_to_str = to_str_all (snprintf_at LEN_1M) as_login who_line"

definition who_free_record_list :: "addr \<Rightarrow> st \<Rightarrow> st option" where
  "who_free_record_list head = FREE_LIST_HEAD head"


subsection \<open>What the queries answer\<close>

definition dns_answers :: "os \<Rightarrow> nat \<Rightarrow> dns_t list \<Rightarrow> bool" where
  "dns_answers os t rs \<longleftrightarrow> rs = (case os_nameservers os t of
      None \<Rightarrow> []
    | Some nss \<Rightarrow> map (\<lambda>ns. \<lparr>dns_addr = field LEN_64 (inet_ntoa ns)\<rparr>)
        (filter (\<lambda>ns. \<not> is_local_host (inet_ntoa ns)) nss))"

definition fs_answers :: "os \<Rightarrow> nat \<Rightarrow> fs_stat_t list \<Rightarrow> bool" where
  "fs_answers os t rs \<longleftrightarrow> map fs_names rs = (case os_mtab os t of
      None \<Rightarrow> []
    | Some mns \<Rightarrow> map mount_names (device_mounts mns))"

definition ip_answers :: "os \<Rightarrow> nat \<Rightarrow> interface_t list \<Rightarrow> bool" where
  "ip_answers os t rs \<longleftrightarrow> rs = (case os_ifaddrs os t of
      None \<Rightarrow> []
    | Some ifs \<Rightarrow> map (ip_record os) (inet_addrs ifs))"

definition network_answers :: "os \<Rightarrow> nat \<Rightarrow> rtnl_link_t list \<Rightarrow> bool" where
  "network_answers os t rs \<longleftrightarrow> rs = (case os_ifaddrs os t of
      None \<Rightarrow> []
    | Some ifs \<Rightarrow> map (\<lambda>(i, d). link_record i d) (packet_links ifs))"

definition who_answers :: "os \<Rightarrow> nat \<Rightarrow> login_user_t list \<Rightarrow> bool" where
  "who_answers os t rs \<longleftrightarrow> rs = map (\<lambda>up. \<lparr>lu_user = field LEN_32 (ut_user up), lu_tty = field LEN_32 (ut_line up),
         lu_from = field LEN_256 (ut_host up), login_time = ut_time up\<rparr>)
       (filter (\<lambda>up. ut_type up = USER_PROCESS) (os_utmp os t))"

text \<open>What the queries of addresses and file systems need to have a defined result.\<close>

definition ip_ready :: "os \<Rightarrow> nat \<Rightarrow> bool" where
  "ip_ready os t \<longleftrightarrow> (\<forall>ifs. os_ifaddrs os t = Some ifs \<longrightarrow> (\<forall>i\<in>set (inet_addrs ifs). named os i))"

definition fs_ready :: "os \<Rightarrow> nat \<Rightarrow> bool" where
  "fs_ready os t \<longleftrightarrow> os_mtab os t \<noteq> None \<and> fill_ok os \<and> (\<forall>t d fs. os_statfs os t d = Some fs \<longrightarrow> sane_fs fs)"

text \<open>All but one of the queries amount to appending their answer.\<close>

lemma query_eqs:
  "dns_answers os (clock s) ds \<Longrightarrow> dns_query os head s = total (add_all (O_dns zero_dns) (map O_dns ds) head (tick s))"
  "network_answers os (clock s) ls \<Longrightarrow>
    network_query os head s = total (add_all (O_link zero_link) (map O_link ls) head (tick s))"
  "who_answers os (clock s) us \<Longrightarrow> who_query os head s = total (add_all (O_login zero_login) (map O_login us) head (tick s))"
  by (simp_all add: dns_answers_def dns_query_def get_dns_def dns_loop_eq network_answers_def network_query_def
      get_network_def network_loop_eq who_answers_def who_query_def get_login_user_def login_loop_eq
      split: option.splits)

lemma ip_query_eq:
  assumes "heap_ok s" "holds O_interface s head xs rs" "ip_ready os (clock s)" "ip_answers os (clock s) is"
  shows "ip_query os head s = total (add_all (O_interface zero_interface) (map O_interface is) head (tick s))"
  using assms ip_loop_named [of "tick s" head xs rs]
  by (auto simp: ip_query_def get_ip_addr_def ip_ready_def ip_answers_def split: option.splits)

interpretation dns_module: query_module O_dns as_dns 80 dns_query "\<lambda>_ _. True" dns_answers
  by unfold_locales (rule k_dns.add_all_query, assumption, assumption, rule query_eqs, simp_all add: dns_answers_def)

interpretation network_module: query_module O_link as_link 112 network_query "\<lambda>_ _. True" network_answers
  by unfold_locales (rule k_link.add_all_query, assumption, assumption, rule query_eqs, simp_all add: network_answers_def)

interpretation who_module: query_module O_login as_login 344 who_query "\<lambda>_ _. True" who_answers
  by unfold_locales (rule k_login.add_all_query, assumption, assumption, rule query_eqs, simp_all add: who_answers_def)

interpretation ip_module: query_module O_interface as_interface 216 ip_query ip_ready ip_answers
  by unfold_locales (rule k_interface.add_all_query, assumption, assumption, rule ip_query_eq, simp_all add: ip_answers_def)

interpretation fs_module: query_module O_fs as_fs 2160 read_fs_stat fs_ready fs_answers
proof unfold_locales
  fix s head xs rs and os :: os
  assume h: "heap_ok s" "holds O_fs s head xs rs" and rdy: "fs_ready os (clock s)"
  then obtain mns where mns: "os_mtab os (clock s) = Some mns"
    by (auto simp: fs_ready_def)
  have "heap_ok (tick s)" "holds O_fs (tick s) head xs rs"
    using h by simp_all
  from fs_loop_appends [OF _ _ this, of os mns] rdy obtain s' ys rs' where s':
    "fs_loop os mns head (tick s) = Some s'" "holds O_fs s' head (xs @ ys) (rs @ rs')"
    "map fs_names rs' = map mount_names (device_mounts mns)" "\<forall>y\<in>set ys. brk s \<le> y" "heap_ok s'"
    "only (insert head (set xs)) (tick s) s'"
    by (auto simp: fs_ready_def heap_simps)
  moreover have "only (insert head (set xs)) s s'"
    using only_trans [OF only_memory [OF same_memory_tick] s'(6)] by auto
  ultimately show "\<exists>s' ys rs'. read_fs_stat os head s = Some (Done s') \<and> holds O_fs s' head (xs @ ys) (rs @ rs')
      \<and> fs_answers os (clock s) rs' \<and> (\<forall>y\<in>set ys. brk s \<le> y) \<and> heap_ok s' \<and> only (insert head (set xs)) s s'"
    using mns by (auto simp: read_fs_stat_def fs_answers_def)
qed

subsection \<open>Rounds\<close>

text \<open>
  C14. A round of the name server module: the list is replaced by the servers configured now
  and the report has one line \<open>dns=ADDRESS;\<close> for each that is not the local host, in order. The
  records of the round before are not freed: they stay allocated, in no list. When only local
  servers are left, \<open>record_to_str\<close> returns \<open>-1\<close> and the report still shows the round before.
\<close>

theorem dns_module_round:
  assumes "heap_ok s" "objs s m = Some (O_module md)" "holds O_dns s (record_list m) xs rs"
    and "os_nameservers os (clock s) = Some nss" "length nss \<le> 3"
    and "\<forall>ns\<in>set nss. length ns = 4 \<and> (\<forall>b\<in>set ns. b < 256)"
  shows "\<exists>s1 s2 n ys rs'. dns_collect_record os m s = Some (Done s1) \<and> dns_record_to_str m s1 = Some (n, s2)
    \<and> objs s2 m = Some (O_module (case filter (\<lambda>ns. \<not> is_local_host (inet_ntoa ns)) nss of
          [] \<Rightarrow> md
        | remote \<Rightarrow> md\<lparr>mod_record := concat (map (\<lambda>ns. ''dns='' @ inet_ntoa ns @ '';'' @ [newline]) remote)\<rparr>))
    \<and> (n = - 1 \<longleftrightarrow> filter (\<lambda>ns. \<not> is_local_host (inet_ntoa ns)) nss = [])
    \<and> holds O_dns s2 (record_list m) ys rs'
    \<and> map (objs s2) xs = map (\<lambda>r. Some (O_dns r)) rs \<and> set xs \<inter> set ys = {}"
proof -
  define remote where "remote = filter (\<lambda>ns. \<not> is_local_host (inet_ntoa ns)) nss"
  let ?r = "\<lambda>ns. \<lparr>dns_addr = field LEN_64 (inet_ntoa ns)\<rparr>"
  let ?w = "\<lambda>ns. ''dns='' @ inet_ntoa ns @ '';'' @ [newline]"
  have ok: "length ns = 4" "\<forall>b\<in>set ns. b < 256" if "ns \<in> set remote" for ns
    using assms(6) that by (auto simp: remote_def)
  have line: "dns_line (?r ns) = Some (?w ns)" if "ns \<in> set remote" for ns
    using buf_str_inet_ntoa [OF ok [OF that]] by (simp add: dns_line_def report_line_def statics_defs)
  have short: "length (concat (map ?w ws)) \<le> 21 * length ws" if "set ws \<subseteq> set remote" for ws
    using that
  proof (induction ws)
    case (Cons ns ws)
    then show ?case using length_inet_ntoa [OF ok, of ns] by simp
  qed simp
  have len: "length (concat (map ?w remote)) < 64"
  proof -
    have "length remote \<le> 3"
      unfolding remote_def by (rule order_trans [OF length_filter_le assms(5)])
    then show ?thesis using short [OF order_refl] by linarith
  qed
  have answer: "rs' = map ?r remote" if "dns_answers os (clock s) rs'" for rs'
    using that assms(4) by (simp add: dns_answers_def remote_def)
  have lines: "\<exists>ws. map dns_line rs' = map Some ws \<and> length (concat ws) < LEN_1M"
    if "dns_answers os (clock s) rs'" for rs'
    using line len by (intro exI [of _ "map ?w remote"]) (auto simp: answer [OF that])
  obtain s1 s2 n ys rs' ws where run: "dns_collect_record os m s = Some (Done s1)" "dns_record_to_str m s1 = Some (n, s2)"
    "dns_answers os (clock s) rs'" "map dns_line rs' = map Some ws"
    "n = (if rs' = [] then - 1 else of_nat (length (concat ws)))"
    "objs s2 m = Some (O_module (if rs' = [] then md else md\<lparr>mod_record := concat ws\<rparr>))"
    "holds O_dns s2 (record_list m) ys rs'" "map (objs s2) xs = map (\<lambda>r. Some (O_dns r)) rs" "set xs \<inter> set ys = {}"
    unfolding dns_collect_record_def dns_record_to_str_def
    using dns_module.query_round [OF assms(1-3) TrueI formats_put(1) lines] by blast
  have "map Some ws = map Some (map ?w remote)"
    using line unfolding run(4) [symmetric] answer [OF run(3)] by simp
  then have ws: "ws = map ?w remote"
    by (rule injD [OF list.inj_map [OF inj_Some]])
  have "n = - 1 \<longleftrightarrow> remote = []"
  proof
    assume "n = - 1"
    show "remote = []"
    proof (rule ccontr)
      assume "remote \<noteq> []"
      then have "(of_nat (length (concat ws)) :: u64) = - 1"
        using run(5) \<open>n = - 1\<close> by (simp add: answer [OF run(3)])
      then have "(of_nat (Suc (length (concat ws))) :: u64) = 0"
        by simp
      then show False
        using unat_of_nat_u64 [of "Suc (length (concat ws))"] len by (simp add: ws)
    qed
  qed (use run(5) in \<open>simp add: answer [OF run(3)]\<close>)
  then show ?thesis
    using run(1,2,6-9) unfolding remote_def [symmetric]
    by (intro exI [of _ s1] exI [of _ s2] exI [of _ n] exI [of _ ys] exI [of _ rs'])
       (simp add: answer [OF run(3)] ws split: list.splits)
qed


theorem dns_module_round_witness:
  "\<exists>s1 s2 n. dns_collect_record (quiet_os (\<lambda>_ _. None)\<lparr>os_nameservers := \<lambda>_. Some [[127, 0, 0, 1], [8, 8, 8, 8]]\<rparr>)
      4096 (boot_module M_dns) = Some (Done s1) \<and> dns_record_to_str 4096 s1 = Some (n, s2)
    \<and> objs s2 4096 = Some (O_module ((registered M_dns)\<lparr>mod_record := ''dns=8.8.8.8;'' @ [newline]\<rparr>))"
proof -
  have "is_local_host (inet_ntoa [127, 0, 0, 1])" "inet_ntoa [8, 8, 8, 8] = ''8.8.8.8''"
    "\<not> is_local_host ''8.8.8.8''"
    by (simp_all add: inet_ntoa_def is_local_host_def dec.simps text_simps)
  then show ?thesis
    using dns_module_round [of "boot_module M_dns" 4096 "registered M_dns" "[]" "[]"
        "quiet_os (\<lambda>_ _. None)\<lparr>os_nameservers := \<lambda>_. Some [[127, 0, 0, 1], [8, 8, 8, 8]]\<rparr>"
        "[[127, 0, 0, 1], [8, 8, 8, 8]]"]
    by fastforce
qed

end
