(* ===== verification/Cpu.thy ===== *)
theory Cpu
  imports Zsr_Log Common "HOL-Library.Sublist"
begin

text \<open>
  \<open>libzsr/cpu.c\<close>: reading the aggregated counters of \<open>/proc/stat\<close>, the shares of idle,
  used and waiting time between two readings, and the number of processors.
\<close>

definition nth_or :: "'a list \<Rightarrow> nat \<Rightarrow> 'a \<Rightarrow> 'a" where
  "nth_or xs i d = (if i < length xs then xs ! i else d)"

text \<open>The \<open>sscanf\<close> of \<open>read_cpu_stat\<close>: it writes the fields it has numbers for.\<close>

definition scan_cpu_stat :: "string \<Rightarrow> cpu_stat_t \<Rightarrow> cpu_stat_t" where
  "scan_cpu_stat t cpu =
     (let v = fst (scan_many scan_lu 10 t) in
      \<lparr>cs_user = nth_or v 0 (cs_user cpu), cs_nice = nth_or v 1 (cs_nice cpu),
       cs_sys = nth_or v 2 (cs_sys cpu), cs_idle = nth_or v 3 (cs_idle cpu),
       cs_iowait = nth_or v 4 (cs_iowait cpu), cs_steal = nth_or v 5 (cs_steal cpu),
       cs_hardirq = nth_or v 6 (cs_hardirq cpu), cs_softirq = nth_or v 7 (cs_softirq cpu),
       cs_guest = nth_or v 8 (cs_guest cpu), cs_number = nth_or v 9 (cs_number cpu)\<rparr>)"

fun read_cpu_lines :: "string list \<Rightarrow> cpu_stat_t \<Rightarrow> cpu_stat_t" where
  "read_cpu_lines [] cpu = cpu"
| "read_cpu_lines (buf # bufs) cpu =
     (if strncmp_eq buf ''cpu '' 4 then scan_cpu_stat (drop 4 buf) cpu
      else read_cpu_lines bufs cpu)"

definition read_cpu_stat :: "os \<Rightarrow> cpu_stat_t \<Rightarrow> st \<Rightarrow> (st, cpu_stat_t \<times> st) result" where
  "read_cpu_stat os cpu s =
     (case fopen os ''/proc/stat'' s of
        (None, s) \<Rightarrow> bnd (print_log_l os LOG_ERROR (Some ''/proc/stat'') s) (\<lambda>s. Some (Done (cpu, s)))
      | (Some txt, s) \<Rightarrow> Some (Done (read_cpu_lines (fgets_all LEN_128 txt) cpu, s)))"

definition sum_cpu_stat :: "cpu_stat_t \<Rightarrow> u64" where
  "sum_cpu_stat c = cs_hardirq c + cs_idle c + cs_iowait c + cs_nice c
     + cs_softirq c + cs_steal c + cs_sys c + cs_user c"

text \<open>
  \<open>compute_cpu_stat\<close> on two possibly null pointers; the result is what the first one
  points to afterwards. The difference of the totals is unsigned, so the test
  \<open>total <= 0\<close> holds for 0 only.
\<close>

definition compute_cpu_stat :: "cpu_t option \<Rightarrow> cpu_t option \<Rightarrow> cpu_t option" where
  "compute_cpu_stat cur_record pre_record =
     (case (cur_record, pre_record) of
        (Some cur, Some pre) \<Rightarrow>
          (let cs = cpu_stat cur; ps = cpu_stat pre;
               cur_total = sum_cpu_stat cs; pre_total = sum_cpu_stat ps;
               total = cur_total - pre_total
           in if pre_total = 0 then Some cur
              else if total \<le> 0 then Some cur
              else
                let idle = ddiv (dmul (dbl_of_u64 ((cs_idle cs - cs_idle ps) + (cs_steal cs - cs_steal ps)))
                                  (Fin 100)) (dbl_of_u64 total)
                in Some (cur\<lparr>cpu_idle := idle,
                           cpu_util := dsub (Fin 100) idle,
                           cpu_wa := ddiv (dmul (dbl_of_u64 (cs_iowait cs - cs_iowait ps)) (Fin 100))
                                       (dbl_of_u64 total)\<rparr>))
      | _ \<Rightarrow> cur_record)"

text \<open>
  The loop of \<open>get_num_of_cpu\<close>: \<open>cpu_num\<close> has no value before the first conversion
  that succeeds (\<open>None\<close>), and reading it then is undefined.
\<close>

fun num_of_cpu_lines :: "string list \<Rightarrow> int option \<Rightarrow> int \<Rightarrow> int option" where
  "num_of_cpu_lines [] cpu_num num_of_cpu = Some num_of_cpu"
| "num_of_cpu_lines (line # lines) cpu_num num_of_cpu =
     (if \<not> strncmp_eq line ''cpu '' 4 \<and> strncmp_eq line ''cpu'' 3 then
        let cpu_num = (case scan_d (drop 3 line) of Some (n, _) \<Rightarrow> Some n | None \<Rightarrow> cpu_num) in
        case cpu_num of
          None \<Rightarrow> None
        | Some n \<Rightarrow> num_of_cpu_lines lines (Some n) (if n > num_of_cpu then n else num_of_cpu)
      else num_of_cpu_lines lines cpu_num num_of_cpu)"

definition get_num_of_cpu :: "os \<Rightarrow> st \<Rightarrow> (st, u32 \<times> st) result" where
  "get_num_of_cpu os s =
     (case fopen os ''/proc/stat'' s of
        (None, s) \<Rightarrow>
          bnd (print_log os LOG_FATAL ''cpu.c'' 96
                 (''Cannot open /proc/stat: '' @ os_strerror os (clock s) @ [newline]) s)
            (\<lambda>s. Some (Exit 1 s))
      | (Some txt, s) \<Rightarrow>
          bnd (total (num_of_cpu_lines (fgets_all 16 txt) None (- 1)))
            (\<lambda>n. Some (Done (word_of_int (n + 1), s))))"


subsection \<open>Reading back what the kernel prints\<close>

text \<open>
  The ten columns of a line of \<open>/proc/stat\<close>, by the names and in the order of the kernel's
  documentation: the sixth is the time in interrupts, the seventh in soft interrupts, the eighth
  the time stolen by a hypervisor.
\<close>

record kernel_cpu_t =
  kc_user :: u64
  kc_nice :: u64
  kc_system :: u64
  kc_idle :: u64
  kc_iowait :: u64
  kc_irq :: u64
  kc_softirq :: u64
  kc_steal :: u64
  kc_guest :: u64
  kc_guest_nice :: u64

definition stat_fields :: "kernel_cpu_t \<Rightarrow> u64 list" where
  "stat_fields k = [kc_user k, kc_nice k, kc_system k, kc_idle k, kc_iowait k, kc_irq k,
     kc_softirq k, kc_steal k, kc_guest k, kc_guest_nice k]"

text \<open>What the record holds after such a line: the fields 6 to 8 are named in another order.\<close>

definition stat_stored :: "kernel_cpu_t \<Rightarrow> cpu_stat_t" where
  "stat_stored k = \<lparr>cs_user = kc_user k, cs_nice = kc_nice k, cs_sys = kc_system k, cs_idle = kc_idle k,
     cs_iowait = kc_iowait k, cs_steal = kc_irq k, cs_hardirq = kc_softirq k, cs_softirq = kc_steal k,
     cs_guest = kc_guest k, cs_number = kc_guest_nice k\<rparr>"

lemma scan_cpu_stat_print: "scan_cpu_stat (print_lus (stat_fields k) @ [newline]) d = stat_stored k"
proof -
  have "scan_many scan_lu 10 (print_lus (stat_fields k) @ [newline]) = (stat_fields k, [newline])"
    by (rule scan_many_print_lus) (simp_all add: stat_fields_def)
  then show ?thesis
    by (simp add: scan_cpu_stat_def nth_or_def stat_fields_def stat_stored_def)
qed

lemma print_lus_clean: "c \<in> set (print_lus ws) \<Longrightarrow> isdigit c \<or> c = CHR '' ''"
  using dec_digits by (auto simp: print_lus_def print_lu_def list_all_iff split: if_splits)

lemma read_cpu_lines_cpu:
  assumes "length (print_lus (stat_fields k)) \<le> 122"
  shows "read_cpu_lines (fgets_all LEN_128 (''cpu '' @ print_lus (stat_fields k) @ newline # rest)) d = stat_stored k"
proof -
  let ?l = "''cpu '' @ print_lus (stat_fields k)"
  have "newline \<notin> set ?l" "NUL \<notin> set ?l"
    using print_lus_clean [of _ "stat_fields k"] isdigit_not_special by fastforce+
  then have "fgets_all LEN_128 (?l @ newline # rest) = (?l @ [newline]) # fgets_all LEN_128 rest"
    using assms by (intro fgets_all_line) simp_all
  then show ?thesis
    by (simp add: strncmp_eq_def scan_cpu_stat_print)
qed

text \<open>
  All ten columns of the first line of \<open>/proc/stat\<close> are read, whatever follows it.
\<close>

lemma read_cpu_stat_line:
  assumes "os_file os (clock s) ''/proc/stat'' = Some (''cpu '' @ print_lus (stat_fields k) @ newline # rest)"
    and "length (print_lus (stat_fields k)) \<le> 122"
  shows "read_cpu_stat os d s = Some (Done (stat_stored k, tick s))"
  using assms read_cpu_lines_cpu [of k rest d] by (simp add: read_cpu_stat_def fopen_def)

lemma length_print_lus:
  assumes "\<forall>w\<in>set ws. unat w < 10 ^ k" "0 < k"
  shows "length (print_lus ws) \<le> (k + 1) * length ws"
  using assms
proof (induction ws rule: induct_list012)
  case (2 w)
  then show ?case
    using length_dec [of "unat w" k] by (simp add: print_lus_def print_lu_def)
next
  case (3 w v ws)
  have "length (print_lus (w # v # ws)) = Suc (length (print_lu w) + length (print_lus (v # ws)))"
    by simp
  then show ?case
    using 3(2) 3(3,4) length_dec [of "unat w" k] by (simp add: print_lu_def)
qed simp


subsection \<open>Shares of the time between two readings\<close>

definition tick_sum :: "cpu_stat_t \<Rightarrow> nat" where
  "tick_sum c = unat (cs_hardirq c) + unat (cs_idle c) + unat (cs_iowait c) + unat (cs_nice c)
     + unat (cs_softirq c) + unat (cs_steal c) + unat (cs_sys c) + unat (cs_user c)"

text \<open>No counter went back.\<close>

definition counters_le :: "cpu_stat_t \<Rightarrow> cpu_stat_t \<Rightarrow> bool" where
  "counters_le p c \<longleftrightarrow> cs_hardirq p \<le> cs_hardirq c \<and> cs_idle p \<le> cs_idle c \<and> cs_iowait p \<le> cs_iowait c
     \<and> cs_nice p \<le> cs_nice c \<and> cs_softirq p \<le> cs_softirq c \<and> cs_steal p \<le> cs_steal c
     \<and> cs_sys p \<le> cs_sys c \<and> cs_user p \<le> cs_user c"

lemma sum_cpu_stat_nat: "tick_sum c < 2 ^ 64 \<Longrightarrow> unat (sum_cpu_stat c) = tick_sum c"
proof -
  have "sum_cpu_stat c = of_nat (tick_sum c)"
    by (simp add: sum_cpu_stat_def tick_sum_def)
  then show "tick_sum c < 2 ^ 64 \<Longrightarrow> unat (sum_cpu_stat c) = tick_sum c"
    by (simp add: unat_of_nat_u64)
qed

lemma counters_le_tick_sum: "counters_le p c \<Longrightarrow> tick_sum p \<le> tick_sum c"
  by (simp add: counters_le_def tick_sum_def word_le_nat_alt)

lemma share_of_total:
  assumes "a \<le> d" "0 < d" "d < 2 ^ 46"
  shows "ddiv (dmul (dbl_of_nat a) (Fin 100)) (dbl_of_nat d) = Fin (rndv (100 * of_nat a / of_nat d))"
    "0 \<le> rndv (100 * of_nat a / of_nat d)" "rndv (100 * of_nat a / of_nat d) \<le> 100"
proof -
  have a: "dbl_of_nat a = Fin (of_nat a)" "dbl_of_nat d = Fin (of_nat d)"
    using assms by (intro dbl_of_nat_exact; simp)+
  have "rnd (of_nat a * 100) = Fin (of_nat a * 100)"
  proof -
    have "(of_nat (a * 100) :: rat) \<le> of_nat (2 ^ 64)"
      using assms by (simp only: of_nat_le_iff) simp
    also have "\<dots> \<le> 2 ^ 1000" by simp
    finally show ?thesis
      using rndv_of_nat [of "a * 100"] assms rnd_eq_rndv [of "of_nat (a * 100)"] by simp
  qed
  moreover have q: "(0::rat) \<le> 100 * of_nat a / of_nat d" "(100 * of_nat a / of_nat d :: rat) \<le> 100"
    using assms by (simp_all add: divide_le_eq)
  moreover from q have "rnd (100 * of_nat a / of_nat d) = Fin (rndv (100 * of_nat a / of_nat d))"
    by (intro rnd_eq_rndv) simp_all
  ultimately show "ddiv (dmul (dbl_of_nat a) (Fin 100)) (dbl_of_nat d) = Fin (rndv (100 * of_nat a / of_nat d))"
    using assms(2) a by (simp add: mult.commute)
  show "0 \<le> rndv (100 * of_nat a / of_nat d)"
    using q(1) by (rule rndv_nonneg)
  show "rndv (100 * of_nat a / of_nat d) \<le> 100"
    using rndv_mono [OF q] by (simp add: rndv_numeral)
qed

lemma compute_cpu_stat_shares:
  fixes cur pre :: cpu_t
  defines "D \<equiv> \<lambda>f. unat (f (cpu_stat cur)) - unat (f (cpu_stat pre))"
    and "T \<equiv> tick_sum (cpu_stat cur) - tick_sum (cpu_stat pre)"
  defines "i \<equiv> rndv (100 * of_nat (D cs_idle + D cs_steal) / of_nat T)"
    and "w \<equiv> rndv (100 * of_nat (D cs_iowait) / of_nat T)"
  assumes le: "counters_le (cpu_stat pre) (cpu_stat cur)"
    and first: "0 < tick_sum (cpu_stat pre)" and fits: "tick_sum (cpu_stat cur) < 2 ^ 64"
    and T: "0 < T" "T < 2 ^ 46"
  shows "compute_cpu_stat (Some cur) (Some pre)
      = Some (cur\<lparr>cpu_idle := Fin i, cpu_util := Fin (rndv (100 - i)), cpu_wa := Fin w\<rparr>)"
    "0 \<le> i" "i \<le> 100" "0 \<le> w" "w \<le> 100" "0 \<le> rndv (100 - i)" "rndv (100 - i) \<le> 100"
proof -
  let ?c = "cpu_stat cur" and ?p = "cpu_stat pre"
  have sum: "unat (sum_cpu_stat ?c) = tick_sum ?c" "unat (sum_cpu_stat ?p) = tick_sum ?p"
    using fits counters_le_tick_sum [OF le] by (simp_all add: sum_cpu_stat_nat)
  then have total: "unat (sum_cpu_stat ?c - sum_cpu_stat ?p) = T"
    using counters_le_tick_sum [OF le] by (simp add: T_def unat_sub word_le_nat_alt)
  have p0: "sum_cpu_stat ?p \<noteq> 0" and t_nz: "\<not> sum_cpu_stat ?c - sum_cpu_stat ?p \<le> 0"
    using sum(2) first total T by (auto simp: word_le_nat_alt)
  have idle_le: "D cs_idle + D cs_steal \<le> T" and wa_le: "D cs_iowait \<le> T"
    using le by (auto simp: D_def T_def counters_le_def tick_sum_def word_le_nat_alt)
  have d: "unat (f ?c - f ?p) = D f" if "f ?p \<le> f ?c" for f
    using that by (simp add: D_def unat_sub)
  have idle: "unat ((cs_idle ?c - cs_idle ?p) + (cs_steal ?c - cs_steal ?p)) = D cs_idle + D cs_steal"
  proof -
    have "D cs_idle + D cs_steal < 2 ^ 64"
      using idle_le T(2) by simp
    then show ?thesis
      using le by (simp add: unat_word_ariths(1) d counters_le_def)
  qed
  have wa: "unat (cs_iowait ?c - cs_iowait ?p) = D cs_iowait"
    using le by (simp add: d counters_le_def)
  note i = share_of_total [OF idle_le T, folded i_def]
  note w = share_of_total [OF wa_le T, folded w_def]
  have "rnd (100 - i) = Fin (rndv (100 - i))"
    using i by (intro rnd_eq_rndv) simp_all
  then have "dsub (Fin 100) (Fin i) = Fin (rndv (100 - i))"
    by (simp add: dsub_def)
  then show "compute_cpu_stat (Some cur) (Some pre)
      = Some (cur\<lparr>cpu_idle := Fin i, cpu_util := Fin (rndv (100 - i)), cpu_wa := Fin w\<rparr>)"
    using p0 t_nz i(1) w(1)
    by (simp add: compute_cpu_stat_def Let_def dbl_of_u64_def idle wa total)
  show "0 \<le> i" "i \<le> 100" "0 \<le> w" "w \<le> 100"
    using i w by simp_all
  show "0 \<le> rndv (100 - i)" "rndv (100 - i) \<le> 100"
    using rndv_nonneg [of "100 - i"] rndv_mono [of "100 - i" 100] i by (simp_all add: rndv_numeral)
qed

subsection \<open>Counting processors\<close>

text \<open>A text in which no line names a processor leaves the count alone.\<close>

lemma num_of_cpu_lines_skip:
  "\<forall>b\<in>set bs. \<not> strncmp_eq b ''cpu'' 3 \<Longrightarrow>
   num_of_cpu_lines (bs @ cs) a k = num_of_cpu_lines cs a k"
  by (induction bs) simp_all

lemma num_of_cpu_lines_none:
  "\<forall>b\<in>set bs. \<not> strncmp_eq b ''cpu'' 3 \<Longrightarrow> num_of_cpu_lines bs a k = Some k"
  using num_of_cpu_lines_skip [of bs "[]"] by simp

lemma fgets_all_no_cpu:
  assumes "\<not> sublist ''cpu'' txt" "b \<in> set (fgets_all n txt)"
  shows "\<not> strncmp_eq b ''cpu'' 3"
proof
  assume c: "strncmp_eq b ''cpu'' 3"
  obtain k m where b: "b = cstr (take m (drop k txt))"
    using fgets_all_piece [OF assms(2)] by blast
  obtain u where "b = ''cpu'' @ u"
    using c append_take_drop_id [of 3 b] unfolding strncmp_eq_def by simp metis
  moreover have "sublist b (take m (drop k txt))"
    unfolding b cstr_def by (intro prefix_imp_sublist takeWhile_is_prefix)
  moreover have "sublist (take m (drop k txt)) txt"
    by (meson sublist_drop sublist_order.order.trans sublist_take)
  ultimately have "sublist ''cpu'' txt"
    by (meson prefixI prefix_imp_sublist sublist_order.order.trans)
  with assms(1) show False ..
qed

text \<open>The rest of a long line, cut into pieces of 15 characters, is skipped.\<close>

lemma num_of_cpu_lines_tail:
  assumes "CHR ''c'' \<notin> set u" "newline \<notin> set u" "NUL \<notin> set u"
  shows "num_of_cpu_lines (fgets_all 16 (u @ newline # rest)) a k = num_of_cpu_lines (fgets_all 16 rest) a k"
  using assms
proof (induction u rule: length_induct)
  case (1 u)
  have no: "\<not> strncmp_eq v ''cpu'' 3" if "CHR ''c'' \<notin> set v" for v
    using that by (cases v) (auto simp: strncmp_eq_def)
  show ?case
  proof (cases "length u \<le> 14")
    case True
    then have "fgets_all 16 (u @ newline # rest) = (u @ [newline]) # fgets_all 16 rest"
      using 1 by (intro fgets_all_line) simp_all
    then show ?thesis
      using no [of "u @ [newline]"] 1 by simp
  next
    case False
    then have "fgets_all 16 (u @ newline # rest) = take 15 u # fgets_all 16 (drop 15 u @ newline # rest)"
      using 1 fgets_all_chunk [of u 16 rest] by simp
    moreover have "CHR ''c'' \<notin> set (take 15 u)"
      using 1(2) by (meson in_set_takeD)
    moreover have "num_of_cpu_lines (fgets_all 16 (drop 15 u @ newline # rest)) a k
        = num_of_cpu_lines (fgets_all 16 rest) a k"
    proof -
      have "length (drop 15 u) < length u" using False by simp
      moreover have "x \<notin> set (drop 15 u)" if "x \<notin> set u" for x
        using that by (meson in_set_dropD)
      ultimately show ?thesis using 1 by blast
    qed
    ultimately show ?thesis
      using no [of "take 15 u"] by simp
  qed
qed

text \<open>A line of \<open>/proc/stat\<close> for one processor: its number, a blank, its counters.\<close>

definition cpu_line :: "nat \<Rightarrow> string \<Rightarrow> string" where
  "cpu_line i t = ''cpu'' @ dec i @ CHR '' '' # t"

definition plain_text :: "string \<Rightarrow> bool" where
  "plain_text t \<longleftrightarrow> CHR ''c'' \<notin> set t \<and> newline \<notin> set t \<and> NUL \<notin> set t"

lemma scan_d_dec:
  assumes "n < 2 ^ 31" "rest = [] \<or> \<not> isdigit (hd rest)"
  shows "scan_d (dec n @ rest) = Some (int n, rest)"
proof -
  have "scan_digits (dec n @ rest) = Some ((False, n), rest)"
    using scan_digits_dec [of "[]" rest n] assms by simp
  moreover have "strtol False n = int n"
    using assms(1) by (simp add: strtol_def)
  moreover have "signed_take_bit 31 (int n) = int n"
    using assms(1) by (simp add: signed_take_bit_int_eq_self)
  ultimately show ?thesis
    by (simp add: scan_d_def)
qed

lemma num_of_cpu_lines_step:
  assumes "i < 10 ^ 8" "plain_text t"
  shows "num_of_cpu_lines (fgets_all 16 (cpu_line i t @ newline # rest)) a k
    = num_of_cpu_lines (fgets_all 16 rest) (Some (int i)) (if int i > k then int i else k)"
proof -
  have len: "length (dec i) \<le> 8"
    using length_dec [of i 8] assms(1) by simp
  have digit: "isdigit c" if "c \<in> set (dec i)" for c
    using dec_digits [of i] that by (simp add: list_all_iff)
  have d1: "hd (dec i @ CHR '' '' # t) \<noteq> CHR '' ''"
    using dec_hd [of i] isdigit_not_special by (cases "dec i") auto
  let ?u = "cpu_line i t"
  have clean: "newline \<notin> set ?u" "NUL \<notin> set ?u"
    using assms(2) digit isdigit_not_special unfolding cpu_line_def plain_text_def by fastforce+
  have c: "CHR ''c'' \<notin> set (dec i)"
    using digit by (force simp: isdigit_def)
  have use: "num_of_cpu_lines ((''cpu'' @ dec i @ CHR '' '' # v) # bs) a k
      = num_of_cpu_lines bs (Some (int i)) (if int i > k then int i else k)" for v bs
  proof -
    have "\<not> strncmp_eq (''cpu'' @ dec i @ CHR '' '' # v) ''cpu '' 4"
      using d1 by (cases "dec i") (auto simp: strncmp_eq_def)
    moreover have "scan_d (dec i @ CHR '' '' # v) = Some (int i, CHR '' '' # v)"
      using assms(1) by (intro scan_d_dec) simp_all
    ultimately show ?thesis
      by (simp add: strncmp_eq_def)
  qed
  show ?thesis
  proof (cases "length ?u \<le> 14")
    case True
    then have "fgets_all 16 (?u @ newline # rest) = (?u @ [newline]) # fgets_all 16 rest"
      using clean by (intro fgets_all_line) simp_all
    then show ?thesis
      using use [of "t @ [newline]" "fgets_all 16 rest"] by (simp add: cpu_line_def)
  next
    case False
    then have "fgets_all 16 (?u @ newline # rest) = take 15 ?u # fgets_all 16 (drop 15 ?u @ newline # rest)"
      using clean fgets_all_chunk [of ?u 16 rest] by simp
    moreover have "take 15 ?u = ''cpu'' @ dec i @ CHR '' '' # take (11 - length (dec i)) t"
      using len by (simp add: cpu_line_def take_Cons' Suc_diff_le)
    moreover have "plain_text (drop 15 ?u)"
    proof -
      have "drop 15 ?u = drop (11 - length (dec i)) t"
        using len by (simp add: cpu_line_def drop_Cons' Suc_diff_le)
      then show ?thesis
        using assms(2) by (auto simp: plain_text_def dest: in_set_dropD)
    qed
    ultimately show ?thesis
      using use num_of_cpu_lines_tail [of "drop 15 ?u"] by (simp add: plain_text_def)
  qed
qed

lemma num_of_cpu_lines_cpus:
  assumes "n \<le> 10 ^ 8" "\<forall>i<n. plain_text (t i)" "\<not> sublist ''cpu'' rest" "k \<le> n"
  shows "num_of_cpu_lines (fgets_all 16 (concat (map (\<lambda>i. cpu_line i (t i) @ [newline]) [k..<n]) @ rest))
    a (int k - 1) = Some (int n - 1)"
  using assms(4)
proof (induction "n - k" arbitrary: k a)
  case 0
  then show ?case
    using fgets_all_no_cpu [OF assms(3)] by (simp add: num_of_cpu_lines_none)
next
  case (Suc m)
  then have "k < n" "m = n - Suc k" by simp_all
  then show ?case
    using Suc(1) [of "Suc k" "Some (int k)"] num_of_cpu_lines_step [of k "t k"] assms(1,2)
    by (simp add: upt_conv_Cons)
qed

text \<open>
  C20. The processors are counted right: on a \<open>/proc/stat\<close> that starts with the summary
  line, goes on with the lines of processors 0 to \<open>n - 1\<close> and then names no processor
  any more, \<open>get_num_of_cpu\<close> returns \<open>n\<close> (0 for a kernel that lists none), although
  its buffer of 16 bytes cuts every such line into pieces.
\<close>

theorem get_num_of_cpu_counts:
  assumes "os_file os (clock s) ''/proc/stat'' = Some ((''cpu '' @ total_t @ [newline])
      @ concat (map (\<lambda>i. cpu_line i (t i) @ [newline]) [0..<n]) @ rest)"
    and "n \<le> 10 ^ 8" "plain_text total_t" "\<forall>i<n. plain_text (t i)" "\<not> sublist ''cpu'' rest"
  shows "get_num_of_cpu os s = Some (Done (of_nat n, tick s))"
proof -
  let ?r = "concat (map (\<lambda>i. cpu_line i (t i) @ [newline]) [0..<n]) @ rest"
  have head: "num_of_cpu_lines (fgets_all 16 ((''cpu '' @ total_t) @ newline # ?r)) None (- 1)
      = num_of_cpu_lines (fgets_all 16 ?r) None (- 1)"
  proof (cases "length total_t \<le> 10")
    case True
    then have "fgets_all 16 ((''cpu '' @ total_t) @ newline # ?r) = ((''cpu '' @ total_t) @ [newline]) # fgets_all 16 ?r"
      using assms(3) by (intro fgets_all_line) (simp_all add: plain_text_def)
    then show ?thesis
      by (simp add: strncmp_eq_def)
  next
    case False
    then have "fgets_all 16 ((''cpu '' @ total_t) @ newline # ?r)
        = take 15 (''cpu '' @ total_t) # fgets_all 16 (drop 15 (''cpu '' @ total_t) @ newline # ?r)"
      using assms(3) fgets_all_chunk [of "''cpu '' @ total_t" 16 ?r] by (simp add: plain_text_def)
    moreover have "plain_text (drop 11 total_t)"
      using assms(3) by (auto simp: plain_text_def dest: in_set_dropD)
    ultimately show ?thesis
      using num_of_cpu_lines_tail [of "drop 11 total_t"] by (simp add: strncmp_eq_def plain_text_def)
  qed
  have "num_of_cpu_lines (fgets_all 16 ((''cpu '' @ total_t) @ newline # ?r)) None (- 1) = Some (int n - 1)"
    unfolding head using num_of_cpu_lines_cpus [of n t rest 0 None] assms by simp
  then show ?thesis
    using assms(1) by (simp add: get_num_of_cpu_def fopen_def)
qed

lemma get_num_of_cpu_counts_witness:
  "get_num_of_cpu (quiet_os (\<lambda>_ _. Some (''cpu  90 1 2 3'' @ [newline] @ ''cpu0 40 1 2 3'' @ [newline]
     @ ''cpu1 50'' @ [newline] @ ''intr 5'' @ [newline]))) boot = Some (Done (2, tick boot))"
proof -
  have "\<not> sublist ''cpu'' (''intr 5'' @ [newline])"
    by code_simp
  then show ?thesis
    using get_num_of_cpu_counts [where n = 2 and total_t = "'' 90 1 2 3''" and rest = "''intr 5'' @ [newline]"
        and t = "\<lambda>i. if i = 0 then ''40 1 2 3'' else ''50''" and s = boot]
    by (simp add: plain_text_def cpu_line_def numeral_2_eq_2 dec.simps digit_char_eval)
qed

text \<open>
  C19. What is read of the summary line of \<open>/proc/stat\<close>, for counters below \<open>10\<^sup>1\<^sup>1\<close> and
  whatever follows in the file: user, nice, system, idle, iowait, guest and guest_nice time arrive in the
  fields meant for them, but the code takes the columns 6 to 8 in another order than the kernel
  prints them, so that the field \<open>steal\<close> gets the interrupt time, \<open>hardirq\<close> the soft
  interrupts and \<open>softirq\<close> the stolen time. The total of \<open>sum_cpu_stat\<close> is right all the same.
\<close>

theorem read_cpu_stat_roundtrip:
  assumes "os_file os (clock s) ''/proc/stat'' = Some (''cpu '' @ print_lus (stat_fields k) @ newline # rest)"
    and "\<forall>w\<in>set (stat_fields k). unat w < 10 ^ 11"
  shows "\<exists>c. read_cpu_stat os d s = Some (Done (c, tick s))
    \<and> [cs_user c, cs_nice c, cs_sys c, cs_idle c, cs_iowait c, cs_guest c, cs_number c]
      = [kc_user k, kc_nice k, kc_system k, kc_idle k, kc_iowait k, kc_guest k, kc_guest_nice k]
    \<and> cs_steal c = kc_irq k \<and> cs_hardirq c = kc_softirq k \<and> cs_softirq c = kc_steal k
    \<and> unat (sum_cpu_stat c) = unat (kc_user k) + unat (kc_nice k) + unat (kc_system k) + unat (kc_idle k)
        + unat (kc_iowait k) + unat (kc_irq k) + unat (kc_softirq k) + unat (kc_steal k)"
proof -
  have "length (print_lus (stat_fields k)) \<le> 120"
    using length_print_lus [of "stat_fields k" 11] assms(2) by (simp add: stat_fields_def)
  then have "read_cpu_stat os d s = Some (Done (stat_stored k, tick s))"
    using assms(1) by (intro read_cpu_stat_line) simp_all
  moreover have "tick_sum (stat_stored k) < 2 ^ 64"
    using assms(2) by (simp add: tick_sum_def stat_stored_def stat_fields_def)
  ultimately show ?thesis
    by (simp add: sum_cpu_stat_nat) (simp add: tick_sum_def stat_stored_def)
qed

definition sample_stat :: cpu_stat_t where
  "sample_stat = \<lparr>cs_user = 700, cs_nice = 10, cs_sys = 90, cs_idle = 9000, cs_iowait = 150,
     cs_steal = 0, cs_hardirq = 0, cs_softirq = 50, cs_guest = 0, cs_number = 0\<rparr>"

definition sample_kernel :: kernel_cpu_t where
  "sample_kernel = \<lparr>kc_user = 700, kc_nice = 10, kc_system = 90, kc_idle = 9000, kc_iowait = 150,
     kc_irq = 3, kc_softirq = 50, kc_steal = 7, kc_guest = 0, kc_guest_nice = 0\<rparr>"

lemma read_cpu_stat_roundtrip_witness:
  "\<exists>c. read_cpu_stat (quiet_os (\<lambda>_ _. Some (''cpu '' @ print_lus (stat_fields sample_kernel) @ newline # ''intr 5'')))
     zero_cpu_stat boot = Some (Done (c, tick boot)) \<and> cs_steal c = 3 \<and> cs_hardirq c = 50 \<and> cs_softirq c = 7"
  using read_cpu_stat_roundtrip [where k = sample_kernel and rest = "''intr 5''" and s = boot and d = zero_cpu_stat
      and os = "quiet_os (\<lambda>_ _. Some (''cpu '' @ print_lus (stat_fields sample_kernel) @ newline # ''intr 5''))"]
  by (fastforce simp: stat_fields_def sample_kernel_def)

text \<open>
  The consequence for the report: a machine that spends the whole interval in interrupts is
  reported as 100 percent idle, one that has all its time stolen as fully used.
\<close>

lemma interrupts_count_as_idle:
  "compute_cpu_stat (Some (zero_cpu\<lparr>cpu_stat := stat_stored (sample_kernel\<lparr>kc_irq := 103\<rparr>)\<rparr>))
      (Some (zero_cpu\<lparr>cpu_stat := stat_stored sample_kernel\<rparr>))
    = Some (zero_cpu\<lparr>cpu_stat := stat_stored (sample_kernel\<lparr>kc_irq := 103\<rparr>),
        cpu_idle := Fin 100, cpu_util := Fin 0, cpu_wa := Fin 0\<rparr>)"
  "compute_cpu_stat (Some (zero_cpu\<lparr>cpu_stat := stat_stored (sample_kernel\<lparr>kc_steal := 107\<rparr>)\<rparr>))
      (Some (zero_cpu\<lparr>cpu_stat := stat_stored sample_kernel\<rparr>))
    = Some (zero_cpu\<lparr>cpu_stat := stat_stored (sample_kernel\<lparr>kc_steal := 107\<rparr>),
        cpu_idle := Fin 0, cpu_util := Fin 100, cpu_wa := Fin 0\<rparr>)"
  by (simp_all add: compute_cpu_stat_def sum_cpu_stat_def sample_kernel_def stat_stored_def zero_cpu_def Let_def
      dbl_of_u64_def dbl_of_nat_def dsub_def double_simps)

text \<open>
  C9. Between two readings in which no counter went back and the machine ran for less than
  \<open>2\<^sup>4\<^sup>6\<close> ticks, \<open>compute_cpu_stat\<close> sets \<open>idle\<close>, \<open>util\<close> and \<open>wa\<close> to numbers
  between 0 and 100, \<open>idle\<close> and \<open>wa\<close> being the correctly rounded percentages of the ticks
  in the fields \<open>idle\<close> and \<open>steal\<close>, and in \<open>iowait\<close>, and \<open>util\<close> what \<open>idle\<close> leaves of 100; nothing else of
  the record changes.
\<close>

theorem compute_cpu_stat_percentages:
  assumes "counters_le (cpu_stat pre) (cpu_stat cur)" "0 < tick_sum (cpu_stat pre)"
    and "tick_sum (cpu_stat cur) < 2 ^ 64"
    and "T = tick_sum (cpu_stat cur) - tick_sum (cpu_stat pre)" "0 < T" "T < 2 ^ 46"
  shows "\<exists>i u w. compute_cpu_stat (Some cur) (Some pre)
      = Some (cur\<lparr>cpu_idle := Fin i, cpu_util := Fin u, cpu_wa := Fin w\<rparr>)
    \<and> i = rndv (100 * of_nat (unat (cs_idle (cpu_stat cur)) - unat (cs_idle (cpu_stat pre))
               + (unat (cs_steal (cpu_stat cur)) - unat (cs_steal (cpu_stat pre)))) / of_nat T)
    \<and> u = rndv (100 - i)
    \<and> w = rndv (100 * of_nat (unat (cs_iowait (cpu_stat cur)) - unat (cs_iowait (cpu_stat pre))) / of_nat T)
    \<and> 0 \<le> i \<and> i \<le> 100 \<and> 0 \<le> u \<and> u \<le> 100 \<and> 0 \<le> w \<and> w \<le> 100"
  using compute_cpu_stat_shares [of pre cur, folded assms(4)] assms(1-3,5,6) by blast

lemma compute_cpu_stat_percentages_witness:
  "\<exists>i u w. compute_cpu_stat
      (Some (zero_cpu\<lparr>cpu_stat := sample_stat\<lparr>cs_user := 740, cs_idle := 9060\<rparr>\<rparr>))
      (Some (zero_cpu\<lparr>cpu_stat := sample_stat\<rparr>))
    = Some (zero_cpu\<lparr>cpu_stat := sample_stat\<lparr>cs_user := 740, cs_idle := 9060\<rparr>,
        cpu_idle := Fin i, cpu_util := Fin u, cpu_wa := Fin w\<rparr>)
    \<and> i \<le> 100 \<and> u \<le> 100 \<and> w \<le> 100"
  using compute_cpu_stat_percentages [of "zero_cpu\<lparr>cpu_stat := sample_stat\<rparr>"
      "zero_cpu\<lparr>cpu_stat := sample_stat\<lparr>cs_user := 740, cs_idle := 9060\<rparr>\<rparr>" 100]
  by (force simp: counters_le_def tick_sum_def sample_stat_def zero_cpu_def)

text \<open>
  The kernel's \<open>iowait\<close> counter may go back. The difference then wraps and the test for
  an overflow, on the unsigned total, does not see it: an \<open>iowait\<close> that is 10 ticks lower
  among 100 ticks is reported as \<open>2\<^sup>6\<^sup>4\<close> percent.
\<close>

lemma iowait_backwards:
  "compute_cpu_stat
      (Some (zero_cpu\<lparr>cpu_stat := sample_stat\<lparr>cs_user := 810, cs_iowait := 140\<rparr>\<rparr>))
      (Some (zero_cpu\<lparr>cpu_stat := sample_stat\<rparr>))
    = Some (zero_cpu\<lparr>cpu_stat := sample_stat\<lparr>cs_user := 810, cs_iowait := 140\<rparr>,
        cpu_idle := Fin 0, cpu_util := Fin 100, cpu_wa := Fin (2 ^ 64)\<rparr>)"
  by (simp add: compute_cpu_stat_def sum_cpu_stat_def sample_stat_def zero_cpu_def Let_def
      dbl_of_u64_def dbl_of_nat_def dsub_def double_simps)

end
