(* ===== verification/Io.thy ===== *)
theory Io
  imports Cpu Records
begin

text \<open>
  \<open>libzsr/io.c\<close>: the counters of the block devices in \<open>/proc/diskstats\<close>, the clocks they
  are set against, and the rates between two readings of a device. The statics \<open>HZ\<close> and
  \<open>NUM_OF_CPU\<close> of the file are fields of the state.
\<close>

subsection \<open>Clocks\<close>

definition get_HZ :: "os \<Rightarrow> st \<Rightarrow> (st, st) result" where
  "get_HZ os s =
     (let ticks = os_clk_tck os (clock s) in
      if ticks = - 1 then
        Some (Exit 1 (tick (fputs_err (''sysconf: '' @ os_strerror os (clock s) @ [newline]) s)))
      else Some (Done ((tick s)\<lparr>HZ := word_of_int ticks\<rparr>)))"

definition get_cpu_time_in_jiffies :: "os \<Rightarrow> st \<Rightarrow> (st, u64 \<times> st) result" where
  "get_cpu_time_in_jiffies os s =
     bnd (read_cpu_stat os zero_cpu_stat s) (\<lambda>(stat, s). Some (Done (sum_cpu_stat stat, s)))"

text \<open>
  \<open>sscanf(line, "%lu.%lu", ...)\<close>: both variables are used afterwards, so that a line
  without both numbers has no defined result (\<open>None\<close>).
\<close>

definition scan_uptime :: "string \<Rightarrow> (u64 \<times> u64) option" where
  "scan_uptime line =
     (case scan_lu line of
        Some (up_sec, CHR ''.'' # r) \<Rightarrow> (case scan_lu r of Some (up_cent, _) \<Rightarrow> Some (up_sec, up_cent) | None \<Rightarrow> None)
      | _ \<Rightarrow> None)"

definition read_uptime_in_jiffies :: "os \<Rightarrow> st \<Rightarrow> (u64 \<times> st) option" where
  "read_uptime_in_jiffies os s =
     (case fopen os ''/proc/uptime'' s of
        (None, s) \<Rightarrow> Some (0, s)
      | (Some txt, s) \<Rightarrow>
          (case fgets LEN_128 txt of
             None \<Rightarrow> Some (0, s)
           | Some (line, _) \<Rightarrow> do {
               (up_sec, up_cent) \<leftarrow> scan_uptime line;
               Some (up_sec * ucast (HZ s) + up_cent * ucast (HZ s) div 100, s)
             }))"


subsection \<open>Reading the devices\<close>

text \<open>
  The \<open>sscanf\<close> of \<open>read_io_stat\<close>. The name goes into 64 bytes: a longer one overruns
  them (\<open>None\<close>). \<open>Some None\<close> is a line with fewer than 14 conversions.
\<close>

definition scan_disk :: "string \<Rightarrow> (string \<times> u64 list) option option" where
  "scan_disk buf =
     (case scan_many scan_u 2 buf of
        ([major, minor], r) \<Rightarrow>
          (case scan_s r of
             None \<Rightarrow> Some None
           | Some (dev, r) \<Rightarrow>
               if LEN_64 \<le> length dev then None
               else (case scan_many scan_lu 11 r of
                   (vs, _) \<Rightarrow> if length vs = 11 then Some (Some (dev, vs)) else Some None))
      | _ \<Rightarrow> Some None)"

definition fill_io_stat :: "u64 list \<Rightarrow> io_stat_t \<Rightarrow> io_stat_t" where
  "fill_io_stat v stat = stat\<lparr>rd_ios := v ! 0, rd_merges := v ! 1, rd_sectors := v ! 2, rd_ticks := v ! 3,
     wr_ios := v ! 4, wr_merges := v ! 5, wr_sectors := v ! 6, wr_ticks := v ! 7,
     ios_pgr := v ! 8, tot_ticks := v ! 9, rq_ticks := v ! 10\<rparr>"

fun io_lines :: "os \<Rightarrow> string list \<Rightarrow> addr \<Rightarrow> st \<Rightarrow> (st, st) result" where
  "io_lines os [] head s = Some (Done s)"
| "io_lines os (buf # bufs) head s =
     (let (node, s) = malloc (O_io zero_io) s in
      bnd (get_cpu_time_in_jiffies os s) (\<lambda>(up, s).
      bnd (total (if 1 < NUM_OF_CPU s then read_uptime_in_jiffies os s else Some (is_uptime0 zero_io_stat, s)))
        (\<lambda>(up0, s).
      bnd (total (scan_disk buf)) (\<lambda>m. case m of
          None \<Rightarrow> print_log os LOG_FATAL ''io.c'' 64 ''Unknown /proc/diskstats: Ignore it'' s
        | Some (dev, v) \<Rightarrow>
            bnd (total (do {
                d \<leftarrow> strncpy (io_dev zero_io) dev LEN_64;
                s \<leftarrow> set_obj node (O_io (zero_io\<lparr>io_dev := d,
                       io_stat := fill_io_stat v (zero_io_stat\<lparr>is_uptime := up, is_uptime0 := up0\<rparr>)\<rparr>)) s;
                on_links (list_add_tail node head) s
              }))
              (\<lambda>s. io_lines os bufs head s)))))"

definition read_io_stat :: "os \<Rightarrow> addr \<Rightarrow> st \<Rightarrow> (st, st) result" where
  "read_io_stat os head s =
     (let sys_time = os_time os (clock s); s = tick s in
      bnd (get_num_of_cpu os s) (\<lambda>(n, s).
      bnd (get_HZ os (s\<lparr>NUM_OF_CPU := n\<rparr>)) (\<lambda>s.
        case fopen os ''/proc/diskstats'' s of
          (None, s) \<Rightarrow> print_log_l os LOG_ERROR (Some ''/proc/diskstats'') s
        | (Some txt, s) \<Rightarrow> io_lines os (fgets_all LEN_256 txt) head s)))"


subsection \<open>Rates between two readings\<close>

definition COMPUTE_STAT :: "u32 \<Rightarrow> u64 \<Rightarrow> u64 \<Rightarrow> u64 \<Rightarrow> double" where
  "COMPUTE_STAT hz c p itv = dmul (ddiv (dbl_of_u64 (c - p)) (dbl_of_u64 itv)) (dbl_of_u64 (ucast hz))"

definition sector_factor :: u64 where
  "sector_factor = 1024 * 1024 div 512"

text \<open>What the inner loop stores into the current entry once it has found the device.\<close>

definition io_update :: "u32 \<Rightarrow> u32 \<Rightarrow> io_t \<Rightarrow> io_t \<Rightarrow> io_t" where
  "io_update hz num_of_cpu curr_entry prev_entry =
     (let cs = io_stat curr_entry; ps = io_stat prev_entry;
          interval = (if 1 < num_of_cpu then is_uptime0 cs - is_uptime0 ps else is_uptime cs - is_uptime ps);
          cs_nr_ios = rd_ios cs + wr_ios cs; ps_nr_ios = rd_ios ps + wr_ios ps;
          change_nr_ios = cs_nr_ios - ps_nr_ios;
          change_rd_ticks = rd_ticks cs - rd_ticks ps;
          change_wr_ticks = wr_ticks cs - wr_ticks ps;
          change_rd_ios = rd_ios cs - rd_ios ps;
          change_wr_ios = wr_ios cs - wr_ios ps;
          change_rd_sectors = rd_sectors cs - rd_sectors ps;
          change_wr_sectors = wr_sectors cs - wr_sectors ps
      in curr_entry\<lparr>
           tps := COMPUTE_STAT hz (rd_ios cs + wr_ios cs) (rd_ios ps + wr_ios ps) interval,
           read_byte := change_rd_sectors div sector_factor,
           wrtn_byte := change_wr_sectors div sector_factor,
           rrqm_per_sec := COMPUTE_STAT hz (rd_merges cs) (rd_merges ps) interval,
           wrqm_per_sec := COMPUTE_STAT hz (wr_merges cs) (wr_merges ps) interval,
           r_per_sec := COMPUTE_STAT hz (rd_ios cs) (rd_ios ps) interval,
           w_per_sec := COMPUTE_STAT hz (wr_ios cs) (wr_ios ps) interval,
           r_speed_per_sec := ddiv (COMPUTE_STAT hz (rd_sectors cs) (rd_sectors ps) interval) (dbl_of_u64 sector_factor),
           w_speed_per_sec := ddiv (COMPUTE_STAT hz (wr_sectors cs) (wr_sectors ps) interval) (dbl_of_u64 sector_factor),
           avgrq_sz := (if change_nr_ios \<noteq> 0
             then ddiv (dbl_of_u64 (change_rd_sectors + change_wr_sectors)) (dbl_of_u64 change_nr_ios) else Fin 0),
           avgqu_sz := ddiv (COMPUTE_STAT hz (rq_ticks cs) (rq_ticks ps) interval) (Fin 1000),
           await := (if change_nr_ios \<noteq> 0
             then ddiv (dbl_of_u64 (change_rd_ticks + change_wr_ticks)) (dbl_of_u64 change_nr_ios) else Fin 0),
           r_await := (if change_rd_ios \<noteq> 0
             then ddiv (dbl_of_u64 change_rd_ticks) (dbl_of_u64 change_rd_ios) else Fin 0),
           w_await := (if change_wr_ios \<noteq> 0
             then ddiv (dbl_of_u64 change_wr_ticks) (dbl_of_u64 change_wr_ios) else Fin 0),
           io_util := COMPUTE_STAT hz (tot_ticks cs) (tot_ticks ps) interval\<rparr>)"

text \<open>The body of the inner loop: \<open>continue\<close> on another device, \<open>break\<close> after the update.\<close>

definition compute_io_inner :: "addr \<Rightarrow> addr \<Rightarrow> st \<Rightarrow> (st, st) ctl option" where
  "compute_io_inner curr_entry prev_entry s = do {
     c \<leftarrow> obj_at as_io curr_entry s;
     p \<leftarrow> obj_at as_io prev_entry s;
     cdev \<leftarrow> buf_str (io_dev c);
     pdev \<leftarrow> buf_str (io_dev p);
     if cdev \<noteq> pdev then Some (Next s)
     else do {
       s \<leftarrow> set_obj curr_entry (O_io (io_update (HZ s) (NUM_OF_CPU s) c p)) s;
       Some (Leave s)
     }
   }"

definition compute_io_outer :: "addr \<Rightarrow> addr \<Rightarrow> st \<Rightarrow> (st, st) ctl option" where
  "compute_io_outer prev_list curr_entry s =
     map_option (\<lambda>c. Next (ctl_state c)) (list_for_each_entry (compute_io_inner curr_entry) links prev_list s)"

definition compute_io_stat :: "os \<Rightarrow> addr \<Rightarrow> addr \<Rightarrow> st \<Rightarrow> (st, st) result" where
  "compute_io_stat os curr_list prev_list s =
     bnd (get_HZ os s) (\<lambda>s.
       total (map_option ctl_state (list_for_each_entry (compute_io_outer prev_list) links curr_list s)))"

subsection \<open>The two loops compute a map\<close>

text \<open>What becomes of a reading, given the previous readings of all devices.\<close>

definition same_dev :: "io_t \<Rightarrow> io_t \<Rightarrow> bool" where
  "same_dev c p \<longleftrightarrow> buf_str (io_dev c) = buf_str (io_dev p)"

definition io_rates :: "u32 \<Rightarrow> u32 \<Rightarrow> io_t list \<Rightarrow> io_t \<Rightarrow> io_t" where
  "io_rates hz num ps c = (case find (same_dev c) ps of None \<Rightarrow> c | Some p \<Rightarrow> io_update hz num c p)"

definition dev_named :: "io_t \<Rightarrow> bool" where
  "dev_named r \<longleftrightarrow> buf_str (io_dev r) \<noteq> None"

lemma compute_io_inner_fold:
  assumes "obj_at as_io x s = Some c" "dev_named c" "\<forall>p\<in>set ps. dev_named p"
    and "map (objs s) ys = map (\<lambda>r. Some (O_io r)) ps"
  shows "fold_ctl (compute_io_inner x) ys s = Some (case find (same_dev c) ps of
      None \<Rightarrow> Next s
    | Some p \<Rightarrow> Leave (s\<lparr>objs := (objs s)(x \<mapsto> O_io (io_update (HZ s) (NUM_OF_CPU s) c p))\<rparr>))"
  using assms(3,4)
proof (induction ps arbitrary: ys)
  case (Cons p ps)
  then obtain y zs where ys: "ys = y # zs" "objs s y = Some (O_io p)" "map (objs s) zs = map (\<lambda>r. Some (O_io r)) ps"
    by (auto simp: map_eq_Cons_conv)
  have "obj_at as_io y s = Some p"
    by (simp add: obj_at_def as_io_def ys(2))
  moreover obtain cd pd where "buf_str (io_dev c) = Some cd" "buf_str (io_dev p) = Some pd"
    using assms(2) Cons.prems(1) by (auto simp: dev_named_def)
  moreover have "set_obj x ob s = Some (s\<lparr>objs := (objs s)(x \<mapsto> ob)\<rparr>)" for ob
    using assms(1) by (cases "objs s x") (auto simp: set_obj_def obj_at_def)
  ultimately show ?case
    using Cons.IH [of zs] Cons.prems(1) ys(1,3) assms(1)
    by (simp add: compute_io_inner_def same_dev_def)
qed simp

lemma compute_io_inner_cases:
  "compute_io_inner x y t = Some (Next t') \<Longrightarrow> t' = t"
  "compute_io_inner x y t = Some (Leave t') \<Longrightarrow> \<exists>ob. t' = t\<lparr>objs := ob\<rparr>"
  by (auto simp: compute_io_inner_def set_obj_def split: bind_splits if_splits option.splits)

lemma compute_io_inner_loop:
  "ring (links t) prev ys \<Longrightarrow>
   list_for_each_entry (compute_io_inner x) links prev t = fold_ctl (compute_io_inner x) ys t"
  by (rule list_for_each_entry_fold [where keep = "\<lambda>u. u = t"]) (auto dest: compute_io_inner_cases)

lemma compute_io_outer_objs:
  assumes "ring (links t) prev ys" "compute_io_outer prev x t = Some (Next t')"
  shows "\<exists>ob. t' = t\<lparr>objs := ob\<rparr>"
proof -
  have id: "\<exists>ob. t = t\<lparr>objs := ob\<rparr>"
    by (intro exI [of _ "objs t"]) simp
  have "\<exists>ob. ctl_state c = t\<lparr>objs := ob\<rparr>" if "fold_ctl (compute_io_inner x) ys t = Some c" for c ys
    using that
  proof (induction ys)
    case (Cons y ys)
    then show ?case
      using compute_io_inner_cases [of x y t]
      by (auto simp: ctl_state_def split: option.splits ctl.splits)
  qed (use id in \<open>auto simp: ctl_state_def\<close>)
  then show ?thesis
    using assms by (auto simp: compute_io_outer_def compute_io_inner_loop)
qed

lemma compute_io_outer_step:
  assumes "obj_at as_io x s = Some c" "dev_named c" "\<forall>p\<in>set ps. dev_named p" "holds O_io s prev ys ps"
  shows "compute_io_outer prev x s
    = Some (Next (s\<lparr>objs := (objs s)(x \<mapsto> O_io (io_rates (HZ s) (NUM_OF_CPU s) ps c))\<rparr>))"
proof -
  have "list_for_each_entry (compute_io_inner x) links prev s = fold_ctl (compute_io_inner x) ys s"
    using holds_ring [OF assms(4)] by (rule compute_io_inner_loop)
  moreover have "s\<lparr>objs := (objs s)(x \<mapsto> O_io c)\<rparr> = s"
  proof -
    have "objs s x = Some (O_io c)"
      using assms(1) by (auto simp: obj_at_def as_io_def split: bind_splits obj.splits)
    then have "(objs s)(x \<mapsto> O_io c) = objs s" by auto
    then show ?thesis by (cases s) simp
  qed
  ultimately show ?thesis
    using compute_io_inner_fold [OF assms(1-3)] assms(4)
    by (auto simp: compute_io_outer_def io_rates_def ctl_state_def holds_def split: option.splits)
qed

lemma compute_io_outer_fold:
  assumes "distinct xs" "set xs \<inter> insert prev (set ys) = {}" "\<forall>p\<in>set ps. dev_named p" "\<forall>c\<in>set rs. dev_named c"
    and "map (objs s) xs = map (\<lambda>r. Some (O_io r)) rs" "holds O_io s prev ys ps"
  shows "\<exists>ob. fold_ctl (compute_io_outer prev) xs s = Some (Next (s\<lparr>objs := ob\<rparr>))
    \<and> map ob xs = map (\<lambda>r. Some (O_io (io_rates (HZ s) (NUM_OF_CPU s) ps r))) rs
    \<and> (\<forall>a. a \<notin> set xs \<longrightarrow> ob a = objs s a)"
  using assms
proof (induction xs arbitrary: rs s)
  case Nil
  then show ?case by (intro exI [of _ "objs s"]) auto
next
  case (Cons x xs)
  then obtain r rs' where rs: "rs = r # rs'" "objs s x = Some (O_io r)" "map (objs s) xs = map (\<lambda>r. Some (O_io r)) rs'"
    by (cases rs) auto
  let ?s = "s\<lparr>objs := (objs s)(x \<mapsto> O_io (io_rates (HZ s) (NUM_OF_CPU s) ps r))\<rparr>"
  have step: "compute_io_outer prev x s = Some (Next ?s)"
    using Cons.prems rs by (intro compute_io_outer_step) (auto simp: obj_at_def as_io_def)
  have h: "holds O_io ?s prev ys ps"
  proof -
    have "map (objs ?s) ys = map (objs s) ys"
      using Cons.prems(2) by auto
    then have "map (objs ?s) ys = map (\<lambda>r. Some (O_io r)) ps"
      using Cons.prems(6) by (simp only: holds_def)
    then show ?thesis
      using Cons.prems(6) by (simp add: holds_def)
  qed
  have "map (objs ?s) xs = map (objs s) xs"
    using Cons.prems(1) by auto
  then have m: "map (objs ?s) xs = map (\<lambda>r. Some (O_io r)) rs'"
    by (simp only: rs(3))
  have "\<exists>ob. fold_ctl (compute_io_outer prev) xs ?s = Some (Next (?s\<lparr>objs := ob\<rparr>))
    \<and> map ob xs = map (\<lambda>r. Some (O_io (io_rates (HZ ?s) (NUM_OF_CPU ?s) ps r))) rs'
    \<and> (\<forall>a. a \<notin> set xs \<longrightarrow> ob a = objs ?s a)"
    by (rule Cons.IH [OF _ _ _ _ m h]) (use Cons.prems rs(1) in auto)
  then obtain ob where ob: "fold_ctl (compute_io_outer prev) xs ?s = Some (Next (s\<lparr>objs := ob\<rparr>))"
    "map ob xs = map (\<lambda>r. Some (O_io (io_rates (HZ s) (NUM_OF_CPU s) ps r))) rs'"
    "\<forall>a. a \<notin> set xs \<longrightarrow> ob a = objs ?s a"
    by auto
  then show ?case
    using step Cons.prems(1) rs(1) by (intro exI [of _ ob]) auto
qed

text \<open>
  C8. \<open>compute_io_stat\<close> is a map over the current readings: each one gets the rates
  against the first previous reading of the same device, with the clock rate just asked
  for, and a device that was not there before keeps its zeros. The lists keep their shape,
  the previous readings and all other memory are unchanged.
\<close>

theorem compute_io_stat_maps:
  assumes "heap_ok s" "holds O_io s cur xs rs" "holds O_io s prev ys ps"
    and "insert cur (set xs) \<inter> insert prev (set ys) = {}"
    and "\<forall>r\<in>set rs. dev_named r" "\<forall>p\<in>set ps. dev_named p" "os_clk_tck os (clock s) \<noteq> - 1"
  shows "\<exists>s'. compute_io_stat os cur prev s = Some (Done s')
    \<and> holds O_io s' cur xs (map (io_rates (word_of_int (os_clk_tck os (clock s))) (NUM_OF_CPU s) ps) rs)
    \<and> holds O_io s' prev ys ps \<and> links s' = links s \<and> only (set xs) s s'"
proof -
  let ?s = "(tick s)\<lparr>HZ := word_of_int (os_clk_tck os (clock s))\<rparr>"
  have h: "holds O_io ?s cur xs rs" "holds O_io ?s prev ys ps"
    using assms(2,3) by (simp_all add: holds_def tick_def)
  have dist: "distinct xs" "cur \<notin> set xs"
    using ring_distinct [OF holds_ring [OF assms(2)]] by auto
  obtain ob where ob: "fold_ctl (compute_io_outer prev) xs ?s = Some (Next (?s\<lparr>objs := ob\<rparr>))"
    "map ob xs = map (\<lambda>r. Some (O_io (io_rates (HZ ?s) (NUM_OF_CPU ?s) ps r))) rs"
    "\<forall>a. a \<notin> set xs \<longrightarrow> ob a = objs ?s a"
    using compute_io_outer_fold [OF dist(1) _ assms(6,5) _ h(2)] h(1) assms(4) by (auto simp: holds_def)
  have "list_for_each_entry (compute_io_outer prev) links cur ?s = fold_ctl (compute_io_outer prev) xs ?s"
  proof (rule list_for_each_entry_fold [where keep = "\<lambda>t. \<exists>ob. t = ?s\<lparr>objs := ob\<rparr>"])
    fix x t t'
    assume t: "\<exists>ob. t = ?s\<lparr>objs := ob\<rparr>" "compute_io_outer prev x t = Some (Next t')"
    then have "ring (links t) prev ys"
      using holds_ring [OF h(2)] by auto
    from compute_io_outer_objs [OF this t(2)] t(1) show "\<exists>ob. t' = ?s\<lparr>objs := ob\<rparr>"
      by auto
  qed (use holds_ring [OF h(1)] in \<open>auto intro!: exI [of _ "objs s"] simp: tick_def\<close>)
  then have run: "compute_io_stat os cur prev s = Some (Done (?s\<lparr>objs := ob\<rparr>))"
    using ob(1) assms(7) by (simp add: compute_io_stat_def get_HZ_def Let_def ctl_state_def)
  have "map ob ys = map (objs s) ys"
    using ob(3) assms(4) by (auto simp: tick_def)
  then have "map ob ys = map (\<lambda>r. Some (O_io r)) ps"
    using assms(3) by (simp only: holds_def)
  then show ?thesis
    using run ob(2,3) h by (auto simp: holds_def only_def tick_def)
qed

definition sample_io :: "string \<Rightarrow> u64 \<Rightarrow> u64 \<Rightarrow> io_t" where
  "sample_io dev up n = zero_io\<lparr>io_dev := field LEN_64 dev, io_stat := zero_io_stat\<lparr>is_uptime := up, rd_ios := n\<rparr>\<rparr>"

text \<open>Two lists of one reading each: at 16 the current one, at 64 the previous one.\<close>

definition two_readings :: "io_t \<Rightarrow> io_t \<Rightarrow> st" where
  "two_readings c p = boot\<lparr>links := [16 \<mapsto> \<lparr>lh_next = 32, lh_prev = 32\<rparr>, 32 \<mapsto> \<lparr>lh_next = 16, lh_prev = 16\<rparr>,
       64 \<mapsto> \<lparr>lh_next = 96, lh_prev = 96\<rparr>, 96 \<mapsto> \<lparr>lh_next = 64, lh_prev = 64\<rparr>],
     objs := [32 \<mapsto> O_io c, 96 \<mapsto> O_io p]\<rparr>"

lemma two_readings_facts:
  "heap_ok (two_readings c p)" "holds O_io (two_readings c p) 16 [32] [c]"
  "holds O_io (two_readings c p) 64 [96] [p]"
  by (simp_all add: two_readings_def boot_def heap_ok_def holds_def ring_def link_def rd_next_def rd_prev_def)

lemma compute_io_stat_maps_witness:
  "\<exists>s'. compute_io_stat (quiet_os (\<lambda>_ _. None)) 16 64 (two_readings (sample_io ''sda'' 900 7) (sample_io ''sda'' 700 4)) = Some (Done s')
    \<and> holds O_io s' 16 [32] [io_update 100 1 (sample_io ''sda'' 900 7) (sample_io ''sda'' 700 4)]"
proof -
  let ?c = "sample_io ''sda'' 900 7" and ?p = "sample_io ''sda'' 700 4"
  have n: "dev_named ?c" "dev_named ?p" "same_dev ?c ?p"
    using buf_str_field [of "''sda''" 64] by (simp_all add: dev_named_def same_dev_def sample_io_def)
  have "os_clk_tck (quiet_os (\<lambda>_ _. None)) (clock (two_readings ?c ?p)) = 100" "NUM_OF_CPU (two_readings ?c ?p) = 1"
    by (simp_all add: quiet_os_def two_readings_def boot_def)
  then show ?thesis
    using compute_io_stat_maps [of "two_readings ?c ?p" 16 "[32]" "[?c]" 64 "[96]" "[?p]" "quiet_os (\<lambda>_ _. None)"]
      two_readings_facts [of ?c ?p] n
    by (auto simp: io_rates_def)
qed


subsection \<open>The rates\<close>

lemma ddiv_nat:
  assumes "a \<le> 2 ^ 64" "0 < b" "b \<le> 2 ^ 64"
  shows "\<exists>x. ddiv (dbl_of_nat a) (dbl_of_nat b) = Fin x \<and> 0 \<le> x \<and> x \<le> 2 ^ 64
    \<and> x = rndv (rndv (of_nat a) / rndv (of_nat b))"
proof -
  have d: "dbl_of_nat a = Fin (rndv (of_nat a))" "dbl_of_nat b = Fin (rndv (of_nat b))"
    using assms by (simp_all add: dbl_of_nat_eq)
  have b1: "1 \<le> rndv (of_nat b)"
    using rndv_mono [of 1 "of_nat b"] rndv_of_nat [of 1] assms(2) by simp
  have pow: "rndv 18446744073709551616 = 18446744073709551616"
    using rndv_pow2 [of 64] by simp
  have "(of_nat a :: rat) \<le> of_nat (2 ^ 64)"
    using assms(1) by (simp only: of_nat_le_iff)
  then have "(of_nat a :: rat) \<le> 2 ^ 64" by simp
  then have a0: "0 \<le> rndv (of_nat a)" "rndv (of_nat a) \<le> 2 ^ 64"
    using rndv_mono [of "of_nat a" "2 ^ 64"] rndv_nonneg [of "of_nat a"] by (simp_all add: pow)
  define q where "q = rndv (of_nat a) / rndv (of_nat b)"
  have "q \<le> rndv (of_nat a) / 1"
    unfolding q_def using a0(1) b1 by (intro divide_left_mono) simp_all
  then have q: "0 \<le> q" "q \<le> 2 ^ 64"
    using a0 b1 by (simp_all add: q_def)
  have "q \<le> 2 ^ 1000"
    using q(2) by simp
  then have "rnd q = Fin (rndv q)"
    using q(1) by (intro rnd_eq_rndv)
  then have "ddiv (dbl_of_nat a) (dbl_of_nat b) = Fin (rndv q)"
    using b1 by (simp add: d q_def)
  moreover have "0 \<le> rndv q" "rndv q \<le> 2 ^ 64"
    using rndv_nonneg [OF q(1)] rndv_mono [OF q] by (simp_all add: pow)
  ultimately show ?thesis
    unfolding q_def by blast
qed

lemma scale_nat:
  assumes "0 \<le> x" "x \<le> 2 ^ 64" "n < 2 ^ 32"
  shows "dmul (Fin x) (dbl_of_nat n) = Fin (rndv (x * of_nat n))"
    "0 \<le> rndv (x * of_nat n)" "rndv (x * of_nat n) \<le> 2 ^ 96"
proof -
  have "(of_nat n :: rat) \<le> of_nat (2 ^ 32)"
    using assms(3) by (simp only: of_nat_le_iff)
  then have n: "(of_nat n :: rat) \<le> 2 ^ 32"
    by simp
  have m: "0 \<le> x * of_nat n" "x * of_nat n \<le> 2 ^ 96"
    using assms(1) mult_mono [OF assms(2) n] by simp_all
  have "x * of_nat n \<le> 2 ^ 1000"
    using m(2) by simp
  then have "rnd (x * of_nat n) = Fin (rndv (x * of_nat n))"
    using m(1) by (intro rnd_eq_rndv)
  moreover have "dbl_of_nat n = Fin (of_nat n)"
    using assms(3) by (intro dbl_of_nat_exact) simp
  ultimately show "dmul (Fin x) (dbl_of_nat n) = Fin (rndv (x * of_nat n))"
    by simp
  show "0 \<le> rndv (x * of_nat n)" "rndv (x * of_nat n) \<le> 2 ^ 96"
    using rndv_nonneg [OF m(1)] rndv_mono [OF m] rndv_pow2 [of 96] by simp_all
qed

lemma unat_le_u64: "unat (w :: u64) \<le> 2 ^ 64"
  using unat_u64_less [of w] by simp

text \<open>
  What the formulas of the code stand for, over the rationals: the rate of a counter that moved by
  \<open>d\<close> in \<open>itv\<close> ticks, and a mean, with the roundings of the machine.
\<close>

definition rate_val :: "u32 \<Rightarrow> u64 \<Rightarrow> u64 \<Rightarrow> rat" where
  "rate_val hz d itv = rndv (rndv (rndv (of_nat (unat d)) / rndv (of_nat (unat itv))) * of_nat (unat hz))"

definition mean_val :: "u64 \<Rightarrow> u64 \<Rightarrow> rat" where
  "mean_val a n = (if n = 0 then 0 else rndv (rndv (of_nat (unat a)) / rndv (of_nat (unat n))))"

text \<open>Below \<open>2\<^sup>5\<^sup>3\<close> the conversions to floating point are exact.\<close>

lemma rate_val_exact:
  "unat d < 2 ^ 53 \<Longrightarrow> unat itv < 2 ^ 53 \<Longrightarrow>
    rate_val hz d itv = rndv (rndv (of_nat (unat d) / of_nat (unat itv)) * of_nat (unat hz))"
  unfolding rate_val_def by (simp only: rndv_of_nat)

lemma mean_val_exact:
  "unat a < 2 ^ 53 \<Longrightarrow> unat n < 2 ^ 53 \<Longrightarrow> mean_val a n = rndv (of_nat (unat a) / of_nat (unat n))"
  by (cases "n = 0") (simp add: mean_val_def, simp only: mean_val_def rndv_of_nat if_False)

lemma COMPUTE_STAT_Fin:
  assumes "itv \<noteq> 0"
  shows "COMPUTE_STAT hz c p itv = Fin (rate_val hz (c - p) itv)"
    "0 \<le> rate_val hz d itv" "rate_val hz d itv \<le> 2 ^ 96"
proof -
  have itv: "0 < unat itv"
    using assms by (simp add: unat_gt_0)
  have "unat hz < 2 ^ LENGTH(32)"
    by (rule unsigned_less)
  then have hz: "unat hz < 2 ^ 32"
    by simp
  have "unat (ucast hz :: u64) = unat hz"
    by transfer (simp add: take_bit_nat_eq_self)
  then have h: "dbl_of_u64 (ucast hz) = dbl_of_nat (unat hz)"
    by (simp only: dbl_of_u64_def)
  have q: "ddiv (dbl_of_u64 d) (dbl_of_u64 itv) = Fin (rndv (rndv (of_nat (unat d)) / rndv (of_nat (unat itv))))"
      "0 \<le> rndv (rndv (of_nat (unat d)) / rndv (of_nat (unat itv)))"
      "rndv (rndv (of_nat (unat d)) / rndv (of_nat (unat itv))) \<le> 2 ^ 64" for d :: u64
    using ddiv_nat [OF unat_le_u64 itv unat_le_u64, of d] unfolding dbl_of_u64_def by auto
  show "0 \<le> rate_val hz d itv" "rate_val hz d itv \<le> 2 ^ 96"
    unfolding rate_val_def by (rule scale_nat(2,3) [OF q(2,3) hz])+
  show "COMPUTE_STAT hz c p itv = Fin (rate_val hz (c - p) itv)"
    unfolding COMPUTE_STAT_def rate_val_def q(1) h by (rule scale_nat(1) [OF q(2,3) hz])
qed

lemma mean_u64: "(if n \<noteq> 0 then ddiv (dbl_of_u64 a) (dbl_of_u64 n) else Fin 0) = Fin (mean_val a n)"
proof (cases "n = 0")
  case False
  then have "0 < unat n"
    by (simp add: unat_gt_0)
  from ddiv_nat [OF unat_le_u64 this unat_le_u64, of a] show ?thesis
    using False unfolding dbl_of_u64_def mean_val_def by auto
qed (simp add: mean_val_def)

lemma mean_val_nonneg: "0 \<le> mean_val a n"
proof (cases "n = 0")
  case False
  then have "0 < unat n"
    by (simp add: unat_gt_0)
  from ddiv_nat [OF unat_le_u64 this unat_le_u64, of a] show ?thesis
    using False unfolding mean_val_def by auto
qed (simp add: mean_val_def)

lemma ddiv_scale:
  assumes "0 \<le> x" "x \<le> 2 ^ 96" "1 \<le> k"
  shows "ddiv (Fin x) (Fin k) = Fin (rndv (x / k))" "0 \<le> rndv (x / k)"
proof -
  have q: "0 \<le> x / k" "x / k \<le> 2 ^ 1000"
  proof -
    have "x / k \<le> x / 1"
      using assms by (intro divide_left_mono) simp_all
    then show "x / k \<le> 2 ^ 1000" using assms(2) by simp
  qed (use assms in simp)
  show "ddiv (Fin x) (Fin k) = Fin (rndv (x / k))" "0 \<le> rndv (x / k)"
    using rndv_nonneg [OF q(1)] rnd_eq_rndv [OF q] assms(3) by simp_all
qed

text \<open>By how much a counter moved between two readings, modulo \<open>2\<^sup>6\<^sup>4\<close>.\<close>

definition moved :: "io_t \<Rightarrow> io_t \<Rightarrow> (io_stat_t \<Rightarrow> u64) \<Rightarrow> u64" where
  "moved c p f = f (io_stat c) - f (io_stat p)"

definition all_ios :: "io_stat_t \<Rightarrow> u64" where
  "all_ios x = rd_ios x + wr_ios x"

definition nonneg_dbl :: "double \<Rightarrow> bool" where
  "nonneg_dbl d \<longleftrightarrow> (\<exists>x\<ge>0. d = Fin x)"

text \<open>
  C17. If time has passed between two readings of a device, every figure of the report is a finite
  number that is not negative, computed from the counters it stands for, whatever they did (they wrap as
  the unsigned differences do): the rates of all requests, merged and single reads and writes and of the
  busy time are \<open>d / itv * HZ\<close> for the movement \<open>d\<close> of the counter, the speeds that of the sectors by
  2048, the queue length that of the queue time by 1000, and the four averages are sectors and ticks per
  request, 0 without a request; all integers are rounded to floating point (exact below \<open>2\<^sup>5\<^sup>3\<close>) and so is
  every step. The two amounts are the sectors by 2048, and device and counters stay.
\<close>

theorem io_update_rates:
  assumes "itv = (if 1 < num then moved c p is_uptime0 else moved c p is_uptime)" "itv \<noteq> 0"
    and "u = io_update hz num c p"
  shows "[tps u, rrqm_per_sec u, wrqm_per_sec u, r_per_sec u, w_per_sec u, io_util u]
      = map (\<lambda>f. Fin (rate_val hz (moved c p f) itv)) [all_ios, rd_merges, wr_merges, rd_ios, wr_ios, tot_ticks]
    \<and> [r_speed_per_sec u, w_speed_per_sec u]
      = map (\<lambda>f. Fin (rndv (rate_val hz (moved c p f) itv / 2048))) [rd_sectors, wr_sectors]
    \<and> avgqu_sz u = Fin (rndv (rate_val hz (moved c p rq_ticks) itv / 1000))
    \<and> [avgrq_sz u, await u, r_await u, w_await u]
      = [Fin (mean_val (moved c p rd_sectors + moved c p wr_sectors) (moved c p all_ios)),
         Fin (mean_val (moved c p rd_ticks + moved c p wr_ticks) (moved c p all_ios)),
         Fin (mean_val (moved c p rd_ticks) (moved c p rd_ios)), Fin (mean_val (moved c p wr_ticks) (moved c p wr_ios))]
    \<and> read_byte u = moved c p rd_sectors div 2048 \<and> wrtn_byte u = moved c p wr_sectors div 2048
    \<and> io_dev u = io_dev c \<and> io_stat u = io_stat c
    \<and> list_all nonneg_dbl [tps u, rrqm_per_sec u, wrqm_per_sec u, r_per_sec u, w_per_sec u, io_util u,
        r_speed_per_sec u, w_speed_per_sec u, avgqu_sz u, avgrq_sz u, await u, r_await u, w_await u]"
proof -
  have f: "dbl_of_u64 2048 = Fin 2048" "sector_factor = 2048"
    by (simp_all add: sector_factor_def dbl_of_u64_def dbl_of_nat_exact)
  note cs = COMPUTE_STAT_Fin [OF assms(2)]
  have sc: "ddiv (Fin (rate_val hz d itv)) (Fin 2048) = Fin (rndv (rate_val hz d itv / 2048))"
      "ddiv (Fin (rate_val hz d itv)) (Fin 1000) = Fin (rndv (rate_val hz d itv / 1000))"
      "0 \<le> rndv (rate_val hz d itv / 2048)" "0 \<le> rndv (rate_val hz d itv / 1000)" for d
    by (intro ddiv_scale [OF cs(2,3)]; simp)+
  have itv: "(if 1 < num then is_uptime0 (io_stat c) - is_uptime0 (io_stat p)
      else is_uptime (io_stat c) - is_uptime (io_stat p)) = itv"
    using assms(1) by (simp add: moved_def)
  have nn: "nonneg_dbl (Fin x) = (0 \<le> x)" for x
    by (simp add: nonneg_dbl_def)
  show ?thesis
    unfolding assms(3) io_update_def Let_def itv
    by (simp add: cs sc f mean_u64 mean_val_nonneg nn moved_def all_ios_def
        del: ddiv.simps right_minus_eq split del: if_split)
qed

lemma io_update_rates_witness:
  "tps (io_update 100 1 (sample_io ''sda'' 900 7) (sample_io ''sda'' 700 4)) = Fin (3 / 2)"
proof -
  have "tps (io_update 100 1 (sample_io ''sda'' 900 7) (sample_io ''sda'' 700 4)) = Fin (rate_val 100 3 200)"
    using io_update_rates [of 200 1 "sample_io ''sda'' 900 7" "sample_io ''sda'' 700 4"
        "io_update 100 1 (sample_io ''sda'' 900 7) (sample_io ''sda'' 700 4)" 100]
    by (simp add: sample_io_def zero_io_def zero_io_stat_def moved_def all_ios_def)
  moreover have "rate_val 100 3 200 = 3 / 2"
    by (simp add: rate_val_def rndv_def double_simps)
  ultimately show ?thesis by simp
qed

subsection \<open>The readings\<close>

record disk_t =
  dk_major :: u32
  dk_minor :: u32
  dk_dev :: string
  dk_counters :: "u64 list"
  dk_more :: string

text \<open>
  A line as the kernel prints it: \<open>%4d %7d %s\<close> and the counters, each after a blank. \<open>dk_more\<close> stands
  for the columns that newer kernels add.
\<close>

definition disk_line :: "disk_t \<Rightarrow> string" where
  "disk_line d = rjust 4 (dec (unat (dk_major d))) @ '' '' @ rjust 7 (dec (unat (dk_minor d))) @ '' '' @ dk_dev d
     @ print_lus (dk_counters d) @ dk_more d"

definition disk_ok :: "disk_t \<Rightarrow> bool" where
  "disk_ok d \<longleftrightarrow> dk_dev d \<noteq> '''' \<and> (\<forall>c\<in>set (dk_dev d). \<not> isspace c \<and> c \<noteq> NUL) \<and> length (dk_dev d) < 64
     \<and> length (dk_counters d) = 11 \<and> (dk_more d = '''' \<or> hd (dk_more d) = CHR '' '')
     \<and> newline \<notin> set (dk_more d) \<and> NUL \<notin> set (dk_more d) \<and> length (disk_line d) \<le> 254"

lemma scan_disk_line:
  assumes "disk_ok d"
  shows "scan_disk (disk_line d @ [newline]) = Some (Some (dk_dev d, dk_counters d))"
proof -
  let ?rest = "dk_more d @ [newline]"
  let ?t = "print_lus (dk_counters d) @ ?rest"
  have ne: "dk_dev d \<noteq> ''''" "\<forall>c\<in>set (dk_dev d). \<not> isspace c" "length (dk_counters d) = 11"
    "\<not> isdigit (hd ?rest)" "length (dk_dev d) < 64"
    using assms by (cases "dk_more d"; auto simp: disk_ok_def)+
  then obtain v vs where v: "dk_counters d = v # vs"
    by (cases "dk_counters d") auto
  have bl: "list_all isspace (replicate n CHR '' '')" "list_all isspace (CHR '' '' # replicate n CHR '' '')" for n
    by (simp_all add: list_all_iff)
  have "scan_many scan_u 2 (disk_line d @ [newline]) = ([dk_major d, dk_minor d], '' '' @ dk_dev d @ ?t)"
    using scan_u_dec [OF bl(1), of "'' '' @ rjust 7 (dec (unat (dk_minor d))) @ '' '' @ dk_dev d @ ?t" _ "dk_major d"]
      scan_u_dec [OF bl(2), of "'' '' @ dk_dev d @ ?t" _ "dk_minor d"]
    by (simp add: disk_line_def rjust_def numeral_2_eq_2)
  moreover have "scan_s ('' '' @ dk_dev d @ ?t) = Some (dk_dev d, ?t)"
    using scan_s_word [of "'' ''" "dk_dev d" ?t] ne by (simp add: v)
  moreover have "scan_many scan_lu 11 ?t = (dk_counters d, ?rest)"
    using ne(3,4) by (intro scan_many_print_lus) simp_all
  ultimately show ?thesis
    using ne by (simp add: scan_disk_def)
qed

lemma fgets_disk_lines:
  assumes "\<forall>d\<in>set ds. disk_ok d"
  shows "fgets_all LEN_256 (concat (map (\<lambda>d. disk_line d @ [newline]) ds)) = map (\<lambda>d. disk_line d @ [newline]) ds"
proof -
  have "newline \<notin> set (disk_line d) \<and> NUL \<notin> set (disk_line d)" if "disk_ok d" for d
  proof -
    have dig: "isdigit c \<or> c = CHR '' ''" if "c \<in> set (dec n) \<union> set (print_lus ws)" for c n ws
      using that dec_digits [of n] print_lus_clean by (auto simp: list_all_iff)
    have "newline \<notin> set (dec n) \<union> set (print_lus ws)" "NUL \<notin> set (dec n) \<union> set (print_lus ws)" for n ws
      using dig [of newline n ws] dig [of NUL n ws] isdigit_not_special by auto
    moreover have "newline \<notin> set (dk_dev d)"
      using that isspace_blank(2) unfolding disk_ok_def by blast
    ultimately show ?thesis
      using that by (auto simp: disk_line_def disk_ok_def rjust_def)
  qed
  then show ?thesis
    using fgets_all_lines [of "map disk_line ds" LEN_256] assms by (auto simp: comp_def disk_ok_def)
qed

text \<open>The files that the clocks are read from are there and in order.\<close>

definition clocks_ok :: "os \<Rightarrow> bool" where
  "clocks_ok os \<longleftrightarrow> (\<forall>t. (\<exists>txt. os_file os t ''/proc/stat'' = Some txt
       \<and> num_of_cpu_lines (fgets_all 16 txt) None (- 1) \<noteq> None)
     \<and> (\<forall>txt buf r. os_file os t ''/proc/uptime'' = Some txt \<longrightarrow> fgets LEN_128 txt = Some (buf, r)
          \<longrightarrow> scan_uptime buf \<noteq> None)
     \<and> os_clk_tck os t \<noteq> - 1)"

lemma get_cpu_time_defined: "clocks_ok os \<Longrightarrow> \<exists>w. get_cpu_time_in_jiffies os s = Some (Done (w, tick s))"
  unfolding clocks_ok_def get_cpu_time_in_jiffies_def read_cpu_stat_def fopen_def
  by (auto dest!: spec [of _ "clock s"])

lemma read_uptime_defined: "clocks_ok os \<Longrightarrow> \<exists>w. read_uptime_in_jiffies os s = Some (w, tick s)"
  unfolding clocks_ok_def read_uptime_in_jiffies_def fopen_def
  by (auto dest!: spec [of _ "clock s"] split: option.splits bind_splits prod.splits)

definition disk_record :: "disk_t \<Rightarrow> u64 \<times> u64 \<Rightarrow> io_t" where
  "disk_record d ups = zero_io\<lparr>io_dev := field LEN_64 (dk_dev d),
     io_stat := fill_io_stat (dk_counters d) (zero_io_stat\<lparr>is_uptime := fst ups, is_uptime0 := snd ups\<rparr>)\<rparr>"

lemma malloc_clock:
  "malloc ob (s\<lparr>clock := t\<rparr>) = (fst (malloc ob s), (snd (malloc ob s))\<lparr>clock := t\<rparr>)"
  by (cases s) (simp add: malloc_def Let_def cong: if_cong)

lemma io_lines_step:
  assumes "clocks_ok os" "disk_ok d"
  shows "\<exists>ups t. io_lines os ((disk_line d @ [newline]) # bufs) head s
    = bnd (total (add_new (O_io zero_io) (O_io (disk_record d ups)) head (s\<lparr>clock := t\<rparr>))) (io_lines os bufs head)"
proof -
  obtain a s1 where m: "malloc (O_io zero_io) s = (a, s1)"
    by (cases "malloc (O_io zero_io) s")
  obtain up where up: "get_cpu_time_in_jiffies os s1 = Some (Done (up, tick s1))"
    using get_cpu_time_defined [OF assms(1)] by blast
  obtain up0 t where up0: "(if 1 < NUM_OF_CPU (tick s1) then read_uptime_in_jiffies os (tick s1)
      else Some (is_uptime0 zero_io_stat, tick s1)) = Some (up0, s1\<lparr>clock := t\<rparr>)"
    using read_uptime_defined [OF assms(1), of "tick s1"] by (cases "1 < NUM_OF_CPU (tick s1)") (auto simp: tick_def)
  have "strncpy (io_dev zero_io) (dk_dev d) LEN_64 = Some (field LEN_64 (dk_dev d))"
    by (intro strncpy_field) (simp add: zero_io_def chars0_def)
  then have "io_lines os ((disk_line d @ [newline]) # bufs) head s
    = bnd (total (add_new (O_io zero_io) (O_io (disk_record d (up, up0))) head (s\<lparr>clock := t\<rparr>))) (io_lines os bufs head)"
    using m up up0 scan_disk_line [OF assms(2)]
    by (simp add: add_new_def malloc_clock disk_record_def)
  then show ?thesis by blast
qed

definition disk_view :: "io_t \<Rightarrow> string option \<times> u64 list" where
  "disk_view r = (buf_str (io_dev r), [rd_ios (io_stat r), rd_merges (io_stat r), rd_sectors (io_stat r),
     rd_ticks (io_stat r), wr_ios (io_stat r), wr_merges (io_stat r), wr_sectors (io_stat r),
     wr_ticks (io_stat r), ios_pgr (io_stat r), tot_ticks (io_stat r), rq_ticks (io_stat r)])"

lemma disk_record_view: "disk_ok d \<Longrightarrow> disk_view (disk_record d ups) = (Some (dk_dev d), dk_counters d)"
proof -
  assume d: "disk_ok d"
  then have "buf_str (field LEN_64 (dk_dev d)) = Some (dk_dev d)"
    by (intro buf_str_field) (auto simp: disk_ok_def)
  moreover have "length (dk_counters d) = 11"
    using d by (simp add: disk_ok_def)
  then obtain a0 a1 a2 a3 a4 a5 a6 a7 a8 a9 aa where "dk_counters d = [a0, a1, a2, a3, a4, a5, a6, a7, a8, a9, aa]"
    by (auto simp: numeral_eq_Suc length_Suc_conv)
  ultimately show ?thesis
    by (simp add: disk_view_def disk_record_def fill_io_stat_def)
qed

lemma clock_holds:
  "holds K (s\<lparr>clock := t\<rparr>) head xs rs = holds K s head xs rs" "heap_ok (s\<lparr>clock := t\<rparr>) = heap_ok s"
  "only F (s\<lparr>clock := t\<rparr>) s' = only F s s'"
  by (simp_all add: holds_def heap_ok_def only_def)

lemma io_lines_append:
  assumes "clocks_ok os" "\<forall>d\<in>set ds. disk_ok d" "heap_ok s" "holds O_io s head xs rs"
  shows "\<exists>s' ys rs'. io_lines os (map (\<lambda>d. disk_line d @ [newline]) ds) head s = Some (Done s')
    \<and> holds O_io s' head (xs @ ys) (rs @ rs')
    \<and> map disk_view rs' = map (\<lambda>d. (Some (dk_dev d), dk_counters d)) ds
    \<and> (\<forall>y\<in>set ys. brk s \<le> y) \<and> heap_ok s' \<and> only (insert head (set xs)) s s'"
  using assms(2-4)
proof (induction ds arbitrary: s xs rs)
  case Nil
  then show ?case by (auto intro!: exI [of _ "[]"])
next
  case (Cons d ds)
  then have d: "disk_ok d" by simp
  obtain ups t where step: "io_lines os ((disk_line d @ [newline]) # map (\<lambda>d. disk_line d @ [newline]) ds) head s
    = bnd (total (add_new (O_io zero_io) (O_io (disk_record d ups)) head (s\<lparr>clock := t\<rparr>)))
        (io_lines os (map (\<lambda>d. disk_line d @ [newline]) ds) head)"
    using io_lines_step [OF assms(1) d] by blast
  obtain s1 where s1: "add_new (O_io zero_io) (O_io (disk_record d ups)) head (s\<lparr>clock := t\<rparr>) = Some s1"
    "holds O_io s1 head (xs @ [brk s]) (rs @ [disk_record d ups])" "heap_ok s1" "only (insert head (set xs)) s s1"
    using k_io.add_new_holds [of "s\<lparr>clock := t\<rparr>" head xs rs zero_io "disk_record d ups"] Cons.prems
    by (auto simp: clock_holds)
  have "\<forall>d\<in>set ds. disk_ok d"
    using Cons.prems(1) by simp
  from Cons.IH [OF this s1(3,2)] obtain s2 ys rs' where s2:
    "io_lines os (map (\<lambda>d. disk_line d @ [newline]) ds) head s1 = Some (Done s2)"
    "holds O_io s2 head ((xs @ [brk s]) @ ys) ((rs @ [disk_record d ups]) @ rs')"
    "map disk_view rs' = map (\<lambda>d. (Some (dk_dev d), dk_counters d)) ds"
    "\<forall>y\<in>set ys. brk s1 \<le> y" "heap_ok s2" "only (insert head (set (xs @ [brk s]))) s1 s2"
    by blast
  have "only (insert head (set xs)) s s2"
    by (rule only_trans [OF s1(4) s2(6)]) auto
  moreover have "\<forall>y\<in>set (brk s # ys). brk s \<le> y"
    using s2(4) s1(4) by (auto simp: only_def dest: le_trans)
  moreover have "io_lines os (map (\<lambda>d. disk_line d @ [newline]) (d # ds)) head s = Some (Done s2)"
    using step s1(1) s2(1) by simp
  moreover have "map disk_view (disk_record d ups # rs') = map (\<lambda>d. (Some (dk_dev d), dk_counters d)) (d # ds)"
    using s2(3) disk_record_view [OF d] by simp
  ultimately show ?case
    using s2(2,5) by (intro exI [of _ s2] exI [of _ "brk s # ys"] exI [of _ "disk_record d ups # rs'"]) simp
qed

text \<open>
  C16. On a \<open>/proc/diskstats\<close> as the kernel prints it, with the two device numbers padded to 4 and 7
  columns, names of at most 63 and lines of at most 254 characters, \<open>read_io_stat\<close> appends one
  reading for every line, in order, with the device's name and its eleven counters exactly
  as printed (further columns, as newer kernels have, are ignored), if the files of the clocks can be read.
\<close>

theorem read_io_stat_appends:
  assumes "heap_ok s" "holds O_io s head xs rs" "clocks_ok os" "\<forall>d\<in>set ds. disk_ok d"
    and "\<forall>t. os_file os t ''/proc/diskstats'' = Some (concat (map (\<lambda>d. disk_line d @ [newline]) ds))"
  shows "\<exists>s' ys rs'. read_io_stat os head s = Some (Done s') \<and> holds O_io s' head (xs @ ys) (rs @ rs')
    \<and> map disk_view rs' = map (\<lambda>d. (Some (dk_dev d), dk_counters d)) ds
    \<and> heap_ok s' \<and> only (insert head (set xs)) s s'"
proof -
  obtain n where n: "get_num_of_cpu os (tick s) = Some (Done (n, tick (tick s)))"
    using assms(3) unfolding clocks_ok_def get_num_of_cpu_def fopen_def
    by (auto dest!: spec [of _ "clock (tick s)"])
  define t where "t = tick ((tick ((tick (tick s))\<lparr>NUM_OF_CPU := n\<rparr>))
      \<lparr>HZ := word_of_int (os_clk_tck os (clock (tick (tick s))))\<rparr>)"
  have mem: "links t = links s" "objs t = objs s" "brk t = brk s"
    by (simp_all add: t_def tick_def)
  have h: "heap_ok t" "holds O_io t head xs rs" "only F s t" for F
    using assms(1,2) by (simp_all add: heap_ok_def holds_def only_def mem)
  obtain s' ys rs' where s': "io_lines os (map (\<lambda>d. disk_line d @ [newline]) ds) head t = Some (Done s')"
    "holds O_io s' head (xs @ ys) (rs @ rs')" "map disk_view rs' = map (\<lambda>d. (Some (dk_dev d), dk_counters d)) ds"
    "heap_ok s'" "only (insert head (set xs)) t s'"
    using io_lines_append [OF assms(3,4) h(1,2)] by blast
  have "get_HZ os ((tick (tick s))\<lparr>NUM_OF_CPU := n\<rparr>) = Some (Done ((tick ((tick (tick s))\<lparr>NUM_OF_CPU := n\<rparr>))
      \<lparr>HZ := word_of_int (os_clk_tck os (clock (tick (tick s))))\<rparr>))"
    using assms(3) by (simp add: get_HZ_def Let_def clocks_ok_def)
  then have "read_io_stat os head s = Some (Done s')"
    using n s'(1) assms(5) fgets_disk_lines [OF assms(4)]
    by (simp add: read_io_stat_def fopen_def t_def Let_def)
  moreover have "only (insert head (set xs)) s s'"
    using only_trans [OF h(3) s'(5)] by auto
  ultimately show ?thesis
    using s' by blast
qed

definition sample_disk :: disk_t where
  "sample_disk = \<lparr>dk_major = 8, dk_minor = 0, dk_dev = ''sda'', dk_counters = [1, 2, 3, 4, 5, 6, 7, 8, 9, 10, 11],
     dk_more = '' 0 0''\<rparr>"

definition disk_files :: "disk_t list \<Rightarrow> string \<Rightarrow> string option" where
  "disk_files ds path =
     (if path = ''/proc/stat'' then Some (''cpu  9 9'' @ [newline] @ ''cpu0 9 9'' @ [newline])
      else if path = ''/proc/uptime'' then Some (''5.20 1'' @ [newline])
      else if path = ''/proc/diskstats'' then Some (concat (map (\<lambda>d. disk_line d @ [newline]) ds))
      else None)"

lemma sample_disk_line: "disk_line sample_disk = ''   8       0 sda 1 2 3 4 5 6 7 8 9 10 11 0 0''"
proof -
  have "replicate 3 CHR '' '' = ''   ''" "replicate 6 CHR '' '' = ''      ''"
    by (simp_all add: eval_nat_numeral)
  then show ?thesis
    by (simp add: disk_line_def sample_disk_def rjust_def print_lu_def dec.simps digit_char_eval)
qed

lemma disk_os_clocks: "clocks_ok (quiet_os (\<lambda>_. disk_files ds))"
proof -
  have "num_of_cpu_lines (fgets_all 16 (''cpu  9 9'' @ [newline] @ ''cpu0 9 9'' @ [newline])) None (- 1) = Some 0"
    using num_of_cpu_lines_step [of 0 "''9 9''" "[]" None "- 1"]
      fgets_all_line [of "''cpu  9 9''" 16 "''cpu0 9 9'' @ [newline]"]
    by (simp add: cpu_line_def plain_text_def dec.simps digit_char_eval strncmp_eq_def)
  moreover have "fgets LEN_128 (''5.20 1'' @ [newline]) = Some (''5.20 1'' @ [newline], [])"
    by (simp add: fgets_def fgets_len_def)
  moreover have "scan_uptime (''5.20 1'' @ [newline]) = Some (5, 20)"
    by (simp add: scan_uptime_def scan_lu_def scan_digits_def scan_sign_def strtoul_def isspace_def isdigit_def
        nat_of_digits_def digit_val_def)
  ultimately show ?thesis
    by (simp add: clocks_ok_def disk_files_def) (simp add: quiet_os_def)
qed

lemma read_io_stat_appends_witness:
  "\<exists>s' ys rs'. read_io_stat (quiet_os (\<lambda>_. disk_files [sample_disk])) MOD_LIST_HEAD boot_list = Some (Done s')
    \<and> holds O_io s' MOD_LIST_HEAD ys rs' \<and> map disk_view rs' = [(Some ''sda'', [1, 2, 3, 4, 5, 6, 7, 8, 9, 10, 11])]"
proof -
  have "disk_ok sample_disk"
    unfolding disk_ok_def sample_disk_line by (simp add: sample_disk_def isspace_def)
  then show ?thesis
    using read_io_stat_appends [of boot_list MOD_LIST_HEAD "[]" "[]" "quiet_os (\<lambda>_. disk_files [sample_disk])"
        "[sample_disk]", OF _ _ disk_os_clocks]
    by (fastforce simp: disk_files_def sample_disk_def map_eq_Cons_conv)
qed

text \<open>
  A line of another form ends the reading: the node just allocated is not linked and
  nothing after the line is read.
\<close>

lemma io_lines_unknown:
  assumes "clocks_ok os" "scan_disk buf = Some None"
  shows "\<exists>t. io_lines os (buf # bufs) head s = print_log os LOG_FATAL ''io.c'' 64
    ''Unknown /proc/diskstats: Ignore it'' ((snd (malloc (O_io zero_io) s))\<lparr>clock := t\<rparr>)"
proof -
  obtain a s1 where m: "malloc (O_io zero_io) s = (a, s1)"
    by (cases "malloc (O_io zero_io) s")
  obtain up where up: "get_cpu_time_in_jiffies os s1 = Some (Done (up, tick s1))"
    using get_cpu_time_defined [OF assms(1)] by blast
  obtain up0 t where up0: "(if 1 < NUM_OF_CPU (tick s1) then read_uptime_in_jiffies os (tick s1)
      else Some (is_uptime0 zero_io_stat, tick s1)) = Some (up0, s1\<lparr>clock := t\<rparr>)"
    using read_uptime_defined [OF assms(1), of "tick s1"] by (cases "1 < NUM_OF_CPU (tick s1)") (auto simp: tick_def)
  show ?thesis
    using m up up0 assms(2) by (intro exI [of _ t]) simp
qed

end
