(* ===== verification/Proc.thy ===== *)
theory Proc
  imports Cpu Records
begin

text \<open>
  \<open>libzsr/proc.c\<close>: the processes of the machine from the directories of \<open>/proc\<close>, and
  their share of the processor time between two readings.
\<close>

subsection \<open>Files of a process\<close>

definition to_proc_file :: "string \<Rightarrow> string \<Rightarrow> string option" where
  "to_proc_file p file =
     (let buf = ''/proc/'' @ p @ ''/'' @ file in if length buf < LEN_256 then Some buf else None)"

text \<open>The variables of the loop over the columns of \<open>/proc/PID/stat\<close>.\<close>

record stat_cols =
  sc_proc :: proc_t
  sc_utime :: u64
  sc_stime :: u64

definition scan_lu_into :: "string \<Rightarrow> u64 \<Rightarrow> u64" where
  "scan_lu_into t old = (case scan_lu t of Some (v, _) \<Rightarrow> v | None \<Rightarrow> old)"

text \<open>
  \<open>sscanf(col, "(%[^)]s)", &proc->cmd)\<close>: what stands between an opening parenthesis and
  the next closing one, if anything does, goes into 256 bytes.
\<close>

definition scan_cmd :: "string \<Rightarrow> string \<Rightarrow> string option" where
  "scan_cmd col old =
     (case col of
        CHR ''('' # r \<Rightarrow> (let w = takeWhile (\<lambda>c. c \<noteq> CHR '')'') r in if w = '''' then Some old else strcpy old w)
      | _ \<Rightarrow> Some old)"

definition stat_col :: "nat \<Rightarrow> string \<Rightarrow> stat_cols \<Rightarrow> stat_cols option" where
  "stat_col i col v =
     (let p = sc_proc v in
      if i = 1 then Some (v\<lparr>sc_proc := p\<lparr>pid := scan_lu_into col (pid p)\<rparr>\<rparr>)
      else if i = 2 then map_option (\<lambda>w. v\<lparr>sc_proc := p\<lparr>cmd := w\<rparr>\<rparr>) (scan_cmd col (cmd p))
      else if i = 3 then Some (v\<lparr>sc_proc := p\<lparr>proc_state := hd col\<rparr>\<rparr>)
      else if i = 4 then Some (v\<lparr>sc_proc := p\<lparr>ppid := scan_lu_into col (ppid p)\<rparr>\<rparr>)
      else if i = 14 then Some (v\<lparr>sc_utime := scan_lu_into col (sc_utime v)\<rparr>)
      else if i = 15 then Some (v\<lparr>sc_stime := scan_lu_into col (sc_stime v)\<rparr>)
      else if i = 22 then Some (v\<lparr>sc_proc := p\<lparr>start_time := scan_lu_into col (start_time p)\<rparr>\<rparr>)
      else Some v)"

fun stat_loop :: "nat \<Rightarrow> string list \<Rightarrow> stat_cols \<Rightarrow> stat_cols option" where
  "stat_loop i [] v = Some v"
| "stat_loop i (col # cols) v =
     (let i = Suc i in
      case stat_col i col v of
        None \<Rightarrow> None
      | Some v \<Rightarrow> if i = 22 then Some v else stat_loop i cols v)"

text \<open>The first column is scanned even where there is none.\<close>

definition read_pid_stat :: "os \<Rightarrow> string \<Rightarrow> proc_t \<Rightarrow> st \<Rightarrow> (st, proc_t \<times> st) result" where
  "read_pid_stat os p proc s =
     bnd (total (to_proc_file p ''stat'')) (\<lambda>proc_file.
       case fopen os proc_file s of
         (None, s) \<Rightarrow> bnd (print_log_l os LOG_ERROR (Some proc_file) s) (\<lambda>s. Some (Done (proc, s)))
       | (Some txt, s) \<Rightarrow>
           (case fgets LEN_512 txt of
              None \<Rightarrow> Some (Done (proc, s))
            | Some (buf, _) \<Rightarrow>
                (let cols = strtok_all (\<lambda>c. c = CHR '' '') buf in
                 if cols = [] then None
                 else bnd (total (stat_loop 0 cols \<lparr>sc_proc = proc, sc_utime = 0, sc_stime = 0\<rparr>))
                   (\<lambda>v. Some (Done ((sc_proc v)\<lparr>cpu_time := sc_utime v + sc_stime v\<rparr>, s))))))"

text \<open>\<open>readlink\<close> fills up to 1024 bytes; the NUL written after 1024 of them is outside.\<close>

definition read_pid_exe :: "os \<Rightarrow> string \<Rightarrow> proc_t \<Rightarrow> st \<Rightarrow> (proc_t \<times> st) option" where
  "read_pid_exe os p proc s = do {
     proc_file \<leftarrow> to_proc_file p ''exe'';
     case os_readlink os (clock s) proc_file of
       None \<Rightarrow> Some (proc, tick s)
     | Some target \<Rightarrow>
         (let w = take LEN_1024 target in
          if length w < length (cmd_path proc)
          then Some (proc\<lparr>cmd_path := (w @ drop (length w) (cmd_path proc))[length w := NUL]\<rparr>, tick s)
          else None)
   }"

fun status_lines :: "string list \<Rightarrow> u32 \<Rightarrow> proc_t \<Rightarrow> u32 \<times> proc_t" where
  "status_lines [] uid proc = (uid, proc)"
| "status_lines (buf # bufs) uid proc =
     (if strncmp_eq buf ''Uid:'' 4 then
        status_lines bufs (case scan_u (drop 4 buf) of Some (v, _) \<Rightarrow> v | None \<Rightarrow> uid) proc
      else if strncmp_eq buf ''VmSize:'' 7 then
        status_lines bufs uid (proc\<lparr>virt_mem_kb := scan_lu_into (drop 7 buf) (virt_mem_kb proc)\<rparr>)
      else if strncmp_eq buf ''VmRSS:'' 6 then
        (uid, proc\<lparr>res_mem_kb := scan_lu_into (drop 6 buf) (res_mem_kb proc)\<rparr>)
      else status_lines bufs uid proc)"

text \<open>Without an entry for the user, \<open>pw->pw_gid\<close> reads through a null pointer.\<close>

definition read_pid_status :: "os \<Rightarrow> string \<Rightarrow> proc_t \<Rightarrow> st \<Rightarrow> (proc_t \<times> st) option" where
  "read_pid_status os p proc s = do {
     proc_file \<leftarrow> to_proc_file p ''status'';
     case fopen os proc_file s of
       (None, s) \<Rightarrow> Some (proc, s)
     | (Some txt, s) \<Rightarrow>
         (case status_lines (fgets_all LEN_128 txt) 0 proc of (uid, proc) \<Rightarrow>
            (case os_getpwuid os (clock s) uid of
               None \<Rightarrow> None
             | Some pw \<Rightarrow> do {
                 u \<leftarrow> strcpy (proc_user proc) (pw_name pw);
                 let proc = proc\<lparr>proc_user := u\<rparr>;
                 let s = tick s;
                 case os_getgrgid os (clock s) (pw_gid pw) of
                   None \<Rightarrow> Some (proc, tick s)
                 | Some name \<Rightarrow> do {
                     g \<leftarrow> strcpy (proc_group proc) name;
                     Some (proc\<lparr>proc_group := g\<rparr>, tick s)
                   }
               }))
   }"

definition set_pid_mem_until :: "os \<Rightarrow> proc_t \<Rightarrow> st \<Rightarrow> (proc_t \<times> st) option" where
  "set_pid_mem_until os proc s =
     (case os_totalram os (clock s) of
        None \<Rightarrow> Some (proc, tick s)
      | Some totalram \<Rightarrow> do {
          let u = ddiv (dmul (dmul (dbl_of_u64 (res_mem_kb proc)) (Fin 1024)) (Fin 100)) (dbl_of_u64 totalram);
          u \<leftarrow> round_with_prec u 2;
          Some (proc\<lparr>mem_util := u\<rparr>, tick s)
        })"

definition set_sys_cpu_time :: "cpu_stat_t \<Rightarrow> proc_t \<Rightarrow> proc_t" where
  "set_sys_cpu_time cpu proc = proc\<lparr>sys_cpu_time :=
     cs_guest cpu + cs_hardirq cpu + cs_idle cpu + cs_iowait cpu + cs_nice cpu + cs_number cpu
     + cs_softirq cpu + cs_steal cpu + cs_sys cpu + cs_user cpu\<rparr>"

definition store_single_pid_info :: "os \<Rightarrow> string \<Rightarrow> proc_t \<Rightarrow> st \<Rightarrow> (st, proc_t \<times> st) result" where
  "store_single_pid_info os p proc s =
     bnd (read_cpu_stat os zero_cpu_stat s) (\<lambda>(cpu, s).
     bnd (read_pid_stat os p proc s) (\<lambda>(proc, s).
     bnd (total (read_pid_exe os p proc s)) (\<lambda>(proc, s).
     bnd (total (read_pid_status os p proc s)) (\<lambda>(proc, s).
     bnd (total (set_pid_mem_until os (set_sys_cpu_time cpu proc) s)) (\<lambda>(proc, s).
       Some (Done (proc, s)))))))"

text \<open>
  An entry of the directory is its name, and whether \<open>stat\<close> succeeds on it with the
  directory bit set. The path is put together in 256 bytes.
\<close>

fun proc_loop :: "os \<Rightarrow> (string \<times> bool) list \<Rightarrow> addr \<Rightarrow> st \<Rightarrow> (st, st) result" where
  "proc_loop os [] head s = Some (Done s)"
| "proc_loop os ((d_name, is_dir) # ents) head s =
     (if d_name \<noteq> '''' \<and> hd d_name = CHR ''.'' then proc_loop os ents head s
      else if LEN_256 \<le> length (''/proc/'' @ d_name) then None
      else if is_dir \<and> is_digit (Some d_name) then
        (let (node, s) = malloc (O_proc zero_proc) s in
         bnd (store_single_pid_info os d_name zero_proc s) (\<lambda>(proc, s).
         bnd (total (do {
             s \<leftarrow> set_obj node (O_proc proc) s;
             on_links (list_add_tail node head) s
           })) (\<lambda>s. proc_loop os ents head s)))
      else proc_loop os ents head s)"

definition get_all_proc :: "os \<Rightarrow> addr \<Rightarrow> st \<Rightarrow> (st, st) result" where
  "get_all_proc os head s =
     (case os_proc_dir os (clock s) of
        None \<Rightarrow> Some (Done (tick s))
      | Some ents \<Rightarrow> proc_loop os ents head (tick s))"


subsection \<open>Processor time between two readings\<close>

record proc_cpu_stat_array_t =
  ar_pid :: "u64 list"
  ar_sys_cpu_time :: "u64 list"
  ar_cpu_time :: "u64 list"

definition calloc_array :: "nat \<Rightarrow> proc_cpu_stat_array_t" where
  "calloc_array n = \<lparr>ar_pid = replicate n 0, ar_sys_cpu_time = replicate n 0, ar_cpu_time = replicate n 0\<rparr>"

text \<open>An access out of the bounds of an array is undefined.\<close>

definition rd_at :: "'a list \<Rightarrow> nat \<Rightarrow> 'a option" where
  "rd_at xs i = (if i < length xs then Some (xs ! i) else None)"

definition wr_array :: "nat \<Rightarrow> u64 \<Rightarrow> u64 \<Rightarrow> u64 \<Rightarrow> proc_cpu_stat_array_t \<Rightarrow> proc_cpu_stat_array_t option" where
  "wr_array i p c sy a =
     (if i < length (ar_pid a) \<and> i < length (ar_cpu_time a) \<and> i < length (ar_sys_cpu_time a)
      then Some \<lparr>ar_pid = (ar_pid a)[i := p], ar_sys_cpu_time = (ar_sys_cpu_time a)[i := sy],
             ar_cpu_time = (ar_cpu_time a)[i := c]\<rparr>
      else None)"

definition count_body :: "addr \<Rightarrow> st \<times> nat \<Rightarrow> (st \<times> nat, st \<times> nat) ctl option" where
  "count_body entry v = (case v of (s, n) \<Rightarrow> Some (Next (s, Suc n)))"

definition ctl_value :: "('a, 'a) ctl \<Rightarrow> 'a" where
  "ctl_value c = (case c of Next v \<Rightarrow> v | Leave v \<Rightarrow> v)"

definition count_procs :: "addr \<Rightarrow> st \<Rightarrow> nat option" where
  "count_procs head s =
     map_option (\<lambda>c. snd (ctl_value c)) (list_for_each_entry count_body (\<lambda>v. links (fst v)) head (s, 0))"

definition copy_body ::
    "addr \<Rightarrow> st \<times> nat \<times> proc_cpu_stat_array_t
      \<Rightarrow> (st \<times> nat \<times> proc_cpu_stat_array_t, st \<times> nat \<times> proc_cpu_stat_array_t) ctl option" where
  "copy_body entry v = (case v of (s, i, a) \<Rightarrow> do {
     r \<leftarrow> obj_at as_proc entry s;
     a \<leftarrow> wr_array i (pid r) (cpu_time r) (sys_cpu_time r) a;
     Some (Next (s, Suc i, a))
   })"

definition copy_procs :: "addr \<Rightarrow> nat \<Rightarrow> st \<Rightarrow> proc_cpu_stat_array_t option" where
  "copy_procs head n s =
     map_option (\<lambda>c. snd (snd (ctl_value c)))
       (list_for_each_entry copy_body (\<lambda>v. links (fst v)) head (s, 0, calloc_array n))"

text \<open>The inner loop over \<open>p\<close>: the differences are taken at index \<open>c\<close> of both arrays.\<close>

fun match_prev ::
    "proc_cpu_stat_array_t \<Rightarrow> proc_cpu_stat_array_t \<Rightarrow> nat \<Rightarrow> nat list \<Rightarrow> nat \<times> proc_cpu_stat_array_t
      \<Rightarrow> (nat \<times> proc_cpu_stat_array_t) option" where
  "match_prev cur prev c [] v = Some v"
| "match_prev cur prev c (p # ps) v = do {
     a \<leftarrow> rd_at (ar_pid cur) c;
     b \<leftarrow> rd_at (ar_pid prev) p;
     if a = b then do {
       ct \<leftarrow> rd_at (ar_cpu_time cur) c;
       pt \<leftarrow> rd_at (ar_cpu_time prev) c;
       cy \<leftarrow> rd_at (ar_sys_cpu_time cur) c;
       py \<leftarrow> rd_at (ar_sys_cpu_time prev) c;
       cs \<leftarrow> wr_array (fst v) a (ct - pt) (cy - py) (snd v);
       Some (Suc (fst v), cs)
     } else match_prev cur prev c ps v
   }"

fun match_procs ::
    "proc_cpu_stat_array_t \<Rightarrow> proc_cpu_stat_array_t \<Rightarrow> nat \<Rightarrow> nat list \<Rightarrow> nat \<times> proc_cpu_stat_array_t
      \<Rightarrow> (nat \<times> proc_cpu_stat_array_t) option" where
  "match_procs cur prev prev_num [] v = Some v"
| "match_procs cur prev prev_num (c # cs) v = do {
     v \<leftarrow> match_prev cur prev c [0..<prev_num] v;
     match_procs cur prev prev_num cs v
   }"

definition store_body :: "u64 \<Rightarrow> u64 \<Rightarrow> u64 \<Rightarrow> addr \<Rightarrow> st \<Rightarrow> (st, st) ctl option" where
  "store_body p ct sy entry s = do {
     r \<leftarrow> obj_at as_proc entry s;
     if pid r = p then do {
       s \<leftarrow> set_obj entry (O_proc (r\<lparr>proc_cpu_util := ddiv (dmul (dbl_of_u64 ct) (Fin 100)) (dbl_of_u64 sy)\<rparr>)) s;
       Some (Leave s)
     } else Some (Next s)
   }"

fun store_utils :: "proc_cpu_stat_array_t \<Rightarrow> addr \<Rightarrow> nat list \<Rightarrow> st \<Rightarrow> st option" where
  "store_utils cs cur_list [] s = Some s"
| "store_utils cs cur_list (i # is) s = do {
     p \<leftarrow> rd_at (ar_pid cs) i;
     ct \<leftarrow> rd_at (ar_cpu_time cs) i;
     sy \<leftarrow> rd_at (ar_sys_cpu_time cs) i;
     c \<leftarrow> list_for_each_entry (store_body p ct sy) links cur_list s;
     store_utils cs cur_list is (ctl_state c)
   }"

definition compute_proc_cpu_stat :: "addr \<Rightarrow> addr \<Rightarrow> st \<Rightarrow> st option" where
  "compute_proc_cpu_stat cur_list prev_list s = do {
     cur_num_proc \<leftarrow> count_procs cur_list s;
     prev_num_proc \<leftarrow> count_procs prev_list s;
     cur_cs_array \<leftarrow> copy_procs cur_list cur_num_proc s;
     prev_cs_array \<leftarrow> copy_procs prev_list prev_num_proc s;
     (i, cs_array) \<leftarrow> match_procs cur_cs_array prev_cs_array prev_num_proc [0..<cur_num_proc]
                       (0, calloc_array cur_num_proc);
     store_utils cs_array cur_list [0..<cur_num_proc] s
   }"

subsection \<open>The columns of /proc/PID/stat\<close>

lemma stat_loop_22:
  "stat_loop 0 ([c1, c2, c3, c4, c5, c6, c7, c8, c9, c10, c11, c12, c13, c14, c15, c16, c17, c18, c19, c20, c21, c22] @ cols)
     \<lparr>sc_proc = p, sc_utime = 0, sc_stime = 0\<rparr>
   = map_option (\<lambda>w. \<lparr>sc_proc = p\<lparr>pid := scan_lu_into c1 (pid p), cmd := w, proc_state := hd c3,
        ppid := scan_lu_into c4 (ppid p), start_time := scan_lu_into c22 (start_time p)\<rparr>,
        sc_utime = scan_lu_into c14 0, sc_stime = scan_lu_into c15 0\<rparr>) (scan_cmd c2 (cmd p))"
  by (cases "scan_cmd c2 (cmd p)") (simp_all add: stat_col_def Let_def)

lemma scan_lu_into_print: "scan_lu_into (print_lu v) old = v"
  using scan_lu_print_lu [of "[]" "[]" v] by (simp add: scan_lu_into_def)

lemma scan_cmd_name:
  assumes "CHR '')'' \<notin> set name" "name \<noteq> ''''" "length name < length old"
  shows "scan_cmd (CHR ''('' # name @ rest) old
    = (if rest = '''' \<or> hd rest = CHR '')'' then strcpy old name else scan_cmd (CHR ''('' # name @ rest) old)"
proof -
  have "takeWhile (\<lambda>c. c \<noteq> CHR '')'') (name @ rest) = name" if "rest = '''' \<or> hd rest = CHR '')''"
  proof -
    have "takeWhile (\<lambda>c. c \<noteq> CHR '')'') rest = ''''"
      using that by (cases rest) auto
    then show ?thesis
      using assms(1) by (auto simp: takeWhile_append)
  qed
  then show ?thesis
    using assms(2) by (auto simp: scan_cmd_def)
qed

text \<open>A column holds no blank, newline or NUL.\<close>

definition column :: "string \<Rightarrow> bool" where
  "column w \<longleftrightarrow> w \<noteq> '''' \<and> CHR '' '' \<notin> set w \<and> newline \<notin> set w \<and> NUL \<notin> set w"

lemma column_print_lu [simp]: "column (print_lu v)"
proof -
  have "isdigit c" if "c \<in> set (print_lu v)" for c
    using that dec_digits [of "unat v"] by (simp add: print_lu_def list_all_iff)
  then have "CHR '' '' \<notin> set (print_lu v)" "newline \<notin> set (print_lu v)" "NUL \<notin> set (print_lu v)"
    using not_isdigit_blank isdigit_not_special by blast+
  then show ?thesis
    by (simp add: column_def print_lu_def)
qed

lemma column_Cons:
  "column (c # w) = (CHR '' '' \<notin> set (c # w) \<and> newline \<notin> set (c # w) \<and> NUL \<notin> set (c # w))"
  by (auto simp: column_def)

lemma join_snoc: "join sep (us @ [u]) @ t = join sep (us @ [u @ t])"
  by (induction us rule: induct_list012) auto

lemma read_pid_stat_columns:
  assumes "to_proc_file p ''stat'' = Some f" "os_file os (clock s) f = Some (join '' '' (cs @ w # ws) @ newline # rest)"
    and "\<forall>c\<in>set (cs @ w # ws). column c" "length cs = 22" "length (join '' '' (cs @ w # ws)) \<le> 510"
  shows "read_pid_stat os p proc s = bnd (total (stat_loop 0 (cs @ butlast (w # ws) @ [last (w # ws) @ [newline]])
      \<lparr>sc_proc = proc, sc_utime = 0, sc_stime = 0\<rparr>))
    (\<lambda>v. Some (Done ((sc_proc v)\<lparr>cpu_time := sc_utime v + sc_stime v\<rparr>, tick s)))"
proof -
  let ?ts = "cs @ w # ws"
  let ?ts' = "butlast ?ts @ [last ?ts @ [newline]]"
  have clean: "newline \<notin> set (join '' '' ?ts)" "NUL \<notin> set (join '' '' ?ts)"
    using set_join [of "'' ''" ?ts] assms(3) unfolding column_def by fastforce+
  have "fgets_all LEN_512 (join '' '' ?ts @ newline # []) = (join '' '' ?ts @ [newline]) # fgets_all LEN_512 []"
    using clean assms(5) by (intro fgets_all_line) simp_all
  have "takeWhile (\<lambda>c. c \<noteq> newline) (join '' '' ?ts @ newline # rest) = join '' '' ?ts"
    using clean by (auto simp: takeWhile_append takeWhile_eq_all_conv)
  then have "fgets_len LEN_512 (join '' '' ?ts @ newline # rest) = Suc (length (join '' '' ?ts))"
    using assms(5) by (simp add: fgets_len_def)
  then have "\<exists>r. fgets LEN_512 (join '' '' ?ts @ newline # rest) = Some (join '' '' ?ts @ [newline], r)"
    using clean by (simp add: fgets_def)
  then obtain r where r: "fgets LEN_512 (join '' '' ?ts @ newline # rest) = Some (join '' '' ?ts @ [newline], r)"
    by blast
  obtain us u where us: "?ts = us @ [u]"
    by (cases ?ts rule: rev_cases) auto
  have "join '' '' ?ts @ [newline] = join '' '' ?ts'"
    unfolding us by (simp add: join_snoc)
  moreover have "strtok_all (\<lambda>c. c = CHR '' '') (join '' '' ?ts') = ?ts'"
  proof (rule strtok_all_join)
    show "\<forall>w\<in>set ?ts'. w \<noteq> '''' \<and> (\<forall>c\<in>set w. c \<noteq> CHR '' '')"
      using assms(3) unfolding us by (auto simp: column_def)
  qed simp
  moreover have "?ts' = cs @ butlast (w # ws) @ [last (w # ws) @ [newline]]"
    by (simp add: butlast_append)
  ultimately have "strtok_all (\<lambda>c. c = CHR '' '') (join '' '' ?ts @ [newline])
      = cs @ butlast (w # ws) @ [last (w # ws) @ [newline]]"
    by (simp only:)
  then show ?thesis
    using assms(1,2) r by (simp add: read_pid_stat_def fopen_def del: butlast.simps last.simps)
qed

text \<open>
  C18. The status line of a process is read column by column as the kernel prints it: if the
  process's name has no blank and no closing parenthesis, \<open>read_pid_stat\<close> stores its
  number, name, state, parent, start time, and the sum of user and system time.
\<close>

theorem read_pid_stat_roundtrip:
  assumes "to_proc_file p ''stat'' = Some f"
    and "cols = [print_lu n, CHR ''('' # name @ '')'', [state], print_lu parent, c5, c6, c7, c8, c9, c10, c11, c12,
      c13, print_lu ut, print_lu stime, c16, c17, c18, c19, c20, c21, print_lu start]"
    and "os_file os (clock s) f = Some (join '' '' (cols @ w # ws) @ newline # rest)"
    and "\<forall>c\<in>set (cols @ w # ws). column c" "length (join '' '' (cols @ w # ws)) \<le> 510"
    and "CHR '')'' \<notin> set name" "name \<noteq> ''''" "length name < length (cmd proc)"
  shows "\<exists>c. read_pid_stat os p proc s = Some (Done (proc\<lparr>pid := n, cmd := c, proc_state := state, ppid := parent,
      start_time := start, cpu_time := ut + stime\<rparr>, tick s)) \<and> buf_str c = Some name"
proof -
  obtain c where c: "strcpy (cmd proc) name = Some c"
    using assms(8) by (simp add: strcpy_def)
  have sc: "scan_cmd (CHR ''('' # name @ '')'') (cmd proc) = Some c"
    using scan_cmd_name [OF assms(6-8), of "'')''"] c by simp
  have "NUL \<notin> set name"
    using assms(2,4) by (simp add: column_def)
  then have named: "buf_str c = Some name"
    using buf_str_strcpy [OF c] by blast
  have loop: "stat_loop 0 (cols @ t) \<lparr>sc_proc = proc, sc_utime = 0, sc_stime = 0\<rparr>
      = Some \<lparr>sc_proc = proc\<lparr>pid := n, cmd := c, proc_state := state, ppid := parent, start_time := start\<rparr>,
              sc_utime = ut, sc_stime = stime\<rparr>" for t
    unfolding assms(2) stat_loop_22 sc scan_lu_into_print by simp
  have "length cols = 22"
    by (simp add: assms(2))
  from read_pid_stat_columns [OF assms(1,3,4) this assms(5), of proc] show ?thesis
    unfolding loop using named by (intro exI [of _ c]) simp
qed

lemma read_pid_stat_roundtrip_witness:
  "\<exists>c. read_pid_stat (quiet_os (\<lambda>_ _. Some (join '' '' ([print_lu 2310, ''(bash)'', ''S'', print_lu 2309,
      ''2310'', ''2310'', ''34816'', ''2400'', ''0'', ''9'', ''0'', ''0'', ''0'', print_lu 12, print_lu 30,
      ''0'', ''0'', ''20'', ''0'', ''1'', ''0'', print_lu 8876] @ [''1'']) @ newline # ''''))) ''2310'' zero_proc boot
    = Some (Done (zero_proc\<lparr>pid := 2310, cmd := c, proc_state := CHR ''S'', ppid := 2309,
        start_time := 8876, cpu_time := 42\<rparr>, tick boot)) \<and> buf_str c = Some ''bash''"
proof -
  let ?cols = "[print_lu 2310, ''(bash)'', ''S'', print_lu 2309, ''2310'', ''2310'', ''34816'', ''2400'', ''0'', ''9'',
      ''0'', ''0'', ''0'', print_lu 12, print_lu 30, ''0'', ''0'', ''20'', ''0'', ''1'', ''0'', print_lu 8876]"
  have len: "length (print_lu 2310) = 4" "length (print_lu 2309) = 4" "length (print_lu 12) = 2"
    "length (print_lu 30) = 2" "length (print_lu 8876) = 4"
    by (simp_all add: print_lu_def dec.simps)
  have col: "\<forall>c\<in>set (?cols @ [''1'']). column c"
    by (simp add: column_Cons)
  show ?thesis
    using read_pid_stat_roundtrip [where p = "''2310''" and f = "''/proc/2310/stat''" and cols = ?cols and w = "''1''"
        and ws = "[]" and name = "''bash''" and rest = "''''" and state = "CHR ''S''" and s = boot and proc = zero_proc
        and n = 2310 and parent = 2309 and ut = 12 and stime = 30 and start = 8876
        and ?c5.0 = "''2310''" and ?c6.0 = "''2310''" and ?c7.0 = "''34816''" and ?c8.0 = "''2400''" and ?c9.0 = "''0''" and ?c10.0 = "''9''" and ?c11.0 = "''0''" and ?c12.0 = "''0''"
        and ?c13.0 = "''0''" and ?c16.0 = "''0''" and ?c17.0 = "''0''" and ?c18.0 = "''20''" and ?c19.0 = "''0''" and ?c20.0 = "''1''" and ?c21.0 = "''0''",
        OF _ _ _ col]
    by (simp add: to_proc_file_def len zero_proc_def chars0_def)
qed

text \<open>
  C38. A blank in the name of a process shifts the columns: its state is the first
  character of the rest of the name, its parent is not read, its time is the one of the
  columns before those of the user and system time, and its start time is the column
  before that of the start time.
\<close>

theorem read_pid_stat_blank_in_name:
  assumes "to_proc_file p ''stat'' = Some f"
    and "cols = [print_lu n, CHR ''('' # name1, name2 @ '')'', [state], print_lu parent, c5, c6, c7, c8, c9, c10, c11,
      c12, print_lu cmaj, print_lu ut, print_lu stime, c16, c17, c18, c19, c20, print_lu itreal]"
    and "os_file os (clock s) f = Some (join '' '' (cols @ w # ws) @ newline # rest)"
    and "\<forall>c\<in>set (cols @ w # ws). column c" "length (join '' '' (cols @ w # ws)) \<le> 510"
    and "CHR '')'' \<notin> set name1" "name1 \<noteq> ''''" "length name1 < length (cmd proc)" "name2 \<noteq> ''''"
    and "\<not> isdigit state" "state \<noteq> CHR ''-''" "state \<noteq> CHR ''+''"
  shows "\<exists>c. read_pid_stat os p proc s = Some (Done (proc\<lparr>pid := n, cmd := c, proc_state := hd name2,
      start_time := itreal, cpu_time := cmaj + ut\<rparr>, tick s)) \<and> buf_str c = Some name1"
proof -
  obtain c where c: "strcpy (cmd proc) name1 = Some c"
    using assms(8) by (simp add: strcpy_def)
  have sc: "scan_cmd (CHR ''('' # name1) (cmd proc) = Some c"
    using scan_cmd_name [OF assms(6-8), of "''''"] c by simp
  have "NUL \<notin> set name1"
    using assms(2,4) by (simp add: column_def)
  then have named: "buf_str c = Some name1"
    using buf_str_strcpy [OF c] by blast
  have "dropWhile isspace [state] = [state] \<or> dropWhile isspace [state] = []"
    by simp
  then have "scan_lu [state] = None"
    using assms(10-12) by (auto simp: scan_lu_def scan_digits_def scan_sign_def)
  then have st: "scan_lu_into [state] old = old" for old
    by (simp add: scan_lu_into_def)
  have hd2: "hd (name2 @ t) = hd name2" for t
    using assms(9) by simp
  have loop: "stat_loop 0 (cols @ t) \<lparr>sc_proc = proc, sc_utime = 0, sc_stime = 0\<rparr>
      = Some \<lparr>sc_proc = proc\<lparr>pid := n, cmd := c, proc_state := hd name2, start_time := itreal\<rparr>,
              sc_utime = cmaj, sc_stime = ut\<rparr>" for t
    unfolding assms(2) stat_loop_22 sc scan_lu_into_print st hd2 by simp
  have "length cols = 22"
    by (simp add: assms(2))
  from read_pid_stat_columns [OF assms(1,3,4) this assms(5), of proc] show ?thesis
    unfolding loop using named by (intro exI [of _ c]) simp
qed

lemma read_pid_stat_blank_in_name_witness:
  "\<exists>c. read_pid_stat (quiet_os (\<lambda>_ _. Some (join '' '' ([print_lu 9, ''(tmux:'', ''server)'', ''S'', print_lu 1,
      ''9'', ''9'', ''0'', ''-1'', ''0'', ''9'', ''0'', ''0'', print_lu 0, print_lu 12, print_lu 30,
      ''0'', ''20'', ''0'', ''1'', ''0'', print_lu 0] @ [''8876'']) @ newline # ''''))) ''9'' zero_proc boot
    = Some (Done (zero_proc\<lparr>pid := 9, cmd := c, proc_state := CHR ''s'', start_time := 0, cpu_time := 12\<rparr>, tick boot))
    \<and> buf_str c = Some ''tmux:''"
proof -
  let ?cols = "[print_lu 9, ''(tmux:'', ''server)'', ''S'', print_lu 1, ''9'', ''9'', ''0'', ''-1'', ''0'', ''9'',
      ''0'', ''0'', print_lu 0, print_lu 12, print_lu 30, ''0'', ''20'', ''0'', ''1'', ''0'', print_lu 0]"
  have len: "length (print_lu 9) = 1" "length (print_lu 1) = 1" "length (print_lu 0) = 1"
    "length (print_lu 12) = 2" "length (print_lu 30) = 2"
    by (simp_all add: print_lu_def dec.simps)
  have col: "\<forall>c\<in>set (?cols @ [''8876'']). column c"
    by (simp add: column_Cons)
  show ?thesis
    using read_pid_stat_blank_in_name [where p = "''9''" and f = "''/proc/9/stat''" and cols = ?cols and w = "''8876''"
        and ws = "[]" and ?name1.0 = "''tmux:''" and ?name2.0 = "''server''" and rest = "''''" and state = "CHR ''S''"
        and s = boot and proc = zero_proc and n = 9 and parent = 1 and cmaj = 0 and ut = 12 and stime = 30 and itreal = 0
        and ?c5.0 = "''9''" and ?c6.0 = "''9''" and ?c7.0 = "''0''" and ?c8.0 = "''-1''" and ?c9.0 = "''0''" and ?c10.0 = "''9''" and ?c11.0 = "''0''"
        and ?c12.0 = "''0''" and ?c16.0 = "''0''" and ?c17.0 = "''20''" and ?c18.0 = "''0''" and ?c19.0 = "''1''" and ?c20.0 = "''0''", OF _ _ _ col]
    by (simp add: to_proc_file_def len zero_proc_def chars0_def isdigit_def)
qed

subsection \<open>What the loops over the processes compute\<close>

definition proc_array :: "proc_t list \<Rightarrow> proc_cpu_stat_array_t" where
  "proc_array rs = \<lparr>ar_pid = map pid rs, ar_sys_cpu_time = map sys_cpu_time rs, ar_cpu_time = map cpu_time rs\<rparr>"

text \<open>An array given by its entries: process, its time, the time of all.\<close>

definition entries :: "(u64 \<times> u64 \<times> u64) list \<Rightarrow> proc_cpu_stat_array_t" where
  "entries ts = \<lparr>ar_pid = map fst ts, ar_sys_cpu_time = map (\<lambda>t. snd (snd t)) ts, ar_cpu_time = map (\<lambda>t. fst (snd t)) ts\<rparr>"

lemma proc_array_entries: "proc_array rs = entries (map (\<lambda>r. (pid r, cpu_time r, sys_cpu_time r)) rs)"
  by (simp add: proc_array_def entries_def comp_def)

lemma calloc_entries: "calloc_array n = entries (replicate n (0, 0, 0))"
  by (simp add: calloc_array_def entries_def)

lemma wr_array_entries:
  "wr_array i p c sy (entries ts) = (if i < length ts then Some (entries (ts[i := (p, c, sy)])) else None)"
  by (simp add: wr_array_def entries_def map_update)

lemma count_procs_eq:
  assumes "holds K s head xs rs"
  shows "count_procs head s = Some (length rs)"
proof -
  have "fold_ctl count_body xs (s, n) = Some (Next (s, n + length xs))" for n
    by (induction xs arbitrary: n) (simp_all add: count_body_def)
  moreover have "list_for_each_entry count_body (\<lambda>v. links (fst v)) head (s, 0) = fold_ctl count_body xs (s, 0)"
    by (rule list_for_each_entry_fold [where keep = "\<lambda>v. fst v = s"])
       (use holds_ring [OF assms] in \<open>auto simp: count_body_def\<close>)
  ultimately show ?thesis
    by (simp add: count_procs_def ctl_value_def holds_length [OF assms])
qed

lemma update_middle: "(us @ v # vs)[length us := w] = us @ w # vs"
  by (induction us) auto

lemma copy_fold:
  assumes "map (objs s) xs = map (\<lambda>r. Some (O_proc r)) rs"
  shows "fold_ctl copy_body xs (s, length us, entries (us @ replicate (length rs) (0, 0, 0)))
    = Some (Next (s, length us + length rs, entries (us @ map (\<lambda>r. (pid r, cpu_time r, sys_cpu_time r)) rs)))"
  using assms
proof (induction xs arbitrary: us rs)
  case (Cons x xs)
  then obtain r rs' where rs: "rs = r # rs'" "objs s x = Some (O_proc r)" "map (objs s) xs = map (\<lambda>r. Some (O_proc r)) rs'"
    by (cases rs) auto
  then have "obj_at as_proc x s = Some r"
    by (simp add: obj_at_def as_proc_def)
  then show ?case
    using Cons.IH [of rs' "us @ [(pid r, cpu_time r, sys_cpu_time r)]"] rs
    by (simp add: copy_body_def wr_array_entries update_middle)
qed simp

lemma copy_procs_eq:
  assumes "holds O_proc s head xs rs"
  shows "copy_procs head (length rs) s = Some (proc_array rs)"
proof -
  have "list_for_each_entry copy_body (\<lambda>v. links (fst v)) head (s, 0, calloc_array (length rs))
      = fold_ctl copy_body xs (s, 0, calloc_array (length rs))"
    by (rule list_for_each_entry_fold [where keep = "\<lambda>v. fst v = s"])
       (use holds_ring [OF assms] in \<open>auto simp: copy_body_def split: bind_splits\<close>)
  then show ?thesis
    using copy_fold [of s xs rs "[]"] assms
    by (simp add: copy_procs_def ctl_value_def calloc_entries proc_array_entries holds_def)
qed

lemma rd_at_array [simp]:
  "c < length rs \<Longrightarrow> rd_at (ar_pid (proc_array rs)) c = Some (pid (rs ! c))"
  "c < length rs \<Longrightarrow> rd_at (ar_cpu_time (proc_array rs)) c = Some (cpu_time (rs ! c))"
  "c < length rs \<Longrightarrow> rd_at (ar_sys_cpu_time (proc_array rs)) c = Some (sys_cpu_time (rs ! c))"
  "\<not> c < length rs \<Longrightarrow> rd_at (ar_cpu_time (proc_array rs)) c = None"
  by (simp_all add: rd_at_def proc_array_def)

text \<open>The differences the code takes: at the same index of the two lists.\<close>

definition time_diff :: "proc_t list \<Rightarrow> proc_t list \<Rightarrow> nat \<Rightarrow> u64 \<times> u64 \<times> u64" where
  "time_diff cs ps c = (pid (cs ! c), cpu_time (cs ! c) - cpu_time (ps ! c), sys_cpu_time (cs ! c) - sys_cpu_time (ps ! c))"

definition matched :: "proc_t list \<Rightarrow> proc_t list \<Rightarrow> nat \<Rightarrow> bool" where
  "matched cs ps c \<longleftrightarrow> pid (cs ! c) \<in> pid ` set ps"

lemma match_prev_some:
  assumes "c < length cs" "\<forall>p\<in>set js. p < length ps"
  shows "match_prev (proc_array cs) (proc_array ps) c js (i, entries ts)
    = (if \<exists>p\<in>set js. pid (cs ! c) = pid (ps ! p)
       then if c < length ps \<and> i < length ts then Some (Suc i, entries (ts[i := time_diff cs ps c])) else None
       else Some (i, entries ts))"
  using assms(2)
proof (induction js)
  case (Cons p js)
  then show ?case
    using assms(1) by (cases "c < length ps") (auto simp: wr_array_entries time_diff_def)
qed simp

lemma ex_upt_nth: "(\<exists>p\<in>set [0..<length ps]. x = pid (ps ! p)) \<longleftrightarrow> x \<in> pid ` set ps"
proof -
  have "set ps = (!) ps ` {0..<length ps}"
    by (simp add: nth_image)
  then show ?thesis
    by (auto simp: image_image)
qed

lemma match_procs_some:
  assumes "\<forall>c\<in>set js. c < length cs" "\<forall>c\<in>set js. matched cs ps c \<longrightarrow> c < length ps" "length js \<le> k"
  shows "match_procs (proc_array cs) (proc_array ps) (length ps) js (length us, entries (us @ replicate k (0, 0, 0)))
    = (let ms = map (time_diff cs ps) (filter (matched cs ps) js)
       in Some (length us + length ms, entries (us @ ms @ replicate (k - length ms) (0, 0, 0))))"
  using assms
proof (induction js arbitrary: us k)
  case (Cons c js)
  then obtain k' where k: "k = Suc k'" by (cases k) auto
  show ?case
  proof (cases "matched cs ps c")
    case True
    then have "match_prev (proc_array cs) (proc_array ps) c [0..<length ps] (length us, entries (us @ replicate k (0, 0, 0)))
        = Some (length (us @ [time_diff cs ps c]), entries ((us @ [time_diff cs ps c]) @ replicate k' (0, 0, 0)))"
      using match_prev_some [of c cs "[0..<length ps]" ps "length us" "us @ replicate k (0, 0, 0)"] Cons.prems
      unfolding ex_upt_nth matched_def by (simp add: k update_middle)
    then show ?thesis
      using Cons.IH [of k' "us @ [time_diff cs ps c]"] Cons.prems True by (simp add: k Let_def)
  next
    case False
    then have "match_prev (proc_array cs) (proc_array ps) c [0..<length ps] (length us, entries (us @ replicate k (0, 0, 0)))
        = Some (length us, entries (us @ replicate k (0, 0, 0)))"
      using match_prev_some [of c cs "[0..<length ps]" ps "length us" "us @ replicate k (0, 0, 0)"] Cons.prems
      unfolding ex_upt_nth matched_def by simp
    then show ?thesis
      using Cons.IH [of k us] Cons.prems False by (simp add: Let_def)
  qed
qed simp

lemma match_procs_none:
  assumes "\<forall>c\<in>set js. c < length cs" "\<exists>c\<in>set js. matched cs ps c \<and> \<not> c < length ps"
  shows "match_procs (proc_array cs) (proc_array ps) (length ps) js (i, entries ts) = None"
  using assms
proof (induction js arbitrary: i ts)
  case (Cons c js)
  have m: "match_prev (proc_array cs) (proc_array ps) c [0..<length ps] (i, entries ts)
      = (if matched cs ps c
         then if c < length ps \<and> i < length ts then Some (Suc i, entries (ts[i := time_diff cs ps c])) else None
         else Some (i, entries ts))"
    using match_prev_some [of c cs "[0..<length ps]" ps i ts] Cons.prems(1)
    unfolding ex_upt_nth matched_def by simp
  then show ?case
    using Cons by (cases "matched cs ps c"; cases "c < length ps") (auto split: if_splits)
qed simp

text \<open>Storing one entry into the list: the first process of that number gets the share.\<close>

definition store_util :: "u64 \<times> u64 \<times> u64 \<Rightarrow> proc_t \<Rightarrow> proc_t" where
  "store_util t r = (if pid r = fst t
     then r\<lparr>proc_cpu_util := ddiv (dmul (dbl_of_u64 (fst (snd t))) (Fin 100)) (dbl_of_u64 (snd (snd t)))\<rparr> else r)"

lemma store_util_pid [simp]: "pid (store_util t r) = pid r"
  by (simp add: store_util_def)

lemma store_body_cases:
  "store_body p ct sy x t = Some (Next t') \<Longrightarrow> t' = t"
  "store_body p ct sy x t = Some (Leave t') \<Longrightarrow> \<exists>ob. t' = t\<lparr>objs := ob\<rparr>"
  by (auto simp: store_body_def set_obj_def split: bind_splits if_splits option.splits)

lemma map_objs_store:
  assumes "x \<notin> set xs" "map (objs s) xs = map (\<lambda>r. Some (O_proc r)) rs"
  shows "map ((objs s)(x \<mapsto> ob)) xs = map (\<lambda>r. Some (O_proc r)) rs"
proof -
  have "map ((objs s)(x \<mapsto> ob)) xs = map (objs s) xs"
    using assms(1) by auto
  then show ?thesis by (simp only: assms(2))
qed

lemma store_fold:
  assumes "distinct xs" "map (objs s) xs = map (\<lambda>r. Some (O_proc r)) rs" "distinct (map pid rs)"
  shows "\<exists>c ob. fold_ctl (store_body (fst t) (fst (snd t)) (snd (snd t))) xs s = Some c \<and> ctl_state c = s\<lparr>objs := ob\<rparr>
    \<and> map ob xs = map (\<lambda>r. Some (O_proc (store_util t r))) rs \<and> (\<forall>a. a \<notin> set xs \<longrightarrow> ob a = objs s a)"
  using assms
proof (induction xs arbitrary: rs)
  case Nil
  then show ?case by (auto simp: ctl_state_def intro!: exI [of _ "objs s"])
next
  case (Cons x xs)
  then obtain r rs' where rs: "rs = r # rs'" "objs s x = Some (O_proc r)" "map (objs s) xs = map (\<lambda>r. Some (O_proc r)) rs'"
    by (cases rs) auto
  have at: "obj_at as_proc x s = Some r"
    by (simp add: obj_at_def as_proc_def rs(2))
  show ?case
  proof (cases "pid r = fst t")
    case True
    have others: "map (\<lambda>r. Some (O_proc (store_util t r))) rs' = map (\<lambda>r. Some (O_proc r)) rs'"
      using Cons.prems(3) True rs(1) by (auto simp: store_util_def image_iff)
    let ?ob = "(objs s)(x \<mapsto> O_proc (store_util t r))"
    have "fold_ctl (store_body (fst t) (fst (snd t)) (snd (snd t))) (x # xs) s = Some (Leave (s\<lparr>objs := ?ob\<rparr>))"
      using True at rs(2) by (simp add: store_body_def set_obj_def store_util_def)
    moreover have "map ?ob (x # xs) = map (\<lambda>r. Some (O_proc (store_util t r))) rs"
      using map_objs_store [OF _ rs(3), of x] Cons.prems(1) others rs(1) by simp
    moreover have "\<forall>a. a \<notin> set (x # xs) \<longrightarrow> ?ob a = objs s a"
      by simp
    moreover have "ctl_state (Leave (s\<lparr>objs := ?ob\<rparr>)) = s\<lparr>objs := ?ob\<rparr>"
      by (simp add: ctl_state_def)
    ultimately show ?thesis
      by blast
  next
    case False
    have "store_util t r = r"
      using False by (simp add: store_util_def)
    moreover have "store_body (fst t) (fst (snd t)) (snd (snd t)) x s = Some (Next s)"
      using False at by (simp add: store_body_def)
    moreover obtain c ob where "fold_ctl (store_body (fst t) (fst (snd t)) (snd (snd t))) xs s = Some c"
      "ctl_state c = s\<lparr>objs := ob\<rparr>" "map ob xs = map (\<lambda>r. Some (O_proc (store_util t r))) rs'"
      "\<forall>a. a \<notin> set xs \<longrightarrow> ob a = objs s a"
      using Cons.IH [of rs'] Cons.prems rs by auto
    ultimately show ?thesis
      using rs Cons.prems(1) by (intro exI [of _ c] exI [of _ ob]) simp
  qed
qed

lemma store_utils_fold:
  assumes "holds O_proc s cur xs rs" "distinct (map pid rs)" "\<forall>i\<in>set is. i < length ts"
  shows "\<exists>ob. store_utils (entries ts) cur is s = Some (s\<lparr>objs := ob\<rparr>)
    \<and> map ob xs = map (\<lambda>r. Some (O_proc (foldl (\<lambda>r i. store_util (ts ! i) r) r is))) rs
    \<and> (\<forall>a. a \<notin> set xs \<longrightarrow> ob a = objs s a)"
  using assms
proof (induction "is" arbitrary: s rs)
  case Nil
  then show ?case by (intro exI [of _ "objs s"]) (simp add: holds_def)
next
  case (Cons i "is")
  let ?t = "ts ! i"
  have rd: "rd_at (ar_pid (entries ts)) i = Some (fst ?t)" "rd_at (ar_cpu_time (entries ts)) i = Some (fst (snd ?t))"
    "rd_at (ar_sys_cpu_time (entries ts)) i = Some (snd (snd ?t))"
    using Cons.prems(3) by (simp_all add: rd_at_def entries_def)
  have ring: "ring (links s) cur xs"
    by (rule holds_ring [OF Cons.prems(1)])
  have dist: "distinct xs"
    using ring_distinct [OF ring] by simp
  obtain c ob where c: "fold_ctl (store_body (fst ?t) (fst (snd ?t)) (snd (snd ?t))) xs s = Some c" "ctl_state c = s\<lparr>objs := ob\<rparr>"
    "map ob xs = map (\<lambda>r. Some (O_proc (store_util ?t r))) rs" "\<forall>a. a \<notin> set xs \<longrightarrow> ob a = objs s a"
    using store_fold [OF dist _ Cons.prems(2), of s ?t] Cons.prems(1) unfolding holds_def by blast
  have loop: "list_for_each_entry (store_body (fst ?t) (fst (snd ?t)) (snd (snd ?t))) links cur s = Some c"
    unfolding c(1) [symmetric]
    by (rule list_for_each_entry_fold [where keep = "\<lambda>u. u = s"]) (use ring in \<open>auto dest: store_body_cases\<close>)
  have h: "holds O_proc (s\<lparr>objs := ob\<rparr>) cur xs (map (store_util ?t) rs)"
    using ring c(3) by (simp add: holds_def)
  have "distinct (map pid (map (store_util ?t) rs))"
    using Cons.prems(2) by (simp add: comp_def)
  from Cons.IH [OF h this] Cons.prems(3) obtain ob' where ob': "store_utils (entries ts) cur is (s\<lparr>objs := ob\<rparr>) = Some (s\<lparr>objs := ob'\<rparr>)"
    "map ob' xs = map (\<lambda>r. Some (O_proc (foldl (\<lambda>r i. store_util (ts ! i) r) r is))) (map (store_util ?t) rs)"
    "\<forall>a. a \<notin> set xs \<longrightarrow> ob' a = ob a"
    by auto
  then show ?case
    using rd loop c(2,4) by (intro exI [of _ ob']) simp
qed

text \<open>The entries have different processes, so that at most one of them meets a record.\<close>

lemma foldl_store_none:
  "\<forall>i\<in>set is. fst (ts ! i) \<noteq> pid r \<Longrightarrow> foldl (\<lambda>r i. store_util (ts ! i) r) r is = r"
proof (induction "is")
  case (Cons i "is")
  then have "store_util (ts ! i) r = r"
    by (auto simp: store_util_def)
  then show ?case using Cons by simp
qed simp

lemma foldl_store_one:
  assumes "distinct is" "j \<in> set is" "fst (ts ! j) = pid r" "\<forall>i\<in>set is. i \<noteq> j \<longrightarrow> fst (ts ! i) \<noteq> pid r"
  shows "foldl (\<lambda>r i. store_util (ts ! i) r) r is = store_util (ts ! j) r"
proof -
  obtain us vs where split: "is = us @ j # vs"
    using assms(2) by (meson split_list)
  have "foldl (\<lambda>r i. store_util (ts ! i) r) r us = r"
    using assms(1,4) split by (intro foldl_store_none) auto
  moreover have "foldl (\<lambda>r i. store_util (ts ! i) r) (store_util (ts ! j) r) vs = store_util (ts ! j) r"
    using assms(1,4) split by (intro foldl_store_none) auto
  ultimately show ?thesis
    by (simp add: split)
qed

lemma compute_proc_arrays:
  assumes "holds O_proc s cur xs cs" "holds O_proc s prev ys ps"
  shows "compute_proc_cpu_stat cur prev s = do {
     (i, a) \<leftarrow> match_procs (proc_array cs) (proc_array ps) (length ps) [0..<length cs] (0, calloc_array (length cs));
     store_utils a cur [0..<length cs] s
   }"
  using count_procs_eq [OF assms(1)] count_procs_eq [OF assms(2)] copy_procs_eq [OF assms(1)] copy_procs_eq [OF assms(2)]
  by (simp add: compute_proc_cpu_stat_def)

text \<open>What a record becomes: a process that is in both lists gets its share.\<close>

definition proc_share :: "proc_t list \<Rightarrow> proc_t list \<Rightarrow> nat \<Rightarrow> proc_t" where
  "proc_share cs ps c = (if matched cs ps c then store_util (time_diff cs ps c) (cs ! c) else cs ! c)"

lemma proc_share_final:
  assumes "distinct (map pid cs)" "0 \<notin> pid ` set cs" "c < length cs"
    and "ts = map (time_diff cs ps) (filter (matched cs ps) [0..<length cs])
      @ replicate (length cs - length (filter (matched cs ps) [0..<length cs])) (0, 0, 0)"
  shows "foldl (\<lambda>r i. store_util (ts ! i) r) (cs ! c) [0..<length cs] = proc_share cs ps c"
proof -
  let ?f = "filter (matched cs ps) [0..<length cs]"
  have len: "length ?f \<le> length cs"
    using length_filter_le [of "matched cs ps" "[0..<length cs]"] by simp
  have at: "fst (ts ! i) = (if i < length ?f then pid (cs ! (?f ! i)) else 0)" if "i < length cs" for i
    using that by (simp add: assms(4) nth_append time_diff_def)
  have pid0: "pid (cs ! c) \<noteq> 0"
    using assms(2,3) by (metis image_eqI nth_mem)
  have idx: "?f ! i < length cs" "matched cs ps (?f ! i)" if "i < length ?f" for i
    using nth_mem [OF that] by simp_all
  have eq: "fst (ts ! i) = pid (cs ! c) \<longleftrightarrow> i < length ?f \<and> ?f ! i = c" if "i < length cs" for i
  proof (cases "i < length ?f")
    case True
    then have "pid (cs ! (?f ! i)) = pid (cs ! c) \<longleftrightarrow> ?f ! i = c"
      using assms(1,3) idx(1) [OF True] nth_eq_iff_index_eq [of "map pid cs" "?f ! i" c] by simp
    then show ?thesis
      using True at [OF that] by simp
  qed (use at [OF that] pid0 in simp)
  show ?thesis
  proof (cases "matched cs ps c")
    case True
    then have "c \<in> set ?f"
      using assms(3) by simp
    then obtain j where j: "j < length ?f" "?f ! j = c"
      unfolding in_set_conv_nth by blast
    have "foldl (\<lambda>r i. store_util (ts ! i) r) (cs ! c) [0..<length cs] = store_util (ts ! j) (cs ! c)"
    proof (rule foldl_store_one)
      show "\<forall>i\<in>set [0..<length cs]. i \<noteq> j \<longrightarrow> fst (ts ! i) \<noteq> pid (cs ! c)"
        using eq j distinct_filter [of "[0..<length cs]" "matched cs ps"] by (auto simp: nth_eq_iff_index_eq)
    qed (use eq [of j] j len in auto)
    moreover have "ts ! j = time_diff cs ps c"
      using j by (simp add: assms(4) nth_append)
    ultimately show ?thesis
      using True by (simp add: proc_share_def)
  next
    case False
    then have "\<forall>i\<in>set [0..<length cs]. fst (ts ! i) \<noteq> pid (cs ! c)"
      using eq idx(2) by auto
    then show ?thesis
      using False foldl_store_none [of "[0..<length cs]" ts "cs ! c"] by (simp add: proc_share_def)
  qed
qed

text \<open>
  C1. What \<open>compute_proc_cpu_stat\<close> computes, when it has a result: every process that is
  in both lists gets the share (cpu-time difference) * 100 / (system-time difference), where
  the differences are taken against the record at the same index of the previous list; a
  process that was not there before keeps its share, and nothing else changes. So the
  shares are right when the previous list has the same processes in the same order.
\<close>

theorem compute_proc_cpu_stat_shares:
  assumes "holds O_proc s cur xs cs" "holds O_proc s prev ys ps" "set xs \<inter> set ys = {}"
    and "distinct (map pid cs)" "0 \<notin> pid ` set cs"
    and "\<forall>c<length cs. matched cs ps c \<longrightarrow> c < length ps"
  shows "\<exists>s'. compute_proc_cpu_stat cur prev s = Some s'
    \<and> holds O_proc s' cur xs (map (proc_share cs ps) [0..<length cs])
    \<and> holds O_proc s' prev ys ps \<and> links s' = links s \<and> only (set xs) s s'
    \<and> (map pid ps = map pid cs \<longrightarrow> (\<forall>c<length cs. proc_cpu_util (proc_share cs ps c)
         = ddiv (dmul (dbl_of_u64 (cpu_time (cs ! c) - cpu_time (ps ! c))) (Fin 100))
             (dbl_of_u64 (sys_cpu_time (cs ! c) - sys_cpu_time (ps ! c)))))"
proof -
  let ?f = "filter (matched cs ps) [0..<length cs]"
  define ts where "ts = map (time_diff cs ps) ?f @ replicate (length cs - length ?f) (0, 0, 0)"
  have len: "length ts = length cs"
    using length_filter_le [of "matched cs ps" "[0..<length cs]"] by (simp add: ts_def)
  have "match_procs (proc_array cs) (proc_array ps) (length ps) [0..<length cs] (0, calloc_array (length cs))
      = Some (length ?f, entries ts)"
    using match_procs_some [of "[0..<length cs]" cs ps "length cs" "[]"] assms(6)
    by (simp add: calloc_entries ts_def Let_def)
  moreover obtain ob where ob: "store_utils (entries ts) cur [0..<length cs] s = Some (s\<lparr>objs := ob\<rparr>)"
    "map ob xs = map (\<lambda>r. Some (O_proc (foldl (\<lambda>r i. store_util (ts ! i) r) r [0..<length cs]))) cs"
    "\<forall>a. a \<notin> set xs \<longrightarrow> ob a = objs s a"
    using store_utils_fold [OF assms(1,4), of "[0..<length cs]" ts] len by auto
  ultimately have run: "compute_proc_cpu_stat cur prev s = Some (s\<lparr>objs := ob\<rparr>)"
    using compute_proc_arrays [OF assms(1,2)] by simp
  have "map (\<lambda>r. Some (O_proc (foldl (\<lambda>r i. store_util (ts ! i) r) r [0..<length cs]))) cs
      = map (\<lambda>c. Some (O_proc (foldl (\<lambda>r i. store_util (ts ! i) r) (cs ! c) [0..<length cs]))) [0..<length cs]"
    by (intro nth_equalityI) simp_all
  also have "\<dots> = map (\<lambda>c. Some (O_proc (proc_share cs ps c))) [0..<length cs]"
    using proc_share_final [OF assms(4,5) _ ts_def] by simp
  finally have cur: "map ob xs = map (\<lambda>r. Some (O_proc r)) (map (proc_share cs ps) [0..<length cs])"
    using ob(2) by (simp add: comp_def)
  have "map ob ys = map (objs s) ys"
    using ob(3) assms(3) by auto
  then have prev: "map ob ys = map (\<lambda>r. Some (O_proc r)) ps"
    using assms(2) by (simp only: holds_def)
  have "proc_cpu_util (proc_share cs ps c)
         = ddiv (dmul (dbl_of_u64 (cpu_time (cs ! c) - cpu_time (ps ! c))) (Fin 100))
             (dbl_of_u64 (sys_cpu_time (cs ! c) - sys_cpu_time (ps ! c)))"
    if "map pid ps = map pid cs" "c < length cs" for c
  proof -
    have "pid ` set ps = pid ` set cs"
      using that(1) by (metis list.set_map)
    then have "matched cs ps c"
      using that(2) by (simp add: matched_def)
    then show ?thesis
      by (simp add: proc_share_def store_util_def time_diff_def)
  qed
  then show ?thesis
    using run cur prev assms(1,2) ob(3) by (auto simp: holds_def only_def)
qed

definition sample_proc :: "u64 \<Rightarrow> u64 \<Rightarrow> u64 \<Rightarrow> proc_t" where
  "sample_proc n t sy = zero_proc\<lparr>pid := n, cpu_time := t, sys_cpu_time := sy\<rparr>"

text \<open>Two lists in memory: two current processes and one previous one.\<close>

definition proc_memory :: "proc_t list \<Rightarrow> proc_t \<Rightarrow> st" where
  "proc_memory cs p = boot\<lparr>
     links := [16 \<mapsto> \<lparr>lh_next = 32, lh_prev = 48\<rparr>, 32 \<mapsto> \<lparr>lh_next = 48, lh_prev = 16\<rparr>,
       48 \<mapsto> \<lparr>lh_next = 16, lh_prev = 32\<rparr>, 64 \<mapsto> \<lparr>lh_next = 96, lh_prev = 96\<rparr>, 96 \<mapsto> \<lparr>lh_next = 64, lh_prev = 64\<rparr>],
     objs := [32 \<mapsto> O_proc (cs ! 0), 48 \<mapsto> O_proc (cs ! 1), 96 \<mapsto> O_proc p]\<rparr>"

lemma proc_memory_facts:
  "holds O_proc (proc_memory [a, b] p) 16 [32, 48] [a, b]" "holds O_proc (proc_memory [a, b] p) 64 [96] [p]"
  by (simp_all add: proc_memory_def boot_def holds_def ring_def link_def rd_next_def rd_prev_def)

lemma compute_proc_cpu_stat_shares_witness:
  "\<exists>s'. compute_proc_cpu_stat 16 64 (proc_memory [sample_proc 1 50 900, sample_proc 7 3 900] (sample_proc 1 20 600)) = Some s'
    \<and> holds O_proc s' 16 [32, 48] [store_util (1, 30, 300) (sample_proc 1 50 900), sample_proc 7 3 900]"
proof -
  let ?cs = "[sample_proc 1 50 900, sample_proc 7 3 900]" and ?p = "sample_proc 1 20 600"
  have m: "matched ?cs [?p] 0" "\<not> matched ?cs [?p] 1"
    by (simp_all add: matched_def sample_proc_def)
  have "proc_share ?cs [?p] 0 = store_util (1, 30, 300) (sample_proc 1 50 900)" "proc_share ?cs [?p] 1 = sample_proc 7 3 900"
    using m by (simp_all add: proc_share_def time_diff_def sample_proc_def)
  moreover have "\<forall>c<length ?cs. matched ?cs [?p] c \<longrightarrow> c < length [?p]"
    using m(2) by (auto simp: less_Suc_eq)
  ultimately show ?thesis
    using compute_proc_cpu_stat_shares [OF proc_memory_facts, of "sample_proc 1 50 900" "sample_proc 7 3 900" ?p]
    by (auto simp: sample_proc_def)
qed

text \<open>
  C36. The previous arrays are indexed with the position in the current list: when a process
  that is in both lists stands at a position past the end of the previous list,
  \<open>compute_proc_cpu_stat\<close> reads out of bounds and has no defined result.
\<close>

theorem compute_proc_cpu_stat_out_of_bounds:
  assumes "holds O_proc s cur xs cs" "holds O_proc s prev ys ps"
    and "c < length cs" "matched cs ps c" "length ps \<le> c"
  shows "compute_proc_cpu_stat cur prev s = None"
proof -
  have "c \<in> set [0..<length cs]" "\<not> c < length ps"
    using assms(3,5) by simp_all
  then have "match_procs (proc_array cs) (proc_array ps) (length ps) [0..<length cs] (0, entries ts) = None" for ts
    using assms(4) by (intro match_procs_none) auto
  then show ?thesis
    using compute_proc_arrays [OF assms(1,2)] by (simp add: calloc_entries)
qed

lemma compute_proc_cpu_stat_out_of_bounds_witness:
  "compute_proc_cpu_stat 16 64 (proc_memory [sample_proc 7 3 900, sample_proc 1 50 900] (sample_proc 1 20 600)) = None"
  by (rule compute_proc_cpu_stat_out_of_bounds [OF proc_memory_facts, of 1])
     (simp_all add: matched_def sample_proc_def)

text \<open>
  With the list in another order the difference is taken against another process: process 7
  is charged with the difference to the time of process 1.
\<close>

lemma compute_proc_wrong_process:
  "time_diff [sample_proc 7 90 900] [sample_proc 1 20 600, sample_proc 7 80 600] 0 = (7, 70, 300)"
  by (simp add: time_diff_def sample_proc_def)

subsection \<open>The user of a process\<close>

text \<open>
  \<open>/proc/PID/status\<close> as the kernel prints it: a line for the user with the real user id first,
  then one for the size of the memory, then one for the resident part, with other lines before,
  between and after them.
\<close>

record pid_status_t =
  ps_before :: "string list"
  ps_uid :: u32
  ps_uids :: string
  ps_between :: "string list"
  ps_size :: u64
  ps_middle :: "string list"
  ps_rss :: u64
  ps_rest :: string

definition tab :: string where
  "tab = [CHR 0x09]"

definition uid_line :: "pid_status_t \<Rightarrow> string" where
  "uid_line st = ''Uid:'' @ tab @ dec (unat (ps_uid st)) @ ps_uids st"

definition kb_line :: "string \<Rightarrow> u64 \<Rightarrow> string" where
  "kb_line key v = key @ tab @ rjust 8 (print_lu v) @ '' kB''"

definition status_text :: "pid_status_t \<Rightarrow> string" where
  "status_text st = concat (map (\<lambda>l. l @ [newline]) (ps_before st @ uid_line st # ps_between st
       @ kb_line ''VmSize:'' (ps_size st) # ps_middle st @ [kb_line ''VmRSS:'' (ps_rss st)])) @ ps_rest st"

definition short_line :: "string \<Rightarrow> bool" where
  "short_line l \<longleftrightarrow> newline \<notin> set l \<and> NUL \<notin> set l \<and> length l \<le> 126"

text \<open>A line that the code does not look for.\<close>

definition other_line :: "string \<Rightarrow> bool" where
  "other_line l \<longleftrightarrow> short_line l \<and> take 4 l \<noteq> ''Uid:'' \<and> take 7 l \<noteq> ''VmSize:'' \<and> take 6 l \<noteq> ''VmRSS:''"

definition status_ok :: "pid_status_t \<Rightarrow> bool" where
  "status_ok st \<longleftrightarrow> list_all other_line (ps_before st @ ps_between st @ ps_middle st) \<and> short_line (uid_line st)
     \<and> (ps_uids st = '''' \<or> \<not> isdigit (hd (ps_uids st)))"

lemma take_line:
  assumes "newline \<notin> set key" "take n l \<noteq> key" "n = length key"
  shows "take n (l @ [newline]) \<noteq> key"
proof
  assume t: "take n (l @ [newline]) = key"
  show False
  proof (cases "n \<le> length l")
    case True
    then show False
      using t assms(2) by simp
  next
    case False
    then have "newline \<in> set (take n (l @ [newline]))"
      by simp
    then have "newline \<in> set key"
      by (simp only: t)
    then show False
      using assms(1) by simp
  qed
qed

lemma status_lines_other:
  "list_all other_line ls \<Longrightarrow> status_lines (map (\<lambda>l. l @ [newline]) ls @ bufs) u proc = status_lines bufs u proc"
proof (induction ls)
  case (Cons l ls)
  have "take 4 (l @ [newline]) \<noteq> ''Uid:''" "take 7 (l @ [newline]) \<noteq> ''VmSize:''" "take 6 (l @ [newline]) \<noteq> ''VmRSS:''"
    using Cons.prems by (intro take_line; simp add: other_line_def)+
  then show ?case
    using Cons by (simp add: strncmp_eq_def del: take_append)
qed simp

lemma kb_line_short:
  assumes "newline \<notin> set key" "NUL \<notin> set key" "length key \<le> 20"
  shows "short_line (kb_line key v)"
proof -
  have "isdigit c" if "c \<in> set (print_lu v)" for c
    using that dec_digits [of "unat v"] by (simp add: print_lu_def list_all_iff)
  then have "newline \<notin> set (rjust 8 (print_lu v))" "NUL \<notin> set (rjust 8 (print_lu v))"
    using set_rjust [of 8 "print_lu v"] isdigit_not_special by fastforce+
  moreover have "length (print_lu v) \<le> 20"
    using unat_u64_less [of v] unfolding print_lu_def by (intro length_dec) simp_all
  ultimately show ?thesis
    using assms by (simp add: short_line_def kb_line_def tab_def)
qed

lemma scan_lu_into_kb: "scan_lu_into (tab @ rjust 8 (print_lu v) @ '' kB'' @ [newline]) old = v"
proof -
  have "list_all isspace (CHR 0x09 # replicate n CHR '' '')" for n
    by (simp add: list_all_iff isspace_def)
  from scan_lu_print_lu [OF this, of "'' kB'' @ [newline]" "8 - length (print_lu v)" v] show ?thesis
    by (simp add: scan_lu_into_def tab_def rjust_def)
qed

lemma scan_uid_line:
  assumes "status_ok st"
  shows "\<exists>r. scan_u (drop 4 (uid_line st @ [newline])) = Some (ps_uid st, r)"
proof -
  have "list_all isspace tab"
    by (simp add: tab_def isspace_def)
  moreover have "ps_uids st @ [newline] = [] \<or> \<not> isdigit (hd (ps_uids st @ [newline]))"
    using assms by (cases "ps_uids st") (auto simp: status_ok_def)
  ultimately show ?thesis
    using scan_u_dec [of tab "ps_uids st @ [newline]" "ps_uid st"] by (simp add: uid_line_def)
qed

lemma fgets_status:
  assumes "status_ok st"
  shows "\<exists>bufs. fgets_all LEN_128 (status_text st) = map (\<lambda>l. l @ [newline]) (ps_before st @ uid_line st # ps_between st
    @ kb_line ''VmSize:'' (ps_size st) # ps_middle st @ [kb_line ''VmRSS:'' (ps_rss st)]) @ bufs"
proof -
  have lines: "fgets_all LEN_128 (concat (map (\<lambda>l. l @ [newline]) ls) @ t) = map (\<lambda>l. l @ [newline]) ls @ fgets_all LEN_128 t"
    if "\<forall>l\<in>set ls. short_line l" for ls t
    using that
  proof (induction ls)
    case (Cons l ls)
    then show ?case
      using fgets_all_line [of l LEN_128 "concat (map (\<lambda>l. l @ [newline]) ls) @ t"] by (simp add: short_line_def)
  qed simp
  have "short_line (kb_line ''VmSize:'' v)" "short_line (kb_line ''VmRSS:'' v)" for v
    by (intro kb_line_short; simp)+
  then show ?thesis
    using assms unfolding status_text_def
    by (intro exI, subst lines) (auto simp: status_ok_def other_line_def list_all_iff)
qed

lemma status_lines_read:
  assumes "status_ok st"
  shows "status_lines (fgets_all LEN_128 (status_text st)) 0 proc
    = (ps_uid st, proc\<lparr>virt_mem_kb := ps_size st, res_mem_kb := ps_rss st\<rparr>)"
proof -
  obtain bufs where b: "fgets_all LEN_128 (status_text st) = map (\<lambda>l. l @ [newline]) (ps_before st @ uid_line st # ps_between st
    @ kb_line ''VmSize:'' (ps_size st) # ps_middle st @ [kb_line ''VmRSS:'' (ps_rss st)]) @ bufs"
    using fgets_status [OF assms] by blast
  have ok: "list_all other_line (ps_before st)" "list_all other_line (ps_between st)" "list_all other_line (ps_middle st)"
    using assms by (simp_all add: status_ok_def)
  obtain r where r: "scan_u (drop 4 (uid_line st @ [newline])) = Some (ps_uid st, r)"
    using scan_uid_line [OF assms] by blast
  have "strncmp_eq (uid_line st @ [newline]) ''Uid:'' 4"
    by (simp add: strncmp_eq_def uid_line_def)
  then have u: "status_lines ((uid_line st @ [newline]) # bs) u p = status_lines bs (ps_uid st) p" for bs u p
    using r by simp
  have v: "status_lines ((kb_line ''VmSize:'' w @ [newline]) # bs) u p = status_lines bs u (p\<lparr>virt_mem_kb := w\<rparr>)"
      "status_lines ((kb_line ''VmRSS:'' w @ [newline]) # bs) u p = (u, p\<lparr>res_mem_kb := w\<rparr>)" for bs u p w
    using scan_lu_into_kb [of w] by (simp_all add: strncmp_eq_def kb_line_def)
  show ?thesis
    unfolding b by (simp add: status_lines_other [OF ok(1)] status_lines_other [OF ok(2)] status_lines_other [OF ok(3)] u v
        del: status_lines.simps(2))
qed

definition fits :: "string \<Rightarrow> string \<Rightarrow> bool" where
  "fits t buf \<longleftrightarrow> NUL \<notin> set t \<and> length t < length buf"

lemma strcpy_fits: "fits t buf \<Longrightarrow> \<exists>b. strcpy buf t = Some b \<and> buf_str b = Some t"
  by (auto simp: fits_def strcpy_def buf_str_def)

lemma to_proc_file_dec: "n < 10 ^ 10 \<Longrightarrow> length f \<le> 20 \<Longrightarrow> to_proc_file (dec n) f = Some (''/proc/'' @ dec n @ ''/'' @ f)"
  using length_dec [of n 10] by (simp add: to_proc_file_def)

lemma is_digit_dec: "is_digit (Some (dec n))"
proof -
  have "dotted_digits ds" if "list_all isdigit ds" for ds
  proof -
    have nodot: "\<forall>c\<in>set ds. c \<noteq> CHR ''.''"
      using that by (auto simp: list_all_iff)
    then have "successively (\<lambda>a b. \<not> (a = CHR ''.'' \<and> b = CHR ''.'')) ds"
      by (induction ds rule: induct_list012) simp_all
    moreover have "list_all (\<lambda>c. isdigit c \<or> c = CHR ''.'') ds"
      using that by (simp add: list_all_iff)
    moreover have "ds \<noteq> [] \<longrightarrow> hd ds \<noteq> CHR ''.'' \<and> last ds \<noteq> CHR ''.''"
      using nodot hd_in_set last_in_set by blast
    ultimately show ?thesis
      by (simp only: dotted_digits_def)
  qed
  moreover have "hd (dec n) \<noteq> CHR ''-''"
    using dec_hd [of n] isdigit_not_special by blast
  ultimately show ?thesis
    by (simp add: is_digit_accepts dec_digits)
qed

text \<open>Reading all processes does not return if reading one of them does not.\<close>

lemma proc_loop_stops:
  assumes "\<And>p s. read_pid_status os d p s = None" "is_digit (Some d)" "d \<noteq> ''''" "hd d \<noteq> CHR ''.''"
  shows "(d, True) \<in> set ents \<Longrightarrow> proc_loop os ents head s \<noteq> Some (Done s')"
proof (induction ents arbitrary: s)
  case (Cons e ents)
  have single: "store_single_pid_info os d p t \<noteq> Some (Done x)" for p t x
    unfolding store_single_pid_info_def by (simp add: bnd_Done_iff assms(1) split: prod.split)
  show ?case
  proof (cases "e = (d, True)")
    case True
    then show ?thesis
      using single assms(2-4) by (auto simp: bnd_Done_iff Let_def split: prod.splits)
  next
    case False
    then have "proc_loop os ents head t \<noteq> Some (Done s')" for t
      using Cons by simp
    then show ?thesis
      by (cases e) (auto simp: bnd_Done_iff Let_def split: prod.splits if_splits)
  qed
qed simp

text \<open>
  C39. What becomes of a process \<open>n\<close> with the status file that the kernel prints. If its user has an entry in the
  user database, \<open>read_pid_status\<close> stores the two sizes of its memory, the user's name and, if there is one, the
  name of the user's group, if the names fit their fields. If the user has none, it reads the group through the null pointer it has just
  tested and has no defined result; a single such process among the directories of \<open>/proc\<close> keeps
  \<open>get_all_proc\<close> from returning.
\<close>

theorem read_pid_status_unknown_user:
  assumes "status_ok st" "\<forall>t. os_file os t (''/proc/'' @ dec n @ ''/status'') = Some (status_text st)" "n < 10 ^ 10"
  shows "(\<forall>pw. os_getpwuid os (Suc (clock s)) (ps_uid st) = Some pw \<longrightarrow> fits (pw_name pw) (proc_user proc)
      \<longrightarrow> (\<forall>g. os_getgrgid os (Suc (Suc (clock s))) (pw_gid pw) = Some g \<longrightarrow> fits g (proc_group proc))
      \<longrightarrow> (\<exists>u g. read_pid_status os (dec n) proc s
          = Some (proc\<lparr>virt_mem_kb := ps_size st, res_mem_kb := ps_rss st, proc_user := u, proc_group := g\<rparr>,
              s\<lparr>clock := clock s + 3\<rparr>)
        \<and> buf_str u = Some (pw_name pw)
        \<and> (case os_getgrgid os (Suc (Suc (clock s))) (pw_gid pw) of
             None \<Rightarrow> g = proc_group proc | Some name \<Rightarrow> buf_str g = Some name)))
    \<and> ((\<forall>t. os_getpwuid os t (ps_uid st) = None) \<longrightarrow> read_pid_status os (dec n) proc s = None
      \<and> (os_proc_dir os (clock s) = Some ents \<and> (dec n, True) \<in> set ents \<longrightarrow> get_all_proc os head s \<noteq> Some (Done s')))"
proof (intro conjI allI impI)
  note rd = status_lines_read [OF assms(1)]
  have path: "to_proc_file (dec n) ''status'' = Some (''/proc/'' @ dec n @ ''/status'')"
    using to_proc_file_dec [OF assms(3), of "''status''"] by simp
  have none: "read_pid_status os (dec n) p t = None" if "\<forall>t. os_getpwuid os t (ps_uid st) = None" for p t
    using that assms(2) rd path by (simp add: read_pid_status_def fopen_def)
  then show "read_pid_status os (dec n) proc s = None" if "\<forall>t. os_getpwuid os t (ps_uid st) = None"
    using that by blast
  show "get_all_proc os head s \<noteq> Some (Done s')"
    if "\<forall>t. os_getpwuid os t (ps_uid st) = None" "os_proc_dir os (clock s) = Some ents \<and> (dec n, True) \<in> set ents"
  proof -
    have "hd (dec n) \<noteq> CHR ''.''"
      using dec_hd [of n] isdigit_not_special by blast
    then show ?thesis
      using proc_loop_stops [OF none [OF that(1)] is_digit_dec] that(2) by (simp add: get_all_proc_def)
  qed
  fix pw
  assume pw: "os_getpwuid os (Suc (clock s)) (ps_uid st) = Some pw" "fits (pw_name pw) (proc_user proc)"
    and g: "\<forall>g. os_getgrgid os (Suc (Suc (clock s))) (pw_gid pw) = Some g \<longrightarrow> fits g (proc_group proc)"
  obtain u where u: "strcpy (proc_user proc) (pw_name pw) = Some u" "buf_str u = Some (pw_name pw)"
    using strcpy_fits [OF pw(2)] by blast
  show "\<exists>u g. read_pid_status os (dec n) proc s
          = Some (proc\<lparr>virt_mem_kb := ps_size st, res_mem_kb := ps_rss st, proc_user := u, proc_group := g\<rparr>,
              s\<lparr>clock := clock s + 3\<rparr>)
        \<and> buf_str u = Some (pw_name pw)
        \<and> (case os_getgrgid os (Suc (Suc (clock s))) (pw_gid pw) of
             None \<Rightarrow> g = proc_group proc | Some name \<Rightarrow> buf_str g = Some name)"
  proof (cases "os_getgrgid os (Suc (Suc (clock s))) (pw_gid pw)")
    case None
    then show ?thesis
      using assms(2) rd path pw(1) u
      by (intro exI [of _ u] exI [of _ "proc_group proc"]) (cases proc, simp add: read_pid_status_def fopen_def tick_def)
  next
    case (Some name)
    then obtain b where "strcpy (proc_group proc) name = Some b" "buf_str b = Some name"
      using g strcpy_fits by blast
    then show ?thesis
      using assms(2) rd path pw(1) u Some
      by (intro exI [of _ u] exI [of _ b]) (simp add: read_pid_status_def fopen_def tick_def)
  qed
qed

definition sample_status :: pid_status_t where
  "sample_status = \<lparr>ps_before = [''Name:'' @ tab @ ''bash''], ps_uid = 1005, ps_uids = tab @ ''1005'',
     ps_between = [''VmPeak:'' @ tab @ ''    9000 kB''], ps_size = 8996, ps_middle = [], ps_rss = 4412,
     ps_rest = ''Threads: 1'' @ [newline]\<rparr>"

lemma sample_status_ok: "status_ok sample_status"
  by (simp add: status_ok_def sample_status_def other_line_def short_line_def uid_line_def tab_def dec.simps
      digit_char_eval isspace_not_digit isspace_def)

definition status_os :: os where
  "status_os = (quiet_os (\<lambda>_ _. Some (status_text sample_status)))\<lparr>os_proc_dir := (\<lambda>_. Some [(dec 77, True)])\<rparr>"

lemma read_pid_status_unknown_user_witness:
  "(\<forall>s'. get_all_proc status_os MOD_LIST_HEAD boot \<noteq> Some (Done s'))
    \<and> (\<exists>u g. read_pid_status (status_os\<lparr>os_getpwuid := (\<lambda>_ _. Some \<lparr>pw_name = ''eve'', pw_gid = 7\<rparr>)\<rparr>) (dec 77) zero_proc boot
        = Some (zero_proc\<lparr>virt_mem_kb := 8996, res_mem_kb := 4412, proc_user := u, proc_group := g\<rparr>, boot\<lparr>clock := 3\<rparr>)
      \<and> buf_str u = Some ''eve'')"
proof
  have os: "os_file status_os t f = Some (status_text sample_status)" "os_getpwuid status_os t u = None"
      "os_proc_dir status_os t = Some [(dec 77, True)]" for t f u
    by (simp_all add: status_os_def quiet_os_def)
  then show "\<forall>s'. get_all_proc status_os MOD_LIST_HEAD boot \<noteq> Some (Done s')"
    using read_pid_status_unknown_user [OF sample_status_ok, of status_os 77 boot zero_proc "[(dec 77, True)]"] by simp
  let ?os = "status_os\<lparr>os_getpwuid := (\<lambda>_ _. Some \<lparr>pw_name = ''eve'', pw_gid = 7\<rparr>)\<rparr>"
  let ?pw = "\<lparr>pw_name = ''eve'', pw_gid = 7\<rparr>"
  have h: "\<forall>t. os_file ?os t (''/proc/'' @ dec 77 @ ''/status'') = Some (status_text sample_status)" "(77 :: nat) < 10 ^ 10"
    by (simp_all add: status_os_def)
  have ans: "os_getpwuid ?os (Suc (clock boot)) (ps_uid sample_status) = Some ?pw" "fits (pw_name ?pw) (proc_user zero_proc)"
    by (simp_all add: fits_def zero_proc_def chars0_def)
  have "os_getgrgid ?os t 7 = None" for t
    by (simp add: status_os_def quiet_os_def)
  then have "\<forall>g. os_getgrgid ?os (Suc (Suc (clock boot))) (pw_gid ?pw) = Some g \<longrightarrow> fits g (proc_group zero_proc)"
    by simp
  from read_pid_status_unknown_user [OF sample_status_ok h, THEN conjunct1, THEN spec, THEN mp, THEN mp, THEN mp, OF ans this]
  obtain u g where ug: "read_pid_status ?os (dec 77) zero_proc boot
      = Some (zero_proc\<lparr>virt_mem_kb := ps_size sample_status, res_mem_kb := ps_rss sample_status, proc_user := u, proc_group := g\<rparr>,
          boot\<lparr>clock := clock boot + 3\<rparr>)" "buf_str u = Some (pw_name ?pw)"
    by blast
  moreover have "ps_size sample_status = 8996" "ps_rss sample_status = 4412" "clock boot + 3 = 3" "pw_name ?pw = ''eve''"
    by (simp_all add: sample_status_def boot_def)
  ultimately show "\<exists>u g. read_pid_status ?os (dec 77) zero_proc boot
        = Some (zero_proc\<lparr>virt_mem_kb := 8996, res_mem_kb := 4412, proc_user := u, proc_group := g\<rparr>, boot\<lparr>clock := 3\<rparr>)
      \<and> buf_str u = Some ''eve''"
    by (simp only:) blast
qed

end
