(* ===== verification/Mod_History.thy ===== *)
theory Mod_History
  imports Mod_Common Cpu Io Proc
begin

text \<open>
  The three modules that keep what they have collected, to compute rates from two readings:
  \<open>mod_cpu.c\<close> (a list of records) and \<open>mod_io.c\<close> and \<open>mod_proc.c\<close> (a list of lists: every
  reading is a \<open>list_list_t\<close> whose member \<open>head\<close> is the head of its own list).
\<close>

subsection \<open>mod_cpu.c\<close>

definition cpu_collect_record :: "os \<Rightarrow> addr \<Rightarrow> st \<Rightarrow> (st, st) result" where
  "cpu_collect_record os m s =
     (let (entry, s) = malloc (O_cpu zero_cpu) s in
      bnd (read_cpu_stat os (cpu_stat zero_cpu) s) (\<lambda>(stat, s).
      total (do {
        let e = zero_cpu\<lparr>cpu_stat := stat\<rparr>;
        empty \<leftarrow> list_empty (record_list m) (links s);
        e \<leftarrow> (if empty then Some e
             else do {
               prev \<leftarrow> rd_prev (record_list m) (links s);
               p \<leftarrow> obj_at as_cpu prev s;
               compute_cpu_stat (Some e) (Some p)
             });
        s \<leftarrow> set_obj entry (O_cpu e) s;
        on_links (list_add_tail entry (record_list m)) s
      })))"

definition cpu_report_line :: "cpu_t \<Rightarrow> string option" where
  "cpu_report_line entry = Some (report_line (mod_name_of M_cpu)
     [fmt2 (cpu_idle entry), fmt2 (cpu_util entry), fmt2 (cpu_wa entry)])"

definition cpu_record_to_str :: "addr \<Rightarrow> st \<Rightarrow> (u64 \<times> st) option" where
  "cpu_record_to_str = to_str_last (snprintf_at LEN_1M) as_cpu cpu_report_line"

definition cpu_free_record_list :: "addr \<Rightarrow> st \<Rightarrow> st option" where
  "cpu_free_record_list head = FREE_LIST_HEAD head"


subsection \<open>Lists of lists\<close>

text \<open>The address of \<open>entry->head\<close>.\<close>

definition inner_head :: "addr \<Rightarrow> addr" where
  "inner_head a = a + head_offset"

definition collect_lists ::
    "(addr \<Rightarrow> st \<Rightarrow> (st, st) result) \<Rightarrow> (addr \<Rightarrow> addr \<Rightarrow> st \<Rightarrow> (st, st) result) \<Rightarrow> addr \<Rightarrow> st \<Rightarrow> (st, st) result" where
  "collect_lists read compute m s =
     (let (cur_list, s) = malloc O_list_list s in
      bnd (total (on_links (INIT_LIST_HEAD (inner_head cur_list)) s)) (\<lambda>s.
      bnd (read (inner_head cur_list) s) (\<lambda>s.
      bnd (total (list_empty (record_list m) (links s))) (\<lambda>empty.
      bnd (if empty then Some (Done s)
           else bnd (total (rd_prev (record_list m) (links s))) (\<lambda>prev_list.
             compute (inner_head cur_list) (inner_head prev_list) s)) (\<lambda>s.
      total (on_links (list_add_tail cur_list (record_list m)) s))))))"

definition to_str_last_list ::
    "(string \<Rightarrow> report \<Rightarrow> report option) \<Rightarrow> (obj \<Rightarrow> 'r option) \<Rightarrow> ('r \<Rightarrow> string option)
      \<Rightarrow> addr \<Rightarrow> st \<Rightarrow> (u64 \<times> st) option" where
  "to_str_last_list put un line m = to_str (\<lambda>md s. do {
     cur_list \<leftarrow> rd_prev (record_list m) (links s);
     report_entries put un line (inner_head cur_list) (mod_record md) s
   }) m"

text \<open>
  \<open>free(NULL)\<close> does nothing, so the inner loop is the loop of the macro \<open>FREE_LIST_HEAD\<close>.
\<close>

definition free_lists_body :: "addr \<Rightarrow> st \<Rightarrow> (st, st) ctl option" where
  "free_lists_body entry_list s = do {
     s \<leftarrow> FREE_LIST_HEAD (inner_head entry_list) s;
     free_body entry_list s
   }"

definition free_lists :: "addr \<Rightarrow> st \<Rightarrow> st option" where
  "free_lists head s = map_option ctl_state (list_for_each_entry_safe free_lists_body links head s)"


subsection \<open>mod_io.c\<close>

definition io_collect_record :: "os \<Rightarrow> addr \<Rightarrow> st \<Rightarrow> (st, st) result" where
  "io_collect_record os = collect_lists (read_io_stat os) (compute_io_stat os)"

definition io_report_line :: "io_t \<Rightarrow> string option" where
  "io_report_line entry = do {
     dev \<leftarrow> buf_str (io_dev entry);
     Some (report_line (mod_name_of M_io)
       (dev # map fmt2 [tps entry, ddiv (io_util entry) (Fin 10), rrqm_per_sec entry, wrqm_per_sec entry,
          r_per_sec entry, w_per_sec entry, r_speed_per_sec entry, w_speed_per_sec entry, avgrq_sz entry,
          avgqu_sz entry, await entry, r_await entry, w_await entry]))
   }"

definition io_record_to_str :: "addr \<Rightarrow> st \<Rightarrow> (u64 \<times> st) option" where
  "io_record_to_str = to_str_last_list (snprintf_at LEN_1M) as_io io_report_line"

definition io_free_record_list :: "addr \<Rightarrow> st \<Rightarrow> st option" where
  "io_free_record_list head = free_lists head"

subsection \<open>mod_proc.c\<close>

definition proc_compute :: "addr \<Rightarrow> addr \<Rightarrow> st \<Rightarrow> (st, st) result" where
  "proc_compute cur prev s = total (compute_proc_cpu_stat cur prev s)"

definition proc_collect_record :: "os \<Rightarrow> addr \<Rightarrow> st \<Rightarrow> (st, st) result" where
  "proc_collect_record os = collect_lists (get_all_proc os) proc_compute"

definition proc_report_line :: "proc_t \<Rightarrow> string option" where
  "proc_report_line entry = do {
     user \<leftarrow> buf_str (proc_user entry);
     group \<leftarrow> buf_str (proc_group entry);
     name \<leftarrow> buf_str (cmd entry);
     Some (report_line (mod_name_of M_proc)
       [print_lu (pid entry), [proc_state entry], print_lu (ppid entry), user, group, print_lu (virt_mem_kb entry),
        print_lu (res_mem_kb entry), fmt2 (mem_util entry), print_lu (start_time entry),
        fmt2 (proc_cpu_util entry), name])
   }"

definition proc_record_to_str :: "addr \<Rightarrow> st \<Rightarrow> (u64 \<times> st) option" where
  "proc_record_to_str = to_str_last_list sprintf_at as_proc proc_report_line"

definition proc_free_record_list :: "addr \<Rightarrow> st \<Rightarrow> st option" where
  "proc_free_record_list head = free_lists head"

subsection \<open>Numbers in a report\<close>

definition representable :: "double \<Rightarrow> bool" where
  "representable d \<longleftrightarrow> (case d of Fin x \<Rightarrow> \<bar>x\<bar> \<le> 2 ^ 1024 | _ \<Rightarrow> True)"

lemma rnd_representable [simp]: "representable (rnd x)"
proof -
  define y where "y = round_pos 53 (- 1074) \<bar>x\<bar>"
  have "0 \<le> y" if "x \<noteq> 0"
    unfolding y_def using that by (intro round_pos_bounds(2)) simp
  then have "\<bar>sgn x * y\<bar> \<le> 2 ^ 1024" if "x \<noteq> 0" "\<not> 2 powi 1024 \<le> y"
    using that by (simp add: abs_mult)
  then show ?thesis
    by (auto simp: representable_def rnd_def round_to_def y_def Let_def)
qed

lemma representable_special [simp]: "representable (Inf b)" "representable NaN" "representable (Fin 0)"
  by (simp_all add: representable_def)

lemma representable_ops [simp]:
  "representable (ddiv a b)" "representable (dadd a b)" "representable (dsub a b)" "representable (dmul a b)"
proof -
  show "representable (ddiv a b)" by (cases "(a, b)" rule: ddiv.cases) simp_all
  show "representable (dmul a b)" by (cases "(a, b)" rule: dmul.cases) simp_all
  have "representable (dadd a b)" for a b by (cases "(a, b)" rule: dadd.cases) simp_all
  then show "representable (dadd a b)" "representable (dsub a b)" by (simp_all add: dsub_def)
qed

lemma length_fmt2:
  assumes "representable d"
  shows "length (fmt2 d) \<le> 320"
proof (cases d)
  case (Fin x)
  define n where "n = nat (rne (\<bar>x\<bar> * 100))"
  have "of_int (rne (\<bar>x\<bar> * 100)) \<le> \<bar>x\<bar> * 100 + 1 / 2"
    by (rule rne_bounds)
  also have "\<dots> \<le> 2 ^ 1024 * 100 + 1 / 2"
    using assms by (simp add: representable_def Fin)
  also have "\<dots> < of_int (10 ^ 312)"
    by simp
  finally have "rne (\<bar>x\<bar> * 100) < 10 ^ 312"
    by (simp only: of_int_less_iff)
  then have "n < 10 ^ 312"
    by (simp add: n_def nat_less_iff)
  then have "length (dec (n div 100)) \<le> 312"
    using div_le_dividend [of n 100] by (intro length_dec) (auto intro: le_less_trans)
  then show ?thesis
    by (simp add: Fin two_digits_def Let_def flip: n_def)
qed simp_all


subsection \<open>The history of the processor\<close>

lemma compute_cpu_representable:
  assumes "compute_cpu_stat (Some c) p = Some c'" "representable (cpu_idle c)" "representable (cpu_util c)"
    "representable (cpu_wa c)"
  shows "representable (cpu_idle c') \<and> representable (cpu_util c') \<and> representable (cpu_wa c')"
  using assms by (auto simp: compute_cpu_stat_def Let_def split: option.splits if_splits)

text \<open>The record that a round adds: the reading, set against the last one.\<close>

definition next_cpu :: "cpu_t list \<Rightarrow> cpu_stat_t \<Rightarrow> cpu_t" where
  "next_cpu rs stat = (let e = zero_cpu\<lparr>cpu_stat := stat\<rparr> in
     if rs = [] then e else the (compute_cpu_stat (Some e) (Some (last rs))))"

lemma compute_cpu_defined: "\<exists>c'. compute_cpu_stat (Some c) (Some p) = Some c'"
  by (simp add: compute_cpu_stat_def Let_def)

lemma next_cpu_representable:
  "representable (cpu_idle (next_cpu rs stat)) \<and> representable (cpu_util (next_cpu rs stat))
   \<and> representable (cpu_wa (next_cpu rs stat))"
proof (cases "rs = []")
  case False
  obtain c' where "compute_cpu_stat (Some (zero_cpu\<lparr>cpu_stat := stat\<rparr>)) (Some (last rs)) = Some c'"
    using compute_cpu_defined by blast
  from compute_cpu_representable [OF this] show ?thesis
    using False \<open>_ = Some c'\<close> by (simp add: next_cpu_def zero_cpu_def)
qed (simp add: next_cpu_def zero_cpu_def)

lemma cpu_collect_appends:
  assumes "heap_ok s" "holds O_cpu s (record_list m) xs rs" "os_file os (clock s) ''/proc/stat'' = Some txt"
  shows "\<exists>s'. cpu_collect_record os m s = Some (Done s')
    \<and> holds O_cpu s' (record_list m) (xs @ [brk s]) (rs @ [next_cpu rs (read_cpu_lines (fgets_all LEN_128 txt) zero_cpu_stat)])
    \<and> heap_ok s' \<and> only (insert (record_list m) (set xs)) s s'"
proof -
  define stat where "stat = read_cpu_lines (fgets_all LEN_128 txt) zero_cpu_stat"
  obtain a s1 where m: "malloc (O_cpu zero_cpu) s = (a, s1)"
    by (cases "malloc (O_cpu zero_cpu) s")
  note mf = malloc_facts [OF m]
  have cl: "c \<noteq> a" if "c \<in> insert (record_list m) (set xs)" for c
    using holds_below [OF assms(1,2) that] mf(1) by simp
  have old: "links s1 c = links s c" "c \<noteq> record_list m \<Longrightarrow> objs s1 c = objs s c"
    if "c \<in> insert (record_list m) (set xs)" for c
    using cl [OF that] mf(2) mf(5) [of c] by (simp_all add: k_cpu.fresh_K)
  have ring: "ring (links s1) (record_list m) xs"
    using holds_ring [OF assms(2)] ring_agree [of "record_list m" xs "links s1" "links s"] old by blast
  have h1: "holds O_cpu (tick s1) (record_list m) xs rs"
  proof -
    have "map (objs s1) xs = map (objs s) xs"
      using cl by (simp add: mf(2))
    then have "holds O_cpu s1 (record_list m) xs rs"
      using ring assms(2) by (simp only: holds_def)
    then show ?thesis by simp
  qed
  have rd: "read_cpu_stat os (cpu_stat zero_cpu) s1 = Some (Done (stat, tick s1))"
    using assms(3) mf(6) by (simp add: read_cpu_stat_def fopen_def stat_def zero_cpu_def)
  have new: "(if rs = [] then Some (zero_cpu\<lparr>cpu_stat := stat\<rparr>)
      else compute_cpu_stat (Some (zero_cpu\<lparr>cpu_stat := stat\<rparr>)) (Some (last rs))) = Some (next_cpu rs stat)"
    using compute_cpu_defined [of "zero_cpu\<lparr>cpu_stat := stat\<rparr>" "last rs"] by (auto simp: next_cpu_def Let_def)
  have ne: "xs = [] \<longleftrightarrow> rs = []"
    by (rule holds_Nil_iff [OF assms(2)])
  have prev: "rd_prev (record_list m) (links s1) = Some (last xs)" "obj_at as_cpu (last xs) (tick s1) = Some (last rs)"
    if "rs \<noteq> []"
    using ring_prev [OF ring] k_cpu.obj_at_last [OF h1 that] ne that by simp_all
  have "cpu_collect_record os m s = total (do {
      s \<leftarrow> set_obj a (O_cpu (next_cpu rs stat)) (tick s1);
      on_links (list_add_tail a (record_list m)) s })"
    using m rd new list_empty_ring [OF ring] prev ne
    by (cases "rs = []") (simp_all add: cpu_collect_record_def Let_def heap_simps)
  also have "\<dots> = total (add_new (O_cpu zero_cpu) (O_cpu (next_cpu rs stat)) (record_list m) (tick s))"
  proof -
    have "malloc (O_cpu zero_cpu) (tick s) = (a, tick s1)"
      using m by (auto simp: malloc_def tick_def Let_def cong: if_cong)
    then show ?thesis by (simp add: add_new_def)
  qed
  finally have run: "cpu_collect_record os m s
      = total (add_new (O_cpu zero_cpu) (O_cpu (next_cpu rs stat)) (record_list m) (tick s))" .
  obtain s2 where s2: "add_new (O_cpu zero_cpu) (O_cpu (next_cpu rs stat)) (record_list m) (tick s) = Some s2"
    "holds O_cpu s2 (record_list m) (xs @ [brk (tick s)]) (rs @ [next_cpu rs stat])" "heap_ok s2"
    "only (insert (record_list m) (set xs)) (tick s) s2"
    using k_cpu.add_new_holds [of "tick s" "record_list m" xs rs zero_cpu] assms(1,2) by auto
  have "only (insert (record_list m) (set xs)) s s2"
    using only_trans [OF only_memory [OF same_memory_tick] s2(4)] by auto
  then show ?thesis
    using run s2(1-3) unfolding stat_def by (auto simp: heap_simps)
qed

text \<open>
  C13. A round of the processor module: the history grows by one record that holds the counters of
  \<open>/proc/stat\<close> and, from the second round on, the percentages against the record before; the
  older records stay as they are, and the report is the line of the new record, two
  decimals each.
\<close>

theorem cpu_module_round:
  assumes "heap_ok s" "objs s m = Some (O_module md)" "holds O_cpu s (record_list m) xs rs"
    and "os_file os (clock s) ''/proc/stat'' = Some txt" "stat = read_cpu_lines (fgets_all LEN_128 txt) zero_cpu_stat"
  shows "\<exists>s1 s2 n x e. cpu_collect_record os m s = Some (Done s1) \<and> cpu_record_to_str m s1 = Some (n, s2)
    \<and> holds O_cpu s2 (record_list m) (xs @ [x]) (rs @ [e]) \<and> heap_ok s2
    \<and> compute_cpu_stat (Some (zero_cpu\<lparr>cpu_stat := stat\<rparr>)) (if rs = [] then None else Some (last rs)) = Some e
    \<and> objs s2 m = Some (O_module (md\<lparr>mod_record := ''cpu='' @ fmt2 (cpu_idle e) @ '','' @ fmt2 (cpu_util e)
         @ '','' @ fmt2 (cpu_wa e) @ '';'' @ [newline]\<rparr>))"
proof -
  define e where "e = next_cpu rs stat"
  let ?w = "''cpu='' @ fmt2 (cpu_idle e) @ '','' @ fmt2 (cpu_util e) @ '','' @ fmt2 (cpu_wa e) @ '';'' @ [newline]"
  obtain s1 where s1: "cpu_collect_record os m s = Some (Done s1)" "heap_ok s1"
    "holds O_cpu s1 (record_list m) (xs @ [brk s]) (rs @ [e])" "only (insert (record_list m) (set xs)) s s1"
    using cpu_collect_appends [OF assms(1,3,4)] unfolding e_def assms(5) by blast
  note md = k_cpu.module_kept [OF assms(1,3,2) s1(4)]
  have line: "cpu_report_line (last (rs @ [e])) = Some ?w"
    by (simp add: cpu_report_line_def report_line_def statics_defs)
  have "length (fmt2 (cpu_idle e)) \<le> 320" "length (fmt2 (cpu_util e)) \<le> 320" "length (fmt2 (cpu_wa e)) \<le> 320"
    using next_cpu_representable [of rs stat] length_fmt2 by (simp_all add: e_def)
  then have len: "length ?w < LEN_1M" by simp
  have str: "cpu_record_to_str m s1 = Some (of_nat (length ?w), with_record m md ?w s1)"
    unfolding cpu_record_to_str_def
    by (rule k_cpu.to_str_last_holds [where line = cpu_report_line, OF formats_put(2) s1(3) md _ line len]) simp
  have "compute_cpu_stat (Some (zero_cpu\<lparr>cpu_stat := stat\<rparr>)) (if rs = [] then None else Some (last rs)) = Some e"
    using compute_cpu_defined [of "zero_cpu\<lparr>cpu_stat := stat\<rparr>" "last rs"]
    by (auto simp: e_def next_cpu_def Let_def compute_cpu_stat_def [of _ None])
  then show ?thesis
    using s1(1) str k_cpu.with_record_holds [OF s1(3) md] with_record_heap_ok [OF s1(2) md]
    by (intro exI [of _ s1] exI [of _ "with_record m md ?w s1"] exI [of _ "brk s"] exI [of _ e] exI)
       (auto simp: with_record_facts)
qed

theorem cpu_module_round_witness:
  "\<exists>s1 s2 n x e. cpu_collect_record (quiet_os (\<lambda>_ _. Some ''cpu  1 2 3 4'')) 4096 (boot_module M_cpu) = Some (Done s1)
    \<and> cpu_record_to_str 4096 s1 = Some (n, s2) \<and> holds O_cpu s2 (record_list 4096) [x] [e]"
  using cpu_module_round [of "boot_module M_cpu" 4096 "registered M_cpu" "[]" "[]" "quiet_os (\<lambda>_ _. Some ''cpu  1 2 3 4'')"
      "''cpu  1 2 3 4''", OF _ _ _ _ refl]
  by fastforce


subsection \<open>Freeing lists of lists\<close>

text \<open>
  A list of lists: each entry with the addresses and the records of its list. \<open>lists_at\<close> says
  that the entries and their lists are in the heap, \<open>cells_of\<close> the cells they take.
\<close>

type_synonym 'r lists = "(addr \<times> addr list \<times> 'r list) list"

definition cells_of :: "'r lists \<Rightarrow> addr list" where
  "cells_of ls = concat (map (\<lambda>(a, xs, rs). a # inner_head a # xs) ls)"

lemma cells_of_simps [simp]:
  "cells_of [] = []" "cells_of ((a, xs, rs) # ls) = a # inner_head a # xs @ cells_of ls"
  "cells_of (ls @ ls') = cells_of ls @ cells_of ls'"
  by (simp_all add: cells_of_def)

lemma in_cells_of: "(a, xs, rs) \<in> set ls \<Longrightarrow> set (a # inner_head a # xs) \<subseteq> set (cells_of ls)"
  by (auto simp: cells_of_def)

text \<open>The entries and records: what \<open>free\<close> is to give back.\<close>

definition blocks_of :: "'r lists \<Rightarrow> addr set" where
  "blocks_of ls = (\<Union>(a, xs, rs)\<in>set ls. set (a # xs))"

lemma blocks_of_simps [simp]:
  "blocks_of [] = {}" "blocks_of ((a, xs, rs) # ls) = set (a # xs) \<union> blocks_of ls"
  "blocks_of (ls @ ls') = blocks_of ls \<union> blocks_of ls'"
  by (simp_all add: blocks_of_def)

lemma blocks_in_cells: "blocks_of ls \<subseteq> set (cells_of ls)"
  by (auto simp: blocks_of_def cells_of_def)

definition lists_at :: "('r \<Rightarrow> obj) \<Rightarrow> st \<Rightarrow> 'r lists \<Rightarrow> bool" where
  "lists_at K s ls \<longleftrightarrow> (\<forall>(a, xs, rs)\<in>set ls. objs s a = Some O_list_list \<and> holds K s (inner_head a) xs rs)"

lemma lists_at_simps [simp]:
  "lists_at K s []"
  "lists_at K s ((a, xs, rs) # ls) \<longleftrightarrow>
     objs s a = Some O_list_list \<and> holds K s (inner_head a) xs rs \<and> lists_at K s ls"
  by (simp_all add: lists_at_def)

definition nested :: "('r \<Rightarrow> obj) \<Rightarrow> st \<Rightarrow> addr \<Rightarrow> 'r lists \<Rightarrow> bool" where
  "nested K s head ls \<longleftrightarrow> ring (links s) head (map fst ls) \<and> lists_at K s ls \<and> distinct (head # cells_of ls)"

lemma lists_at_below:
  assumes "heap_ok s" "lists_at K s ls" "c \<in> set (cells_of ls)"
  shows "c < brk s"
  using assms(2,3)
proof (induction ls)
  case (Cons l ls)
  obtain a xs rs where l: "l = (a, xs, rs)" by (cases l)
  then have "a < brk s"
    using Cons.prems(1) assms(1) unfolding heap_ok_def by fastforce
  then show ?case
    using Cons holds_below [OF assms(1), of K "inner_head a" xs rs] l by auto
qed simp

lemma lists_at_frame:
  assumes "heap_ok s" "lists_at K s ls" "only F s s'" "set (cells_of ls) \<inter> F = {}"
  shows "lists_at K s' ls"
  using assms(2,4)
proof (induction ls)
  case (Cons l ls)
  obtain a xs rs where l: "l = (a, xs, rs)" by (cases l)
  then have "a < brk s"
    using lists_at_below [OF assms(1) Cons.prems(1)] by simp
  then have "objs s' a = objs s a"
    using assms(3) Cons.prems(2) l by (simp add: only_def)
  then show ?case
    using Cons l holds_frame [OF assms(1) _ assms(3), of K "inner_head a" xs rs] by auto
qed simp

lemma chain_only:
  assumes "heap_ok s" "chain (links s) zs" "only F s s'" "set zs \<inter> F = {}" "\<And>c. c \<in> set zs \<Longrightarrow> c < brk s"
  shows "chain (links s') zs"
  using assms(2-5) chain_agree [of zs "links s'" "links s"] unfolding only_def by blast

lemma fresh_list_list: "fresh_cells a O_list_list = {a, inner_head a}"
  by (auto simp: fresh_cells_def obj_cells_def inner_head_def)

lemma nested_below:
  assumes "heap_ok s" "nested K s head ls" "c \<in> insert head (set (cells_of ls))"
  shows "c < brk s"
proof -
  have "head < brk s"
    using assms(1,2) ring_dom [of "links s" head] unfolding nested_def heap_ok_def by blast
  then show ?thesis
    using lists_at_below [OF assms(1), of K ls c] assms(2,3) by (auto simp: nested_def)
qed

lemma nested_frame:
  assumes "heap_ok s" "nested K s head ls" "only F s s'" "insert head (set (cells_of ls)) \<inter> F = {}"
  shows "nested K s' head ls"
proof -
  have "fst ` set ls \<subseteq> set (cells_of ls)"
    by (force simp: cells_of_def)
  then have "links s' c = links s c" if "c \<in> insert head (set (map fst ls))" for c
    using that nested_below [OF assms(1,2), of c] assms(3,4) by (auto simp: only_def)
  then have "ring (links s') head (map fst ls)"
    using ring_agree [of head "map fst ls" "links s'" "links s"] assms(2) by (simp add: nested_def)
  then show ?thesis
    using assms lists_at_frame [OF assms(1) _ assms(3), of K ls] by (auto simp: nested_def)
qed

lemma cells_apart:
  assumes "distinct (cells_of ls)" "(b, xs, rs) \<in> set ls" "c \<in> insert (inner_head b) (set xs)"
  shows "c \<notin> fst ` set ls"
proof -
  obtain us vs where ls: "ls = us @ (b, xs, rs) # vs"
    using assms(2) by (meson split_list)
  have "fst ` set ks \<subseteq> set (cells_of ks)" for ks :: "'a lists"
    by (force simp: cells_of_def)
  then show ?thesis
    using assms(1,3) unfolding ls by (auto dest: subsetD)
qed

context record_kind begin

lemma free_lists_step:
  assumes "heap_ok t" "objs t a = Some O_list_list" "holds K t (inner_head a) xs rs" "a \<notin> set xs"
    "NULL \<notin> set (a # xs)"
  shows "\<exists>t'. free_lists_body a t = Some (Next t') \<and> set (a # xs) \<inter> dom (objs t') = {} \<and> heap_ok t'
    \<and> only (set (a # inner_head a # xs)) t t' \<and> same_env t t'"
proof -
  obtain t1 where t1: "FREE_LIST_HEAD (inner_head a) t = Some t1" "set xs \<inter> dom (objs t1) = {}" "heap_ok t1"
    "only (set xs) t t1" "same_env t t1"
    using FREE_LIST_HEAD_frees [OF assms(1,3)] assms(5) by auto
  have "a < brk t"
    using assms(1,2) unfolding heap_ok_def by fastforce
  then have a: "objs t1 a = Some O_list_list"
    using t1(4) assms(2,4) by (simp add: only_def)
  let ?t' = "t1\<lparr>links := (\<lambda>c. if c \<in> {a, inner_head a} then None else links t1 c), objs := (objs t1)(a := None)\<rparr>"
  have f: "free a t1 = Some ?t'"
    using a by (simp add: free_def fresh_list_list)
  have "free_lists_body a t = Some (Next ?t')"
    using t1(1) f assms(5) by (simp add: free_lists_body_def free_body_def)
  moreover have "set (a # xs) \<inter> dom (objs ?t') = {}"
    using t1(2) by auto
  moreover have "only (set (a # inner_head a # xs)) t ?t'"
    using t1(4) by (auto simp: only_def)
  moreover have "same_env t ?t'"
    using t1(5) by (simp add: same_env_def)
  ultimately show ?thesis
    using free_heap_ok [OF t1(3) f] by blast
qed

lemma free_lists_step_left:
  assumes "heap_ok t" "lists_at K t ((a, xs, rs) # ls)" "distinct (head # cells_of ((a, xs, rs) # ls))"
    "NULL \<notin> set (a # xs)" "chain (links t) (a # map fst ls @ [head])" "head \<in> dom (links t)"
  shows "\<exists>t'. free_lists_body a t = Some (Next t') \<and> set (a # xs) \<inter> dom (objs t') = {} \<and> heap_ok t'
    \<and> only (set (a # inner_head a # xs)) t t' \<and> same_env t t'
    \<and> lists_at K t' ls \<and> chain (links t') (map fst ls @ [head]) \<and> head \<in> dom (links t')"
proof -
  let ?F = "set (a # inner_head a # xs)"
  obtain t' where t': "free_lists_body a t = Some (Next t')" "set (a # xs) \<inter> dom (objs t') = {}" "heap_ok t'"
    "only ?F t t'" "same_env t t'"
    using free_lists_step [OF assms(1), of a xs rs] assms(2-4) by auto
  have cells: "fst ` set ls \<subseteq> set (cells_of ls)"
    by (force simp: cells_of_def)
  have off: "set (cells_of ls) \<inter> ?F = {}" "head \<notin> ?F" and left: "lists_at K t ls"
    using assms(2,3) by auto
  have head: "head < brk t"
    using assms(1,6) by (auto simp: heap_ok_def)
  have "chain (links t) (map fst ls @ [head])"
    using assms(5) by (cases ls) simp_all
  moreover have "set (map fst ls @ [head]) \<inter> ?F = {}"
    using off cells by auto
  moreover have "c < brk t" if "c \<in> set (map fst ls @ [head])" for c
    using that head cells lists_at_below [OF assms(1) left] by auto
  ultimately have "chain (links t') (map fst ls @ [head])"
    using chain_only [OF assms(1) _ t'(4)] by blast
  moreover have "head \<in> dom (links t')"
    using t'(4) head off(2) assms(6) unfolding only_def by (metis domIff)
  ultimately show ?thesis
    using t' lists_at_frame [OF assms(1) left t'(4) off(1)] by blast
qed

lemma free_lists_frees:
  assumes ok: "heap_ok s" and n: "nested K s head ls" and nn: "NULL \<notin> blocks_of ls"
  shows "\<exists>s'. free_lists head s = Some s' \<and> blocks_of ls \<inter> dom (objs s') = {}
    \<and> heap_ok s' \<and> only (set (cells_of ls)) s s' \<and> same_env s s'"
proof -
  define keep where "keep = (\<lambda>ys t. \<exists>gone rest. ls = gone @ rest \<and> ys = map fst rest
      \<and> chain (links t) (ys @ [head]) \<and> head \<in> dom (links t) \<and> lists_at K t rest
      \<and> blocks_of gone \<inter> dom (objs t) = {} \<and> heap_ok t \<and> only (set (cells_of ls)) s t \<and> same_env s t)"
  have ring: "ring (links s) head (map fst ls)" and at: "lists_at K s ls" and dist: "distinct (head # cells_of ls)"
    using n by (simp_all add: nested_def)
  have head: "head \<notin> fst ` set ls"
    using dist by (force simp: cells_of_def)
  have step: "\<exists>t'. free_lists_body y t = Some (Next t') \<and> keep ys t'" if k: "keep (y # ys) t" for y ys t
  proof -
    obtain gone zs where gz: "ls = gone @ zs" "y # ys = map fst zs"
      and k0: "chain (links t) ((y # ys) @ [head])" "head \<in> dom (links t)" "lists_at K t zs"
      "blocks_of gone \<inter> dom (objs t) = {}" "heap_ok t" "only (set (cells_of ls)) s t" "same_env s t"
      using k unfolding keep_def by (elim exE conjE) (rule that)
    obtain xs rs rest where zs: "zs = (y, xs, rs) # rest" "ys = map fst rest"
      using gz(2) by (auto simp: Cons_eq_map_conv)
    note ls = gz(1) [unfolded zs(1)] zs(2) and k' = k0 [unfolded zs(1)]
    obtain t' where t': "free_lists_body y t = Some (Next t')" "set (y # xs) \<inter> dom (objs t') = {}" "heap_ok t'"
      "only (set (y # inner_head y # xs)) t t'" "same_env t t'"
      "lists_at K t' rest" "chain (links t') (ys @ [head])" "head \<in> dom (links t')"
      using free_lists_step_left [OF k'(5,3), of head] k'(1,2) dist nn ls by auto
    have "c \<notin> dom (objs t')" if "c \<in> blocks_of gone" for c
    proof -
      have c: "c \<in> set (cells_of gone)"
        using blocks_in_cells that by blast
      then have "c < brk t"
        using lists_at_below [OF ok at, of c] k'(6) ls(1) by (auto simp: only_def)
      moreover have "c \<notin> set (y # inner_head y # xs)"
        using dist c ls(1) by auto
      ultimately show ?thesis
        using t'(4) k'(4) that unfolding only_def by (metis disjoint_iff domIff)
    qed
    then have "blocks_of (gone @ [(y, xs, rs)]) \<inter> dom (objs t') = {}"
      using t'(2) by auto
    moreover have "only (set (cells_of ls)) s t'"
      using only_trans [OF k'(6) t'(4)] ls(1) by auto
    ultimately have "keep ys t'"
      unfolding keep_def using ls t' same_env_trans [OF k'(7)]
      by (intro exI [of _ "gone @ [(y, xs, rs)]"] exI [of _ rest]) auto
    then show ?thesis using t'(1) by blast
  qed
  have k0: "keep (map fst ls) s"
    unfolding keep_def using ring ring_dom [OF ring] at ok
    by (intro exI [of _ "[]"] exI [of _ ls]) (auto simp: ring_def successively_Cons)
  have inv: "head \<notin> set ys \<and> chain (links t) (ys @ [head]) \<and> head \<in> dom (links t)" if "keep ys t" for ys t
    using that head unfolding keep_def by auto
  obtain s' where s': "list_for_each_entry_safe free_lists_body links head s = Some (Next s')" "keep [] s'"
    using list_for_each_entry_safe_steps [of keep "map fst ls" s links head free_lists_body, OF k0 ring inv step] by blast
  then have "free_lists head s = Some s'"
    by (simp add: free_lists_def ctl_state_def)
  then show ?thesis
    using s'(2) unfolding keep_def by (intro exI [of _ s']) auto
qed

end

text \<open>
  C12. The free functions of the io and the process module: given a history of readings, the nested
  loops free every reading and every record of every reading, each exactly once, write to no other
  cell, and never reach memory that an earlier step of the loop has freed.
\<close>

theorem history_freed:
  assumes "heap_ok s" "free_head = io_free_record_list \<and> nested O_io s head ls \<and> freed = blocks_of ls \<and> cells = set (cells_of ls)
    \<or> free_head = proc_free_record_list \<and> nested O_proc s head ls' \<and> freed = blocks_of ls' \<and> cells = set (cells_of ls')"
    and "NULL \<notin> freed"
  shows "\<exists>s'. free_head head s = Some s' \<and> freed \<inter> dom (objs s') = {} \<and> heap_ok s' \<and> only cells s s' \<and> same_env s s'"
  using assms(2)
proof (elim disjE conjE)
  assume "free_head = io_free_record_list" "nested O_io s head ls" "freed = blocks_of ls" "cells = set (cells_of ls)"
  then show ?thesis
    using k_io.free_lists_frees [OF assms(1)] assms(3) by (simp add: io_free_record_list_def)
next
  assume "free_head = proc_free_record_list" "nested O_proc s head ls'" "freed = blocks_of ls'" "cells = set (cells_of ls')"
  then show ?thesis
    using k_proc.free_lists_frees [OF assms(1)] assms(3) by (simp add: proc_free_record_list_def)
qed

text \<open>A history of one reading with one process.\<close>

definition one_reading :: st where
  "one_reading = boot\<lparr>
     links := [100 \<mapsto> \<lparr>lh_next = 200, lh_prev = 200\<rparr>, 200 \<mapsto> \<lparr>lh_next = 100, lh_prev = 100\<rparr>,
       216 \<mapsto> \<lparr>lh_next = 300, lh_prev = 300\<rparr>, 300 \<mapsto> \<lparr>lh_next = 216, lh_prev = 216\<rparr>],
     objs := [200 \<mapsto> O_list_list, 300 \<mapsto> O_proc zero_proc], brk := 10000\<rparr>"

lemma one_reading_nested: "heap_ok one_reading" "nested O_proc one_reading 100 [(200, [300], [zero_proc])]"
  by (simp_all add: one_reading_def boot_def heap_ok_def nested_def holds_def ring_def link_def rd_next_def rd_prev_def
      inner_head_def head_offset_def)

theorem history_freed_witness:
  "\<exists>s'. proc_free_record_list 100 one_reading = Some s' \<and> {200, 300} \<inter> dom (objs s') = {}"
  using history_freed [of one_reading proc_free_record_list 100 "[]" "{200, 300}" "{200, 216, 300}" "[(200, [300], [zero_proc])]"]
    one_reading_nested
  by (auto simp: NULL_def inner_head_def head_offset_def insert_commute)

end
