(* ===== verification/Tool_Zsr.thy ===== *)
theory Tool_Zsr
  imports Mod_Single Mod_Query Mod_History Zsr_Log
begin

text \<open>
  \<open>zsr/tool_zsr.c\<close>: the options, the loops over the modules and the main loop. What \<open>getopt_long\<close>
  makes of the command line is the list of its answers here; Command_Line computes it.
\<close>

subsection \<open>The functions of a module\<close>

text \<open>Calls through the pointers \<open>collect_record\<close>, \<open>record_to_str\<close> and \<open>free_record_list\<close> of \<open>module_t\<close>.\<close>

fun mod_collect_record :: "os \<Rightarrow> mod_file \<Rightarrow> addr \<Rightarrow> st \<Rightarrow> (st, st) result" where
  "mod_collect_record os M_cpu = cpu_collect_record os"
| "mod_collect_record os M_dns = dns_collect_record os"
| "mod_collect_record os M_fs = fs_collect_record os"
| "mod_collect_record os M_gateway = gateway_collect_record os"
| "mod_collect_record os M_io = io_collect_record os"
| "mod_collect_record os M_ip = ip_collect_record os"
| "mod_collect_record os M_load_avg = load_avg_collect_record os"
| "mod_collect_record os M_mem = mem_collect_record os"
| "mod_collect_record os M_network = network_collect_record os"
| "mod_collect_record os M_proc = proc_collect_record os"
| "mod_collect_record os M_swap = swap_collect_record os"
| "mod_collect_record os M_time = time_collect_record os"
| "mod_collect_record os M_uptime = uptime_collect_record os"
| "mod_collect_record os M_who = who_collect_record os"

fun mod_record_to_str :: "mod_file \<Rightarrow> addr \<Rightarrow> st \<Rightarrow> (u64 \<times> st) option" where
  "mod_record_to_str M_cpu = cpu_record_to_str"
| "mod_record_to_str M_dns = dns_record_to_str"
| "mod_record_to_str M_fs = fs_record_to_str"
| "mod_record_to_str M_gateway = gateway_record_to_str"
| "mod_record_to_str M_io = io_record_to_str"
| "mod_record_to_str M_ip = ip_record_to_str"
| "mod_record_to_str M_load_avg = load_avg_record_to_str"
| "mod_record_to_str M_mem = mem_record_to_str"
| "mod_record_to_str M_network = network_record_to_str"
| "mod_record_to_str M_proc = proc_record_to_str"
| "mod_record_to_str M_swap = swap_record_to_str"
| "mod_record_to_str M_time = time_record_to_str"
| "mod_record_to_str M_uptime = uptime_record_to_str"
| "mod_record_to_str M_who = who_record_to_str"

fun mod_free_record_list :: "mod_file \<Rightarrow> addr \<Rightarrow> st \<Rightarrow> st option" where
  "mod_free_record_list M_cpu = cpu_free_record_list"
| "mod_free_record_list M_dns = dns_free_record_list"
| "mod_free_record_list M_fs = fs_free_record_list"
| "mod_free_record_list M_gateway = gateway_free_record_list"
| "mod_free_record_list M_io = io_free_record_list"
| "mod_free_record_list M_ip = ip_free_record_list"
| "mod_free_record_list M_load_avg = load_avg_free_record_list"
| "mod_free_record_list M_mem = mem_free_record_list"
| "mod_free_record_list M_network = network_free_record_list"
| "mod_free_record_list M_proc = proc_free_record_list"
| "mod_free_record_list M_swap = swap_free_record_list"
| "mod_free_record_list M_time = time_free_record_list"
| "mod_free_record_list M_uptime = uptime_free_record_list"
| "mod_free_record_list M_who = who_free_record_list"


subsection \<open>Loops over the modules\<close>

text \<open>A \<open>return\<close> or an \<open>exit\<close> in the body leaves the loop with an outcome of the whole function.\<close>

definition each_module :: "(addr \<Rightarrow> st \<Rightarrow> (st, (st, st) outcome) ctl option) \<Rightarrow> st \<Rightarrow> (st, st) result" where
  "each_module body s = map_option (\<lambda>c. case c of Next s \<Rightarrow> Done s | Leave r \<Rightarrow> r)
     (list_for_each_entry body links MOD_LIST_HEAD s)"

definition go_on :: "(st, st) result \<Rightarrow> (st, (st, st) outcome) ctl option" where
  "go_on r = map_option (\<lambda>r. case r of Done s \<Rightarrow> Next s | Exit c s \<Rightarrow> Leave (Exit c s)) r"

definition collect_body :: "os \<Rightarrow> addr \<Rightarrow> st \<Rightarrow> (st, (st, st) outcome) ctl option" where
  "collect_body os m s = do {
     md \<leftarrow> obj_at as_module m s;
     go_on (mod_collect_record os (fn_collect_record md) m s)
   }"

definition collect_record :: "os \<Rightarrow> st \<Rightarrow> (st, st) result" where
  "collect_record os s = each_module (collect_body os) s"

definition free_record_body :: "addr \<Rightarrow> st \<Rightarrow> (st, (st, st) outcome) ctl option" where
  "free_record_body m s = do {
     md \<leftarrow> obj_at as_module m s;
     s \<leftarrow> mod_free_record_list (fn_free_record_list md) (record_list m) s;
     Some (Next s)
   }"

definition free_record_list :: "st \<Rightarrow> (st, st) result" where
  "free_record_list s = each_module free_record_body s"

definition set_enable :: "addr \<Rightarrow> st \<Rightarrow> st option" where
  "set_enable m s = do {
     md \<leftarrow> obj_at as_module m s;
     set_obj m (O_module (md\<lparr>enable := 1\<rparr>)) s
   }"

definition enable_body :: "string \<Rightarrow> addr \<Rightarrow> st \<Rightarrow> (st, (st, st) outcome) ctl option" where
  "enable_body mod_opt m s = do {
     md \<leftarrow> obj_at as_module m s;
     opt \<leftarrow> buf_str (opt_line md);
     if opt = mod_opt then do {
       s \<leftarrow> set_enable m s;
       Some (Leave (Done s))
     }
     else Some (Next s)
   }"

definition enable_module :: "string \<Rightarrow> st \<Rightarrow> (st, st) result" where
  "enable_module mod_opt s =
     (case list_for_each_entry (enable_body mod_opt) links MOD_LIST_HEAD s of
        None \<Rightarrow> None
      | Some (Leave r) \<Rightarrow> Some r
      | Some (Next s) \<Rightarrow> Some (Exit 0 (fputs_err (''Invalid module option: '' @ mod_opt @ [newline]) s)))"

definition enable_all_body :: "addr \<Rightarrow> st \<Rightarrow> (st, (st, st) outcome) ctl option" where
  "enable_all_body m s = do { s \<leftarrow> set_enable m s; Some (Next s) }"

definition enable_all_module :: "st \<Rightarrow> (st, st) result" where
  "enable_all_module s = each_module enable_all_body s"

definition list_enable_body :: "addr \<Rightarrow> st \<Rightarrow> (st, (st, st) outcome) ctl option" where
  "list_enable_body m s = do {
     md \<leftarrow> obj_at as_module m s;
     if enable md \<noteq> 0 then do {
       opt \<leftarrow> buf_str (opt_line md);
       Some (Next (fputs_err (''    '' @ opt @ [newline]) s))
     }
     else Some (Next s)
   }"

definition list_enable_module :: "st \<Rightarrow> (st, st) result" where
  "list_enable_module s =
     bnd (each_module list_enable_body (fputs_err ([newline] @ ''Modules Enabled:'' @ [newline]) s))
       (\<lambda>s. Some (Done (fputs_err [newline] s)))"

definition list_load_body :: "addr \<Rightarrow> st \<Rightarrow> (st, (st, st) outcome) ctl option" where
  "list_load_body m s = do {
     md \<leftarrow> obj_at as_module m s;
     u \<leftarrow> buf_str (mod_usage md);
     Some (Next (fputs_err (u @ [newline]) s))
   }"

definition list_load_module :: "st \<Rightarrow> (st, st) result" where
  "list_load_module s =
     bnd (each_module list_load_body (fputs_err ([newline] @ ''Modules Loaded:'' @ [newline]) s))
       (\<lambda>s. Some (Done (fputs_err [newline] s)))"

definition count_body :: "addr \<Rightarrow> st \<times> int \<Rightarrow> (st \<times> int, st \<times> int) ctl option" where
  "count_body m v = (case v of (s, i) \<Rightarrow> do {
     md \<leftarrow> obj_at as_module m s;
     Some (Next (s, if enable md \<noteq> 0 then i + 1 else i))
   })"

definition check_enable_module :: "st \<Rightarrow> (st, st) result" where
  "check_enable_module s =
     (case list_for_each_entry count_body (\<lambda>v. links (fst v)) MOD_LIST_HEAD (s, 0) of
        None \<Rightarrow> None
      | Some c \<Rightarrow> (case ctl_state c of (s, i) \<Rightarrow>
          if i = 0 then Some (Exit 0 (fputs_err (''No module is enabled.'' @ [newline]) s))
          else Some (Done s)))"

definition usage_text :: string where
  "usage_text = [newline] @ ''Usage: zsr [options]'' @ [newline] @ [newline] @ ''Options:'' @ [newline]
     @ ''    -a, --all       enabled all modules'' @ [newline]
     @ ''    -c, --count     '' @ ''the value of count determines the number of reports generated'' @ [newline]
     @ ''    -d, --delay     delay-time interval'' @ [newline]
     @ ''    -l, --list      list enabled modules'' @ [newline]
     @ ''    -h, --help      help'' @ [newline]"

definition missing_text :: string where
  "missing_text = ''must have parameter'' @ [newline]"

definition quit :: "st \<Rightarrow> (st, 'a) result" where
  "quit s = Some (Exit 0 s)"

definition usage :: "st \<Rightarrow> (st, 'a) result" where
  "usage s = bnd (list_load_module (fputs_err usage_text s)) (\<lambda>s. bnd (list_enable_module s) quit)"

definition print_body :: "addr \<Rightarrow> st \<Rightarrow> (st, (st, st) outcome) ctl option" where
  "print_body m s = do {
     md \<leftarrow> obj_at as_module m s;
     if enable md = 0 then Some (Next s)
     else do {
       (n, s) \<leftarrow> mod_record_to_str (fn_record_to_str md) m s;
       md \<leftarrow> obj_at as_module m s;
       Some (Next (fputs_out (cstr (mod_record md)) s))
     }
   }"

definition print_mod_record :: "st \<Rightarrow> (st, st) result" where
  "print_mod_record s = each_module print_body s"


subsection \<open>main\<close>

text \<open>
  One answer of \<open>getopt_long\<close>: the character it returns, \<open>optarg\<close>, and \<open>argv[optind - 1]\<close> at
  that time.
\<close>

type_synonym getopt_event = "char \<times> string option \<times> string option"

definition atoi :: "string \<Rightarrow> int" where
  "atoi w = (case scan_d w of None \<Rightarrow> 0 | Some (n, _) \<Rightarrow> n)"

definition main_switch :: "getopt_event \<Rightarrow> int \<times> int \<times> st \<Rightarrow> (st, int \<times> int \<times> st) result" where
  "main_switch ev v = (case ev of (opt, optarg, arg) \<Rightarrow> case v of (opt_count, opt_interval, s) \<Rightarrow>
     if opt = CHR ''a'' then bnd (enable_all_module s) (\<lambda>s. Some (Done (opt_count, opt_interval, s)))
     else if opt = CHR ''c'' then bnd (total optarg) (\<lambda>w. Some (Done (atoi w, opt_interval, s)))
     else if opt = CHR ''d'' then
       bnd (total optarg) (\<lambda>w. Some (Done (opt_count, if 0 < atoi w then atoi w else 2, s)))
     else if opt = CHR ''l'' then bnd (list_enable_module s) quit
     else if opt = CHR ''L'' then bnd (list_load_module s) quit
     else if opt = CHR ''h'' then usage s
     else if opt = CHR '':'' then usage (fputs_out missing_text s)
     else if opt = CHR ''?'' then
       (case arg of
          Some w \<Rightarrow> if sublist ''--'' w
            then bnd (enable_module w s) (\<lambda>s. Some (Done (opt_count, opt_interval, s)))
            else usage s
        | None \<Rightarrow> usage s)
     else usage s)"

fun main_options :: "getopt_event list \<Rightarrow> int \<times> int \<times> st \<Rightarrow> (st, int \<times> int \<times> st) result" where
  "main_options [] v = Some (Done v)"
| "main_options (ev # evs) v = bnd (main_switch ev v) (main_options evs)"

definition sleep :: "int \<Rightarrow> st \<Rightarrow> st" where
  "sleep n s = s\<lparr>clock := clock s + nat n\<rparr>"

definition round_once :: "os \<Rightarrow> int \<Rightarrow> int \<Rightarrow> st \<Rightarrow> (st, st) result" where
  "round_once os opt_interval i s =
     bnd (collect_record os (if i \<noteq> 1 then sleep opt_interval s else s)) print_mod_record"

text \<open>
  The loop \<open>while(1)\<close>. The counter \<open>i\<close> is an \<open>int\<close>: counting past the largest one is undefined.
\<close>

partial_function (option) main_loop ::
    "os \<Rightarrow> bool \<Rightarrow> int \<Rightarrow> int \<Rightarrow> int \<Rightarrow> st \<Rightarrow> (st, st) outcome option" where
  "main_loop os is_loop opt_interval opt_count i s =
     (if \<not> is_loop \<and> opt_count \<le> 0 then Some (Done s)
      else if i = 2 ^ 31 - 1 then None
      else case round_once os opt_interval (i + 1) s of
          None \<Rightarrow> None
        | Some (Exit c s) \<Rightarrow> Some (Exit c s)
        | Some (Done s) \<Rightarrow>
            main_loop os is_loop opt_interval (if is_loop then opt_count else opt_count - 1) (i + 1) s)"

definition main :: "os \<Rightarrow> getopt_event list \<Rightarrow> st \<Rightarrow> (st, int \<times> st) result" where
  "main os evs s =
     bnd (total (INIT_MOD_LIST_HEAD s)) (\<lambda>s.
     bnd (total (load_modules s)) (\<lambda>s.
     bnd (main_options evs (- 1, 2, s)) (\<lambda>(opt_count, opt_interval, s).
     let is_loop = opt_count \<le> 0 in
     bnd (check_enable_module s) (\<lambda>s.
     bnd (main_loop os is_loop opt_interval opt_count 0 s) (\<lambda>s.
     bnd (free_record_list s) (\<lambda>s.
     bnd (total (FREE_MOD_LIST_HEAD s)) (\<lambda>s. Some (Done (0, s)))))))))"

subsection \<open>The ring of modules and its flags\<close>

text \<open>The modules as they registered, those of \<open>E\<close> enabled.\<close>

definition flags :: "mod_file set \<Rightarrow> module_t list" where
  "flags E = map (\<lambda>f. (registered f)\<lparr>enable := if f \<in> E then 1 else 0\<rparr>) mod_files"

definition tool_state :: "mod_file set \<Rightarrow> st \<Rightarrow> bool" where
  "tool_state E s \<longleftrightarrow> heap_ok s \<and> (\<exists>xs. modules s xs (flags E))"

lemma set_mod_files [simp]: "set mod_files = UNIV"
proof -
  have "f \<in> set mod_files" for f
    by (cases f) (simp_all add: mod_files_def)
  then show ?thesis by blast
qed

lemma distinct_mod_files [simp]: "distinct mod_files"
  by (simp add: mod_files_def)

lemma length_flags [simp]: "length (flags E) = length mod_files"
  by (simp add: flags_def)

lemma flags_nth:
  "i < length mod_files \<Longrightarrow> flags E ! i = (registered (mod_files ! i))\<lparr>enable := if mod_files ! i \<in> E then 1 else 0\<rparr>"
  by (simp add: flags_def)

lemma mod_opt_of_inj: "mod_opt_of f = mod_opt_of g \<longleftrightarrow> f = g"
  by (cases f; cases g; simp add: statics_defs)

text \<open>The module of a file is at one place of the ring; its flag changes there and nowhere else.\<close>

lemma flags_update:
  assumes "i < length mod_files"
  shows "(flags E)[i := (flags E ! i)\<lparr>enable := 1\<rparr>] = flags (insert (mod_files ! i) E)"
proof (rule nth_equalityI)
  show "(flags E)[i := (flags E ! i)\<lparr>enable := 1\<rparr>] ! j = flags (insert (mod_files ! i) E) ! j"
    if "j < length ((flags E)[i := (flags E ! i)\<lparr>enable := 1\<rparr>])" for j
    using that assms nth_eq_iff_index_eq [OF distinct_mod_files, of i j]
    by (cases "i = j") (auto simp: flags_def)
qed simp

lemma modules_length: "modules s xs ms \<Longrightarrow> length xs = length ms"
  unfolding modules_unfold holds_def by (metis length_map)

lemma modules_at:
  assumes "modules s xs ms" "i < length ms"
  shows "objs s (xs ! i) = Some (O_module (ms ! i))"
proof -
  have "map (objs s) xs ! i = map (\<lambda>r. Some (O_module r)) ms ! i"
    using assms(1) by (simp add: modules_unfold holds_def)
  then show ?thesis
    using assms(2) modules_length [OF assms(1)] by simp
qed

lemma modules_ring: "modules s xs ms \<Longrightarrow> ring (links s) MOD_LIST_HEAD xs"
  by (simp add: modules_unfold holds_def)

lemma set_enable_at:
  assumes ok: "heap_ok s" and m: "modules s xs ms" and i: "i < length ms"
  shows "\<exists>s'. set_enable (xs ! i) s = Some s' \<and> heap_ok s' \<and> modules s' xs (ms[i := (ms ! i)\<lparr>enable := 1\<rparr>])
    \<and> links s' = links s \<and> same_env s s'"
proof -
  note at = modules_at [OF m i] modules_length [OF m]
  let ?md = "(ms ! i)\<lparr>enable := 1\<rparr>"
  let ?s = "s\<lparr>objs := (objs s)(xs ! i \<mapsto> O_module ?md)\<rparr>"
  have run: "set_enable (xs ! i) s = Some ?s"
    using at(1) by (simp add: set_enable_def obj_at_def as_module_def set_obj_def)
  have "xs ! i + obj_size (O_module (ms ! i)) \<le> brk s"
    using ok at(1) unfolding heap_ok_def by blast
  then have "heap_ok ?s"
    using ok by (auto simp: heap_ok_def)
  moreover have "map (objs ?s) xs = map (\<lambda>r. Some (O_module r)) (ms[i := ?md])"
  proof (rule nth_equalityI)
    have "distinct xs"
      using ring_distinct [OF modules_ring [OF m]] by simp
    then show "map (objs ?s) xs ! j = map (\<lambda>r. Some (O_module r)) (ms[i := ?md]) ! j" if "j < length (map (objs ?s) xs)" for j
      using that at i modules_at [OF m, of j] nth_eq_iff_index_eq [of xs i j]
      by (cases "i = j") auto
  qed (simp add: at)
  then have "modules ?s xs (ms[i := ?md])"
    using m unfolding modules_unfold holds_def by simp
  ultimately show ?thesis
    using run by (auto simp: same_env_def)
qed

subsection \<open>Enabling modules\<close>

lemma find_module:
  "fold_ctl (enable_body w) ys s = (case find (\<lambda>(y, f). mod_opt_of f = w) (zip ys fs) of
      None \<Rightarrow> Some (Next s) | Some (y, f) \<Rightarrow> map_option (\<lambda>s. Leave (Done s)) (set_enable y s))"
  if "list_all2 (\<lambda>y f. \<exists>md. objs s y = Some (O_module md) \<and> buf_str (opt_line md) = Some (mod_opt_of f)) ys fs"
  using that
proof (induction ys fs rule: list_all2_induct)
  case (Cons y ys f fs)
  then show ?case
    by (cases "set_enable y s") (auto simp: enable_body_def obj_at_def as_module_def split: if_splits)
qed simp

lemma each_module_fold:
  assumes "ring (links s) MOD_LIST_HEAD xs"
    and "\<And>y s s'. body y s = Some (Next s') \<Longrightarrow> links s' = links s"
  shows "list_for_each_entry body links MOD_LIST_HEAD s = fold_ctl body xs s"
  by (rule list_for_each_entry_fold [where keep = "\<lambda>t. links t = links s"]) (use assms in auto)

lemma flags_opt:
  assumes "modules s xs (flags E)"
  shows "list_all2 (\<lambda>y f. \<exists>md. objs s y = Some (O_module md) \<and> buf_str (opt_line md) = Some (mod_opt_of f)) xs mod_files"
  using modules_at [OF assms] modules_length [OF assms] by (simp add: list_all2_conv_all_nth flags_nth)

lemma enable_module_flags:
  assumes "tool_state E s"
  shows "case find (\<lambda>f. mod_opt_of f = w) mod_files of
      Some f \<Rightarrow> \<exists>s'. enable_module w s = Some (Done s') \<and> tool_state (insert f E) s' \<and> same_env s s'
    | None \<Rightarrow> enable_module w s = Some (Exit 0 (fputs_err (''Invalid module option: '' @ w @ [newline]) s))"
proof -
  obtain xs where ok: "heap_ok s" and m: "modules s xs (flags E)"
    using assms by (auto simp: tool_state_def)
  have len: "length xs = length mod_files"
    using modules_length [OF m] by simp
  have "enable_body w y s = Some (Next s') \<Longrightarrow> links s' = links s" for y s s'
    by (auto simp: enable_body_def split: if_splits bind_splits)
  from each_module_fold [of s xs "enable_body w", OF modules_ring [OF m] this]
  have fold: "list_for_each_entry (enable_body w) links MOD_LIST_HEAD s =
      (case find (\<lambda>(y, f). mod_opt_of f = w) (zip xs mod_files) of
        None \<Rightarrow> Some (Next s) | Some (y, f) \<Rightarrow> map_option (\<lambda>s. Leave (Done s)) (set_enable y s))"
    using find_module [OF flags_opt [OF m]] by simp
  show ?thesis
  proof (cases "find (\<lambda>f. mod_opt_of f = w) mod_files")
    case None
    then have "find (\<lambda>(y, f). mod_opt_of f = w) (zip xs mod_files) = None"
      by (auto simp: find_None_iff dest: set_zip_rightD)
    then show ?thesis
      using fold None by (simp add: enable_module_def)
  next
    case (Some f)
    then obtain i where i: "i < length mod_files" "mod_files ! i = f" "mod_opt_of f = w"
      by (auto simp: find_Some_iff)
    have "find (\<lambda>(y, f). mod_opt_of f = w) (zip xs mod_files) = Some (xs ! i, f)"
      using i len nth_eq_iff_index_eq [OF distinct_mod_files] unfolding find_Some_iff
      by (intro exI [of _ i]) (fastforce simp: mod_opt_of_inj)
    moreover obtain s' where "set_enable (xs ! i) s = Some s'" "heap_ok s'" "same_env s s'"
      "modules s' xs ((flags E)[i := (flags E ! i)\<lparr>enable := 1\<rparr>])"
      using set_enable_at [OF ok m, of i] i(1) by auto
    ultimately show ?thesis
      using fold Some i flags_update [OF i(1), of E] by (auto simp: enable_module_def tool_state_def)
  qed
qed

lemma enable_all_fold:
  assumes "heap_ok s" "modules s (xs @ ys) (ms @ ms')" "length ys = length ms'"
  shows "\<exists>s'. fold_ctl enable_all_body ys s = Some (Next s') \<and> heap_ok s'
    \<and> modules s' (xs @ ys) (ms @ map (\<lambda>md. md\<lparr>enable := 1\<rparr>) ms') \<and> same_env s s'"
  using assms
proof (induction ys arbitrary: s xs ms ms')
  case (Cons y ys)
  then obtain md ms'' where ms': "ms' = md # ms''" by (cases ms') auto
  have len: "length xs = length ms"
    using modules_length [OF Cons.prems(2)] Cons.prems(3) by simp
  then have y: "(xs @ y # ys) ! length ms = y"
    by (metis nth_append_length)
  obtain s1 where s1: "set_enable y s = Some s1" "heap_ok s1" "same_env s s1"
    "modules s1 ((xs @ [y]) @ ys) ((ms @ [md\<lparr>enable := 1\<rparr>]) @ ms'')"
    using set_enable_at [OF Cons.prems(1,2), of "length ms"] y ms' by auto
  obtain s2 where "fold_ctl enable_all_body ys s1 = Some (Next s2)" "heap_ok s2" "same_env s1 s2"
    "modules s2 ((xs @ [y]) @ ys) ((ms @ [md\<lparr>enable := 1\<rparr>]) @ map (\<lambda>md. md\<lparr>enable := 1\<rparr>) ms'')"
    using Cons.IH [OF s1(2,4)] Cons.prems(3) ms' by auto
  then show ?case
    using enable_all_body_def [of y s] s1(1) same_env_trans [OF s1(3)] ms' by auto
qed simp

lemma set_enable_links: "set_enable y s = Some s' \<Longrightarrow> links s' = links s"
  by (auto simp: set_enable_def set_obj_def split: bind_splits option.splits)

lemma enable_all_module_flags:
  assumes "tool_state E s"
  shows "\<exists>s'. enable_all_module s = Some (Done s') \<and> tool_state UNIV s' \<and> same_env s s'"
proof -
  obtain xs where ok: "heap_ok s" and m: "modules s xs (flags E)"
    using assms by (auto simp: tool_state_def)
  have "enable_all_body y s = Some (Next s') \<Longrightarrow> links s' = links s" for y s s'
    by (auto simp: enable_all_body_def set_enable_links split: bind_splits)
  note fold = each_module_fold [of s xs enable_all_body, OF modules_ring [OF m] this]
  have "map (\<lambda>md. md\<lparr>enable := 1\<rparr>) (flags E) = flags UNIV"
    by (simp add: flags_def)
  then show ?thesis
    using enable_all_fold [OF ok, of "[]" xs "[]" "flags E"] m modules_length [OF m] fold
    by (auto simp: enable_all_module_def each_module_def tool_state_def)
qed


subsection \<open>What the tool prints about its modules\<close>

text \<open>A loop that only prints to \<open>stderr\<close> prints the text of every module in turn.\<close>

lemma print_fold:
  assumes "list_all2 (\<lambda>y t. \<forall>s'. objs s' = objs s \<longrightarrow> body y s' = Some (Next (fputs_err t s'))) ys ts" "objs s' = objs s"
  shows "fold_ctl body ys s' = Some (Next (fputs_err (concat ts) s'))"
  using assms
proof (induction ys ts arbitrary: s' rule: list_all2_induct)
  case Nil
  then show ?case by (simp add: fputs_err_def)
next
  case (Cons y ys t ts)
  then show ?case by (simp add: fputs_err_def)
qed

lemma each_module_prints:
  assumes "modules s xs (flags E)" "\<And>y s s'. body y s = Some (Next s') \<Longrightarrow> links s' = links s"
    and "\<And>i s'. i < length mod_files \<Longrightarrow> objs s' = objs s \<Longrightarrow>
      body (xs ! i) s' = Some (Next (fputs_err (t (mod_files ! i)) s'))"
    and "objs s' = objs s" "links s' = links s"
  shows "each_module body s' = Some (Done (fputs_err (concat (map t mod_files)) s'))"
proof -
  have "list_all2 (\<lambda>y t. \<forall>s'. objs s' = objs s \<longrightarrow> body y s' = Some (Next (fputs_err t s'))) xs (map t mod_files)"
    using assms(3) modules_length [OF assms(1)] by (simp add: list_all2_conv_all_nth)
  from print_fold [OF this assms(4)] show ?thesis
    using each_module_fold [of s' xs body, OF _ assms(2)] modules_ring [OF assms(1)] assms(5)
    by (simp add: each_module_def)
qed

definition loaded_text :: string where
  "loaded_text = [newline] @ ''Modules Loaded:'' @ [newline]
     @ concat (map (\<lambda>f. mod_usage_of f @ [newline]) mod_files) @ [newline]"

definition enabled_text :: "mod_file set \<Rightarrow> string" where
  "enabled_text E = [newline] @ ''Modules Enabled:'' @ [newline]
     @ concat (map (\<lambda>f. if f \<in> E then ''    '' @ mod_opt_of f @ [newline] else '''') mod_files) @ [newline]"

lemma fputs_err_append [simp]: "fputs_err u (fputs_err t s) = fputs_err (t @ u) s"
  by (simp add: fputs_err_def)

lemma fputs_err_memory [simp]:
  "objs (fputs_err t s) = objs s" "links (fputs_err t s) = links s" "out (fputs_err t s) = out s"
  "err (fputs_err t s) = err s @ t"
  by (simp_all add: fputs_err_def)

lemma module_at_flags:
  "modules s xs (flags E) \<Longrightarrow> i < length mod_files \<Longrightarrow> objs s (xs ! i)
    = Some (O_module ((registered (mod_files ! i))\<lparr>enable := if mod_files ! i \<in> E then 1 else 0\<rparr>))"
  using modules_at [of s xs "flags E" i] by (simp add: flags_nth)

lemma list_load_module_prints:
  assumes "modules s xs (flags E)" "objs s' = objs s" "links s' = links s"
  shows "list_load_module s' = Some (Done (fputs_err loaded_text s'))"
proof -
  have "each_module list_load_body t = Some (Done (fputs_err (concat (map (\<lambda>f. mod_usage_of f @ [newline]) mod_files)) t))"
    if "objs t = objs s" "links t = links s" for t
    by (rule each_module_prints [OF assms(1) _ _ that])
       (auto simp: list_load_body_def obj_at_def as_module_def module_at_flags [OF assms(1)] split: bind_splits)
  then show ?thesis
    using assms(2,3) by (simp add: list_load_module_def loaded_text_def)
qed

lemma list_enable_module_prints:
  assumes "modules s xs (flags E)" "objs s' = objs s" "links s' = links s"
  shows "list_enable_module s' = Some (Done (fputs_err (enabled_text E) s'))"
proof -
  have "each_module list_enable_body t = Some (Done (fputs_err (concat (map
      (\<lambda>f. if f \<in> E then ''    '' @ mod_opt_of f @ [newline] else '''') mod_files)) t))"
    if "objs t = objs s" "links t = links s" for t
    by (rule each_module_prints [OF assms(1) _ _ that])
       (auto simp: list_enable_body_def obj_at_def as_module_def module_at_flags [OF assms(1)] fputs_err_def
         split: bind_splits if_splits)
  then show ?thesis
    using assms(2,3) by (simp add: list_enable_module_def enabled_text_def)
qed

definition help_text :: "mod_file set \<Rightarrow> string" where
  "help_text E = usage_text @ loaded_text @ enabled_text E"

lemma usage_prints:
  assumes "modules s xs (flags E)" "objs s' = objs s" "links s' = links s"
  shows "usage s' = Some (Exit 0 (fputs_err (help_text E) s'))"
  using list_load_module_prints [OF assms(1)] list_enable_module_prints [OF assms(1)] assms(2,3)
  by (simp add: usage_def help_text_def quit_def)


subsection \<open>The command line\<close>

text \<open>
  What the answers of \<open>getopt_long\<close> ask for, without the heap: the enabled modules, the count
  and the delay, or a text on \<open>stdout\<close> and one on \<open>stderr\<close> to stop with.
\<close>

definition abs_switch :: "getopt_event \<Rightarrow> mod_file set \<times> int \<times> int \<Rightarrow> (string \<times> string) + (mod_file set \<times> int \<times> int)" where
  "abs_switch ev v = (case ev of (opt, optarg, arg) \<Rightarrow> case v of (E, c, d) \<Rightarrow>
     if opt = CHR ''a'' then Inr (UNIV, c, d)
     else if opt = CHR ''c'' then Inr (E, atoi (the optarg), d)
     else if opt = CHR ''d'' then Inr (E, c, let n = atoi (the optarg) in if 0 < n then n else 2)
     else if opt = CHR ''l'' then Inl ('''', enabled_text E)
     else if opt = CHR ''L'' then Inl ('''', loaded_text)
     else if opt = CHR '':'' then Inl (missing_text, help_text E)
     else if opt = CHR ''?'' \<and> arg \<noteq> None \<and> sublist ''--'' (the arg) then
       (case find (\<lambda>f. mod_opt_of f = the arg) mod_files of
          Some f \<Rightarrow> Inr (insert f E, c, d)
        | None \<Rightarrow> Inl ('''', ''Invalid module option: '' @ the arg @ [newline]))
     else Inl ('''', help_text E))"

fun abs_options :: "getopt_event list \<Rightarrow> mod_file set \<times> int \<times> int \<Rightarrow> (string \<times> string) + (mod_file set \<times> int \<times> int)" where
  "abs_options [] v = Inr v"
| "abs_options (ev # evs) v = (case abs_switch ev v of Inl t \<Rightarrow> Inl t | Inr v \<Rightarrow> abs_options evs v)"

text \<open>\<open>getopt_long\<close> hands over an argument with every option that requires one.\<close>

definition arguments_given :: "getopt_event list \<Rightarrow> bool" where
  "arguments_given evs \<longleftrightarrow> (\<forall>(opt, optarg, arg)\<in>set evs. opt = CHR ''c'' \<or> opt = CHR ''d'' \<longrightarrow> optarg \<noteq> None)"

lemma switch_usage:
  assumes "opt \<noteq> CHR ''a''" "opt \<noteq> CHR ''c''" "opt \<noteq> CHR ''d''" "opt \<noteq> CHR ''l''" "opt \<noteq> CHR ''L''"
    "opt \<noteq> CHR '':''" "\<not> (opt = CHR ''?'' \<and> arg \<noteq> None \<and> sublist ''--'' (the arg))"
  shows "main_switch (opt, optarg, arg) (c, d, s) = usage s"
    "abs_switch (opt, optarg, arg) (E, c, d) = Inl ('''', help_text E)"
  subgoal using assms by (cases arg) (simp_all add: main_switch_def)
  subgoal using assms(1-6) unfolding abs_switch_def prod.case if_not_P [OF assms(7)] by simp
  done

lemma main_switch_refines:
  assumes t: "tool_state E s" and a: "opt = CHR ''c'' \<or> opt = CHR ''d'' \<Longrightarrow> optarg \<noteq> None"
  shows "case abs_switch (opt, optarg, arg) (E, c, d) of
      Inl (to_out, to_err) \<Rightarrow> \<exists>s'. main_switch (opt, optarg, arg) (c, d, s) = Some (Exit 0 s')
        \<and> out s' = out s @ to_out \<and> err s' = err s @ to_err
    | Inr (E', c', d') \<Rightarrow> \<exists>s'. main_switch (opt, optarg, arg) (c, d, s) = Some (Done (c', d', s'))
        \<and> tool_state E' s' \<and> same_env s s'"
proof -
  obtain xs where ok: "heap_ok s" and m: "modules s xs (flags E)"
    using t by (auto simp: tool_state_def)
  let ?o = "fputs_out missing_text s"
  have o: "objs ?o = objs s" "links ?o = links s" "out ?o = out s @ missing_text" "err ?o = err s"
    by (simp_all add: fputs_out_def)
  note prints = usage_prints [OF m refl refl] usage_prints [OF m o(1,2)] list_load_module_prints [OF m refl refl]
    list_enable_module_prints [OF m refl refl]
  consider (all) "opt = CHR ''a''" | (arg) "opt = CHR ''c'' \<or> opt = CHR ''d''"
    | (other) w where "opt = CHR ''?''" "arg = Some w" "sublist ''--'' w"
    | (texts) "opt \<noteq> CHR ''a''" "opt \<noteq> CHR ''c''" "opt \<noteq> CHR ''d''" "\<not> (opt = CHR ''?'' \<and> arg \<noteq> None \<and> sublist ''--'' (the arg))"
    by (cases arg) auto
  then show ?thesis
  proof cases
    case all
    then show ?thesis
      using enable_all_module_flags [OF t] by (auto simp: abs_switch_def main_switch_def)
  next
    case arg
    then obtain w where w: "optarg = Some w"
      using a by auto
    from arg show ?thesis
      by (elim disjE) (simp_all add: abs_switch_def main_switch_def Let_def t w)
  next
    case other
    then have "abs_switch (opt, optarg, arg) (E, c, d) = (case find (\<lambda>f. mod_opt_of f = w) mod_files of
          Some f \<Rightarrow> Inr (insert f E, c, d) | None \<Rightarrow> Inl ('''', ''Invalid module option: '' @ w @ [newline]))"
      "main_switch (opt, optarg, arg) (c, d, s) = bnd (enable_module w s) (\<lambda>s. Some (Done (c, d, s)))"
      by (simp_all add: abs_switch_def main_switch_def cong: option.case_cong)
    then show ?thesis
      using enable_module_flags [OF t, of w] by (cases "find (\<lambda>f. mod_opt_of f = w) mod_files") auto
  next
    case texts
    have "\<exists>s' to_out to_err. abs_switch (opt, optarg, arg) (E, c, d) = Inl (to_out, to_err)
        \<and> main_switch (opt, optarg, arg) (c, d, s) = Some (Exit 0 s') \<and> out s' = out s @ to_out \<and> err s' = err s @ to_err"
    proof (cases "opt = CHR ''l'' \<or> opt = CHR ''L'' \<or> opt = CHR '':''")
      case True
      then show ?thesis
        by (elim disjE) (simp_all add: abs_switch_def main_switch_def quit_def prints o(3,4))
    next
      case False
      then show ?thesis
        using texts switch_usage [of opt arg] by (simp add: prints(1))
    qed
    then show ?thesis by auto
  qed
qed

lemma main_options_abs:
  assumes "tool_state E s" "arguments_given evs"
  shows "case abs_options evs (E, c, d) of
      Inl (to_out, to_err) \<Rightarrow> \<exists>s'. main_options evs (c, d, s) = Some (Exit 0 s')
        \<and> out s' = out s @ to_out \<and> err s' = err s @ to_err
    | Inr (E', c', d') \<Rightarrow> \<exists>s'. main_options evs (c, d, s) = Some (Done (c', d', s'))
        \<and> tool_state E' s' \<and> same_env s s'"
  using assms
proof (induction evs arbitrary: E s c d)
  case (Cons ev evs)
  obtain opt optarg arg where ev: "ev = (opt, optarg, arg)" by (cases ev)
  have a: "opt = CHR ''c'' \<or> opt = CHR ''d'' \<Longrightarrow> optarg \<noteq> None" "arguments_given evs"
    using Cons.prems(2) ev by (auto simp: arguments_given_def)
  have step: "case abs_switch ev (E, c, d) of
      Inl (to_out, to_err) \<Rightarrow> \<exists>s'. main_switch ev (c, d, s) = Some (Exit 0 s')
        \<and> out s' = out s @ to_out \<and> err s' = err s @ to_err
    | Inr (E', c', d') \<Rightarrow> \<exists>s'. main_switch ev (c, d, s) = Some (Done (c', d', s'))
        \<and> tool_state E' s' \<and> same_env s s'"
    unfolding ev by (rule main_switch_refines [OF Cons.prems(1) a(1)])
  show ?case
  proof (cases "abs_switch ev (E, c, d)")
    case (Inl t)
    then show ?thesis
      using step by (cases t) auto
  next
    case (Inr v)
    obtain E1 c1 d1 where v: "v = (E1, c1, d1)" by (cases v)
    obtain s1 where s1: "main_switch ev (c, d, s) = Some (Done (c1, d1, s1))" "tool_state E1 s1" "same_env s s1"
      using step Inr v by auto
    have env: "out s1 = out s" "err s1 = err s"
      using s1(3) by (simp_all add: same_env_def)
    have "abs_options (ev # evs) (E, c, d) = abs_options evs (E1, c1, d1)"
      "main_options (ev # evs) (c, d, s) = main_options evs (c1, d1, s1)"
      using Inr v s1(1) by simp_all
    then show ?thesis
      using Cons.IH [OF s1(2) a(2), of c1 d1] env same_env_trans [OF s1(3)]
      by (auto split: sum.split)
  qed
qed simp

text \<open>
  C3. The loop over the options does what the command line asks for: it ends with exactly
  the named modules enabled (all of them after \<open>-a\<close>), the last count and a positive delay,
  nothing printed; or, at the first option that asks for a text or that no module registered, the
  program exits with status 0 after printing that text, the modules it lists being those enabled so far.
\<close>

theorem main_options_refines:
  assumes "tool_state E s" "arguments_given evs"
  shows "case abs_options evs (E, c, d) of
      Inl (to_out, to_err) \<Rightarrow> \<exists>s'. main_options evs (c, d, s) = Some (Exit 0 s')
        \<and> out s' = out s @ to_out \<and> err s' = err s @ to_err
    | Inr (E', c', d') \<Rightarrow> \<exists>s'. main_options evs (c, d, s) = Some (Done (c', d', s'))
        \<and> tool_state E' s' \<and> same_env s s'"
  by (rule main_options_abs [OF assms])

text \<open>The state after the modules have registered.\<close>

lemma flags_empty: "flags {} = map registered mod_files"
proof -
  have "(registered f)\<lparr>enable := 0\<rparr> = registered f" for f
    by (simp add: registered_def zero_module_def)
  then show ?thesis by (simp add: flags_def)
qed

lemma loaded_tool_state:
  assumes "heap_ok s" "MOD_LIST_HEAD \<in> dom (links s)"
  shows "\<exists>s'. INIT_MOD_LIST_HEAD s \<bind> load_modules = Some s' \<and> tool_state {} s' \<and> same_env s s'"
proof -
  obtain s1 where s1: "INIT_MOD_LIST_HEAD s = Some s1" "heap_ok s1" "modules s1 [] []" "same_env s s1"
    using INIT_MOD_LIST_HEAD_empty [OF assms] by blast
  from register_all_adds [OF s1(2,3), of mod_files] show ?thesis
    using s1(1) same_env_trans [OF s1(4)] by (auto simp: load_modules_all tool_state_def flags_empty)
qed

theorem main_options_refines_witness:
  "\<exists>s s'. main_options [(CHR ''?'', None, Some ''--mem''), (CHR ''c'', Some ''3'', Some ''3''), (CHR ''?'', None, Some ''--cpu'')]
      (- 1, 2, s) = Some (Done (3, 2, s')) \<and> tool_state {M_cpu, M_mem} s'"
proof -
  obtain s where "tool_state {} s"
    using loaded_tool_state [OF boot_heap_ok] by (auto simp: boot_def)
  moreover have "abs_options [(CHR ''?'', None, Some ''--mem''), (CHR ''c'', Some ''3'', Some ''3''), (CHR ''?'', None, Some ''--cpu'')]
      ({}, - 1, 2) = Inr ({M_cpu, M_mem}, 3, 2)"
    by (simp add: abs_switch_def mod_files_def statics_defs atoi_def scan_d_def scan_digits_def scan_sign_def isspace_def
        isdigit_def nat_of_digits_def digit_val_def strtol_def signed_take_bit_eq_if_positive)
  ultimately show ?thesis
    using main_options_refines [of "{}" s "[(CHR ''?'', None, Some ''--mem''), (CHR ''c'', Some ''3'', Some ''3''),
        (CHR ''?'', None, Some ''--cpu'')]" "- 1" 2]
    by (auto simp: arguments_given_def)
qed


subsection \<open>check_enable_module\<close>

lemma count_fold:
  assumes "list_all2 (\<lambda>y md. objs s y = Some (O_module md)) ys ms"
  shows "fold_ctl count_body ys (s, i) = Some (Next (s, i + int (length (filter (\<lambda>md. enable md \<noteq> 0) ms))))"
  using assms
  by (induction ys ms arbitrary: i rule: list_all2_induct) (simp_all add: count_body_def obj_at_def as_module_def)

lemma check_enable_module_counts:
  assumes "modules s xs ms"
  shows "check_enable_module s =
    (if \<exists>md\<in>set ms. enable md \<noteq> 0 then Some (Done s) else Some (Exit 0 (fputs_err (''No module is enabled.'' @ [newline]) s)))"
proof -
  have "list_for_each_entry count_body (\<lambda>v. links (fst v)) MOD_LIST_HEAD (s, 0) = fold_ctl count_body xs (s, 0)"
    by (rule list_for_each_entry_fold [where keep = "\<lambda>v. fst v = s"])
       (use modules_ring [OF assms] in \<open>auto simp: count_body_def split: bind_splits\<close>)
  moreover have "list_all2 (\<lambda>y md. objs s y = Some (O_module md)) xs ms"
    using modules_at [OF assms] modules_length [OF assms] by (simp add: list_all2_conv_all_nth)
  ultimately show ?thesis
    by (auto simp: check_enable_module_def count_fold filter_empty_conv)
qed

lemma check_enable_module_flags:
  assumes "tool_state E s"
  shows "check_enable_module s =
    (if E = {} then Some (Exit 0 (fputs_err (''No module is enabled.'' @ [newline]) s)) else Some (Done s))"
proof -
  obtain xs where m: "modules s xs (flags E)"
    using assms by (auto simp: tool_state_def)
  show ?thesis
    using check_enable_module_counts [OF m] by (auto simp: flags_def)
qed

subsection \<open>The main loop\<close>

text \<open>A given number of rounds, the next one being round \<open>i + 1\<close>.\<close>

fun rounds :: "os \<Rightarrow> int \<Rightarrow> nat \<Rightarrow> int \<Rightarrow> st \<Rightarrow> (st, st) result" where
  "rounds os d 0 i s = Some (Done s)"
| "rounds os d (Suc n) i s = bnd (round_once os d (i + 1) s) (rounds os d n (i + 1))"

lemma main_loop_rounds:
  "i + int n < 2 ^ 31 \<Longrightarrow> main_loop os False d (int n) i s = rounds os d n i s"
proof (induction n arbitrary: i s)
  case 0
  then show ?case by (simp add: main_loop.simps)
next
  case (Suc n)
  have IH: "main_loop os False d (int n) (i + 1) t = rounds os d n (i + 1) t" for t
    using Suc.prems by (intro Suc.IH) simp
  have "i \<noteq> 2 ^ 31 - 1" using Suc.prems by simp
  then show ?case
    by (subst main_loop.simps) (simp add: IH bnd_def del: power_numeral split: option.split outcome.split)
qed

lemma main_loop_result: "main_loop os is_loop d c i s = Some r \<Longrightarrow> is_loop \<longrightarrow> (\<forall>t. r \<noteq> Done t)"
  by (induct rule: main_loop.raw_induct [rotated, consumes 1]) (auto split: option.splits outcome.splits if_splits)

lemma main_loop_endless: "main_loop os True d c i s \<noteq> Some (Done s')"
  using main_loop_result [of os True d c i s] by blast

text \<open>A count is an \<open>int\<close>, a delay is positive.\<close>

lemma atoi_less: "atoi w < 2 ^ 31"
  using signed_take_bit_int_less_exp [of 31] by (auto simp: atoi_def scan_d_def split: option.split)

lemma abs_options_bounds:
  assumes "abs_options evs (E, c, d) = Inr (E', c', d')" "c < 2 ^ 31" "0 < d"
  shows "c' < 2 ^ 31 \<and> 0 < d'"
  using assms
proof (induction evs arbitrary: E c d)
  case (Cons ev evs)
  obtain E1 c1 d1 where v: "abs_switch ev (E, c, d) = Inr (E1, c1, d1)" "abs_options evs (E1, c1, d1) = Inr (E', c', d')"
    using Cons.prems(1) by (auto split: sum.splits)
  have "c1 < 2 ^ 31 \<and> 0 < d1"
    using v(1) Cons.prems(2,3) atoi_less
    by (cases ev) (auto simp: abs_switch_def Let_def split: if_splits option.splits)
  then show ?case
    using Cons.IH [OF v(2)] by simp
qed simp

lemma main_follows:
  assumes "heap_ok s" "MOD_LIST_HEAD \<in> dom (links s)" "arguments_given evs"
  shows "case abs_options evs ({}, - 1, 2) of
      Inl (to_out, to_err) \<Rightarrow> \<exists>s'. main os evs s = Some (Exit 0 s') \<and> out s' = out s @ to_out \<and> err s' = err s @ to_err
    | Inr (E, c, d) \<Rightarrow>
        if E = {} then \<exists>s'. main os evs s = Some (Exit 0 s') \<and> out s' = out s
          \<and> err s' = err s @ ''No module is enabled.'' @ [newline] \<and> clock s' = clock s
        else if c \<le> 0 then \<forall>r. main os evs s \<noteq> Some (Done r)
        else \<exists>s1. tool_state E s1 \<and> same_env s s1 \<and> 0 < d \<and> main os evs s
          = bnd (rounds os d (nat c) 0 s1) (\<lambda>s. bnd (free_record_list s) (\<lambda>s.
              bnd (total (FREE_MOD_LIST_HEAD s)) (\<lambda>s. Some (Done (0, s)))))"
proof -
  obtain s0 where s0: "INIT_MOD_LIST_HEAD s \<bind> load_modules = Some s0" "tool_state {} s0" "same_env s s0"
    using loaded_tool_state [OF assms(1,2)] by blast
  then obtain t where t: "INIT_MOD_LIST_HEAD s = Some t" "load_modules t = Some s0"
    by (auto split: bind_splits)
  define rest where "rest = (\<lambda>(opt_count, opt_interval, s). bnd (check_enable_module s) (\<lambda>s.
     bnd (main_loop os (opt_count \<le> 0) opt_interval opt_count 0 s) (\<lambda>s.
     bnd (free_record_list s) (\<lambda>s. bnd (total (FREE_MOD_LIST_HEAD s)) (\<lambda>s. Some (Done (0 :: int, s)))))))"
  have run: "main os evs s = bnd (main_options evs (- 1, 2, s0)) rest"
    by (simp add: main_def t rest_def Let_def)
  have env: "out s0 = out s" "err s0 = err s" "clock s0 = clock s"
    using s0(3) by (simp_all add: same_env_def)
  show ?thesis
  proof (cases "abs_options evs ({}, - 1, 2)")
    case (Inl v)
    then show ?thesis
      using main_options_abs [OF s0(2) assms(3), of "- 1" 2] run env by (cases v) auto
  next
    case (Inr v)
    obtain E c d where v: "v = (E, c, d)" by (cases v)
    obtain s1 where s1: "main_options evs (- 1, 2, s0) = Some (Done (c, d, s1))" "tool_state E s1" "same_env s0 s1"
      using main_options_abs [OF s0(2) assms(3), of "- 1" 2] Inr v by auto
    have run1: "main os evs s = rest (c, d, s1)"
      using run s1(1) by simp
    have env1: "same_env s s1" by (rule same_env_trans [OF s0(3) s1(3)])
    have bounds: "c < 2 ^ 31" "0 < d"
      using abs_options_bounds [of evs "{}" "- 1" 2 E c d] Inr v by simp_all
    note check = check_enable_module_flags [OF s1(2)]
    consider "E = {}" | "E \<noteq> {}" "c \<le> 0" | "E \<noteq> {}" "0 < c" by linarith
    then show ?thesis
    proof cases
      case 1
      then have "main os evs s = Some (Exit 0 (fputs_err (''No module is enabled.'' @ [newline]) s1))"
        using run1 check by (simp add: rest_def)
      then show ?thesis
        using 1 Inr v env1 by (simp add: same_env_def fputs_err_def)
    next
      case 2
      then have "main os evs s \<noteq> Some (Done r)" for r
        using run1 check main_loop_endless by (auto simp: rest_def bnd_Done_iff)
      then show ?thesis
        using 2 Inr v by simp
    next
      case 3
      then have "main_loop os False d c 0 s1 = rounds os d (nat c) 0 s1"
        using main_loop_rounds [of 0 "nat c" os d s1] bounds(1) by simp
      then have "main os evs s = bnd (rounds os d (nat c) 0 s1) (\<lambda>s. bnd (free_record_list s) (\<lambda>s.
              bnd (total (FREE_MOD_LIST_HEAD s)) (\<lambda>s. Some (Done (0, s)))))"
        using run1 check 3 by (simp add: rest_def)
      then show ?thesis
        using 3 Inr v s1(2) env1 bounds(2) by (simp add: not_le) blast
    qed
  qed
qed

text \<open>
  C2. The program as a whole, from a fresh start: it stops with status 0 at an option that
  says so; without a module it reports that and collects nothing; with a positive count it runs
  exactly that many rounds with the named modules enabled and then frees the records and the
  modules, unless one of these steps ends the program; with any other count it never returns.
\<close>

theorem main_follows_options:
  assumes "heap_ok s" "MOD_LIST_HEAD \<in> dom (links s)" "arguments_given evs"
  shows "case abs_options evs ({}, - 1, 2) of
      Inl (to_out, to_err) \<Rightarrow> \<exists>s'. main os evs s = Some (Exit 0 s') \<and> out s' = out s @ to_out \<and> err s' = err s @ to_err
    | Inr (E, c, d) \<Rightarrow>
        if E = {} then \<exists>s'. main os evs s = Some (Exit 0 s') \<and> out s' = out s
          \<and> err s' = err s @ ''No module is enabled.'' @ [newline] \<and> clock s' = clock s
        else if c \<le> 0 then \<forall>r. main os evs s \<noteq> Some (Done r)
        else \<exists>s1. tool_state E s1 \<and> same_env s s1 \<and> 0 < d \<and> main os evs s
          = bnd (rounds os d (nat c) 0 s1) (\<lambda>s. bnd (free_record_list s) (\<lambda>s.
              bnd (total (FREE_MOD_LIST_HEAD s)) (\<lambda>s. Some (Done (0, s)))))"
  by (rule main_follows [OF assms])

theorem main_follows_options_witness:
  "\<exists>s'. main (quiet_os (\<lambda>_ _. None)) [(CHR ''c'', Some ''3'', Some ''3'')] boot = Some (Exit 0 s')
    \<and> err s' = ''No module is enabled.'' @ [newline]"
proof -
  have "MOD_LIST_HEAD \<in> dom (links boot)" "arguments_given [(CHR ''c'', Some ''3'', Some ''3'')]" "err boot = ''''"
    by (simp_all add: boot_def arguments_given_def)
  then show ?thesis
    using main_follows_options [OF boot_heap_ok, of "[(CHR ''c'', Some ''3'', Some ''3'')]" "quiet_os (\<lambda>_ _. None)"]
    by (auto simp: abs_switch_def)
qed

end
