(* ===== verification/Tool_Heap.thy ===== *)
theory Tool_Heap
  imports Tool_Zsr
begin

text \<open>
  The heap of the running program: the ring of modules and the fourteen lists of records, each
  in memory of its own. What the loops of \<open>tool_zsr.c\<close> over all modules do to it: at the end
  everything is freed, and printing shows the reports of the enabled modules in order.
\<close>

subsection \<open>Stores of records\<close>

text \<open>
  The interface of a module to the end of the program. \<open>store f s head C B\<close>: the list of the
  module \<open>f\<close> is intact at \<open>head\<close>, made of the cells \<open>C\<close> and the blocks \<open>B\<close>.
\<close>

locale record_stores =
  fixes store :: "'f \<Rightarrow> st \<Rightarrow> addr \<Rightarrow> addr set \<Rightarrow> addr set \<Rightarrow> bool"
    and free_all :: "'f \<Rightarrow> addr \<Rightarrow> st \<Rightarrow> st option"
  assumes store_blocks: "store f s head C B \<Longrightarrow> B \<subseteq> C"
    and store_below: "heap_ok s \<Longrightarrow> store f s head C B \<Longrightarrow> c \<in> insert head C \<Longrightarrow> c < brk s"
    and store_frame: "heap_ok s \<Longrightarrow> store f s head C B \<Longrightarrow> only F s s' \<Longrightarrow> insert head C \<inter> F = {} \<Longrightarrow> store f s' head C B"
    and frees: "heap_ok s \<Longrightarrow> store f s head C B \<Longrightarrow> NULL \<notin> B \<Longrightarrow>
      \<exists>s'. free_all f head s = Some s' \<and> B \<inter> dom (objs s') = {} \<and> heap_ok s' \<and> only C s s' \<and> same_env s s'"
begin

lemma frees_next:
  assumes ok: "heap_ok s" "heap_ok t" and st: "only G s t" "same_env s t"
    and at: "store f t head C B" "NULL \<notin> B" and C: "C \<subseteq> G"
  shows "\<exists>t'. free_all f head t = Some t' \<and> B \<inter> dom (objs t') = {} \<and> heap_ok t' \<and> only C t t'
    \<and> only G s t' \<and> same_env s t'
    \<and> (\<forall>f' h' C' B'. store f' t h' C' B' \<longrightarrow> insert h' C' \<inter> C = {} \<longrightarrow> store f' t' h' C' B')
    \<and> (\<forall>c < brk s. c \<notin> C \<longrightarrow> objs t c = None \<longrightarrow> objs t' c = None)"
proof -
  obtain t' where t': "free_all f head t = Some t'" "B \<inter> dom (objs t') = {}" "heap_ok t'" "only C t t'" "same_env t t'"
    using frees [OF ok(2) at] by blast
  have "only G s t'"
    using only_trans [OF st(1) t'(4)] C by blast
  moreover have "objs t' c = None" if "c < brk s" "c \<notin> C" "objs t c = None" for c
    using that t'(4) st(1) by (simp add: only_def)
  ultimately show ?thesis
    using t' same_env_trans [OF st(2) t'(5)] store_frame [OF ok(2) _ t'(4)] by blast
qed

end

text \<open>A flat list has one block per cell; a list of lists has blocks with a second cell, their list's head.\<close>

definition flat_at :: "('r \<Rightarrow> obj) \<Rightarrow> st \<Rightarrow> addr \<Rightarrow> addr set \<Rightarrow> addr set \<Rightarrow> bool" where
  "flat_at K s head C B \<longleftrightarrow> (\<exists>xs rs. holds K s head xs rs \<and> C = set xs \<and> B = set xs)"

definition nested_at :: "('r \<Rightarrow> obj) \<Rightarrow> st \<Rightarrow> addr \<Rightarrow> addr set \<Rightarrow> addr set \<Rightarrow> bool" where
  "nested_at K s head C B \<longleftrightarrow> (\<exists>ls. nested K s head ls \<and> C = set (cells_of ls) \<and> B = blocks_of ls)"

fun list_at :: "mod_file \<Rightarrow> st \<Rightarrow> addr \<Rightarrow> addr set \<Rightarrow> addr set \<Rightarrow> bool" where
  "list_at M_cpu = flat_at O_cpu"
| "list_at M_dns = flat_at O_dns"
| "list_at M_fs = flat_at O_fs"
| "list_at M_gateway = flat_at O_gateway"
| "list_at M_io = nested_at O_io"
| "list_at M_ip = flat_at O_interface"
| "list_at M_load_avg = flat_at O_load"
| "list_at M_mem = flat_at O_mem"
| "list_at M_network = flat_at O_link"
| "list_at M_proc = nested_at O_proc"
| "list_at M_swap = flat_at O_swap"
| "list_at M_time = flat_at O_time"
| "list_at M_uptime = flat_at O_uptime"
| "list_at M_who = flat_at O_login"



text \<open>The laws of the interface for both shapes.\<close>

lemma flat_at_blocks: "flat_at K s head C B \<Longrightarrow> B \<subseteq> C"
  by (auto simp: flat_at_def)

lemma flat_at_below: "heap_ok s \<Longrightarrow> flat_at K s head C B \<Longrightarrow> c \<in> insert head C \<Longrightarrow> c < brk s"
  by (auto simp: flat_at_def intro: holds_below)

lemma flat_at_frame:
  "heap_ok s \<Longrightarrow> flat_at K s head C B \<Longrightarrow> only F s s' \<Longrightarrow> insert head C \<inter> F = {} \<Longrightarrow> flat_at K s' head C B"
  unfolding flat_at_def by (metis holds_frame)

lemma nested_at_blocks: "nested_at K s head C B \<Longrightarrow> B \<subseteq> C"
  using blocks_in_cells by (auto simp: nested_at_def)

lemma nested_at_below: "heap_ok s \<Longrightarrow> nested_at K s head C B \<Longrightarrow> c \<in> insert head C \<Longrightarrow> c < brk s"
  by (auto simp: nested_at_def intro: nested_below)

lemma nested_at_frame:
  "heap_ok s \<Longrightarrow> nested_at K s head C B \<Longrightarrow> only F s s' \<Longrightarrow> insert head C \<inter> F = {} \<Longrightarrow> nested_at K s' head C B"
  unfolding nested_at_def by (metis nested_frame)

context record_kind begin

lemma flat_frees:
  "heap_ok s \<Longrightarrow> flat_at K s head C B \<Longrightarrow> NULL \<notin> B \<Longrightarrow>
    \<exists>s'. FREE_LIST_HEAD head s = Some s' \<and> B \<inter> dom (objs s') = {} \<and> heap_ok s' \<and> only C s s' \<and> same_env s s'"
  using FREE_LIST_HEAD_frees unfolding flat_at_def by blast

lemma nested_frees:
  "heap_ok s \<Longrightarrow> nested_at K s head C B \<Longrightarrow> NULL \<notin> B \<Longrightarrow>
    \<exists>s'. free_lists head s = Some s' \<and> B \<inter> dom (objs s') = {} \<and> heap_ok s' \<and> only C s s' \<and> same_env s s'"
  using free_lists_frees unfolding nested_at_def by blast

end

lemmas free_record_list_defs = cpu_free_record_list_def dns_free_record_list_def fs_free_record_list_def
  gateway_free_record_list_def io_free_record_list_def ip_free_record_list_def load_avg_free_record_list_def
  mem_free_record_list_def network_free_record_list_def proc_free_record_list_def swap_free_record_list_def
  time_free_record_list_def uptime_free_record_list_def who_free_record_list_def

interpretation stores: record_stores list_at mod_free_record_list
proof
  show "B \<subseteq> C" if "list_at f s head C B" for f s head C B
    using that by (cases f) (simp_all add: flat_at_blocks nested_at_blocks)
  show "c < brk s" if "heap_ok s" "list_at f s head C B" "c \<in> insert head C" for f s head C B c
    using that by (cases f) (simp_all only: list_at.simps flat_at_below nested_at_below)
  show "list_at f s' head C B"
    if "heap_ok s" "list_at f s head C B" "only F s s'" "insert head C \<inter> F = {}" for f s head C B F s'
    using that by (cases f) (simp_all only: list_at.simps flat_at_frame nested_at_frame)
  show "\<exists>s'. mod_free_record_list f head s = Some s' \<and> B \<inter> dom (objs s') = {} \<and> heap_ok s' \<and> only C s s' \<and> same_env s s'"
    if "heap_ok s" "list_at f s head C B" "NULL \<notin> B" for f s head C B
    using that
    by (cases f) (simp_all only: list_at.simps mod_free_record_list.simps free_record_list_defs, (rule
        k_cpu.flat_frees k_dns.flat_frees k_fs.flat_frees k_gateway.flat_frees k_io.nested_frees
        k_interface.flat_frees k_load.flat_frees k_mem.flat_frees k_link.flat_frees k_proc.nested_frees
        k_swap.flat_frees k_time.flat_frees k_uptime.flat_frees k_login.flat_frees; assumption)+)
qed

subsection \<open>The heap of the program\<close>

text \<open>
  Every module's list is intact and has its own memory, away from the modules and the heads.
  \<open>cs\<close> gives the cells and the blocks of the lists in the order of the modules.
\<close>

definition program_heap :: "st \<Rightarrow> addr list \<Rightarrow> module_t list \<Rightarrow> (addr set \<times> addr set) list \<Rightarrow> bool" where
  "program_heap s xs ms cs \<longleftrightarrow> heap_ok s \<and> module_ring s xs ms \<and> length cs = length xs
     \<and> (\<forall>i<length xs. list_at (fn_free_record_list (ms ! i)) s (record_list (xs ! i)) (fst (cs ! i)) (snd (cs ! i))
          \<and> NULL \<notin> snd (cs ! i)
          \<and> fst (cs ! i) \<inter> insert MOD_LIST_HEAD (set xs \<union> record_list ` set xs) = {}
          \<and> (\<forall>j<length xs. j \<noteq> i \<longrightarrow> fst (cs ! i) \<inter> fst (cs ! j) = {}))"

definition cells_all :: "(addr set \<times> addr set) list \<Rightarrow> addr set" where
  "cells_all cs = (\<Union>c\<in>set cs. fst c)"

lemma cells_all_nth: "i < length cs \<Longrightarrow> fst (cs ! i) \<subseteq> cells_all cs"
  unfolding cells_all_def using nth_mem by blast

lemma program_heapD:
  assumes "program_heap s xs ms cs"
  shows "heap_ok s" "module_ring s xs ms" "length cs = length xs"
    and "i < length xs \<Longrightarrow> list_at (fn_free_record_list (ms ! i)) s (record_list (xs ! i)) (fst (cs ! i)) (snd (cs ! i))"
    and "i < length xs \<Longrightarrow> NULL \<notin> snd (cs ! i)"
    and "i < length xs \<Longrightarrow> fst (cs ! i) \<inter> insert MOD_LIST_HEAD (set xs \<union> record_list ` set xs) = {}"
    and "i < length xs \<Longrightarrow> j < length xs \<Longrightarrow> j \<noteq> i \<Longrightarrow> fst (cs ! i) \<inter> fst (cs ! j) = {}"
  using assms by (simp_all add: program_heap_def)

lemma program_heap_apart:
  assumes "program_heap s xs ms cs"
  shows "cells_all cs \<inter> insert MOD_LIST_HEAD (set xs \<union> record_list ` set xs) = {}"
proof -
  have "fst c \<inter> insert MOD_LIST_HEAD (set xs \<union> record_list ` set xs) = {}" if c: "c \<in> set cs" for c
  proof -
    obtain i where "i < length xs" "cs ! i = c"
      using c program_heapD(3) [OF assms] by (metis in_set_conv_nth)
    then show ?thesis
      using program_heapD(6) [OF assms, of i] by simp
  qed
  then show ?thesis
    unfolding cells_all_def by blast
qed

lemma module_ring_at:
  assumes "module_ring s xs ms" "i < length xs"
  shows "obj_at as_module (xs ! i) s = Some (ms ! i)"
proof -
  have h: "holds O_module s MOD_LIST_HEAD xs ms"
    using assms(1) by (simp add: module_ring_def)
  have "map (objs s) xs ! i = map (\<lambda>r. Some (O_module r)) ms ! i"
    using h by (simp add: holds_def)
  then show ?thesis
    using assms(2) holds_length [OF h] by (simp add: obj_at_def as_module_def)
qed

lemma module_ring_frame:
  "heap_ok s \<Longrightarrow> module_ring s xs ms \<Longrightarrow> only F s s' \<Longrightarrow> F \<inter> insert MOD_LIST_HEAD (set xs) = {} \<Longrightarrow> module_ring s' xs ms"
  using holds_frame [of s O_module MOD_LIST_HEAD xs ms F s'] by (simp add: module_ring_def Int_commute)

text \<open>The loop of \<open>free_record_list\<close> in progress: the lists of the first \<open>k\<close> modules are freed.\<close>

definition freeing :: "st \<Rightarrow> addr list \<Rightarrow> module_t list \<Rightarrow> (addr set \<times> addr set) list \<Rightarrow> nat \<Rightarrow> st \<Rightarrow> bool" where
  "freeing s xs ms cs k t \<longleftrightarrow> heap_ok t \<and> only (cells_all cs) s t \<and> same_env s t
     \<and> (\<forall>i<k. snd (cs ! i) \<inter> dom (objs t) = {})
     \<and> (\<forall>i<length xs. k \<le> i \<longrightarrow>
          list_at (fn_free_record_list (ms ! i)) t (record_list (xs ! i)) (fst (cs ! i)) (snd (cs ! i)))"

lemma freeing_ring:
  assumes "program_heap s xs ms cs" "freeing s xs ms cs k t"
  shows "module_ring t xs ms"
  using module_ring_frame [of s xs ms "cells_all cs" t] program_heap_apart [OF assms(1)] assms
  by (auto simp: program_heap_def freeing_def)

lemma freeing_step:
  assumes p: "program_heap s xs ms cs" and k: "k < length xs" and fr: "freeing s xs ms cs k t"
  shows "\<exists>t'. free_record_body (xs ! k) t = Some (Next t') \<and> freeing s xs ms cs (Suc k) t'"
proof -
  let ?at = "\<lambda>t i. list_at (fn_free_record_list (ms ! i)) t (record_list (xs ! i)) (fst (cs ! i)) (snd (cs ! i))"
  note len = program_heapD(3,1) [OF p] and null = program_heapD(5) [OF p k] and at0 = program_heapD(4) [OF p]
  have t: "heap_ok t" "only (cells_all cs) s t" "same_env s t" "?at t k"
    using fr k by (simp_all add: freeing_def)
  obtain t' where t': "mod_free_record_list (fn_free_record_list (ms ! k)) (record_list (xs ! k)) t = Some t'"
    "snd (cs ! k) \<inter> dom (objs t') = {}" "heap_ok t'" "only (cells_all cs) s t'" "same_env s t'"
    and keep: "\<And>f' h' C' B'. list_at f' t h' C' B' \<Longrightarrow> insert h' C' \<inter> fst (cs ! k) = {} \<Longrightarrow> list_at f' t' h' C' B'"
    and gone: "\<And>c. c < brk s \<Longrightarrow> c \<notin> fst (cs ! k) \<Longrightarrow> objs t c = None \<Longrightarrow> objs t' c = None"
    using stores.frees_next [OF len(2) t null cells_all_nth] len(1) k by auto
  have apart: "insert (record_list (xs ! i)) (fst (cs ! i)) \<inter> fst (cs ! k) = {}" if "i < length xs" "i \<noteq> k" for i
    using program_heapD(6) [OF p k] program_heapD(7) [OF p k that] nth_mem [OF that(1)] by blast
  have "?at t' i" if "i < length xs" "Suc k \<le> i" for i
    using keep [OF _ apart [of i]] fr that by (simp add: freeing_def)
  moreover have "snd (cs ! i) \<inter> dom (objs t') = {}" if "i < Suc k" for i
  proof (cases "i = k")
    case False
    then have i: "i < length xs" "i < k" using that k by simp_all
    have "objs t' c = None" if "c \<in> snd (cs ! i)" for c
    proof (rule gone)
      have c: "c \<in> fst (cs ! i)"
        using stores.store_blocks [OF at0 [OF i(1)]] that by blast
      then show "c < brk s" "c \<notin> fst (cs ! k)"
        using stores.store_below [OF len(2) at0 [OF i(1)]] apart [OF i(1) False] by auto
      show "objs t c = None"
        using fr i(2) that by (auto simp: freeing_def)
    qed
    then show ?thesis by auto
  qed (use t'(2) in simp)
  ultimately have "freeing s xs ms cs (Suc k) t'"
    using t'(3-5) by (simp add: freeing_def)
  moreover have "free_record_body (xs ! k) t = Some (Next t')"
    using module_ring_at [OF freeing_ring [OF p fr] k] t'(1) by (simp add: free_record_body_def)
  ultimately show ?thesis by blast
qed

text \<open>A loop over the modules keeps an invariant that counts the modules it has done.\<close>

lemma each_module_steps:
  assumes k0: "reached 0 s" and ring: "\<And>k t. reached k t \<Longrightarrow> ring (links t) MOD_LIST_HEAD xs"
    and step: "\<And>k t. k < length xs \<Longrightarrow> reached k t \<Longrightarrow> \<exists>t'. body (xs ! k) t = Some (Next t') \<and> reached (Suc k) t'"
  shows "\<exists>t. each_module body s = Some (Done t) \<and> reached (length xs) t"
proof -
  let ?keep = "\<lambda>ys t. \<exists>k \<le> length xs. ys = drop k xs \<and> reached k t"
  have k0': "?keep xs s"
    using k0 by (intro exI [of _ 0]) simp
  have ring': "ring (links t) MOD_LIST_HEAD xs" if "?keep ys t" for ys t
    using that ring by blast
  have step': "\<exists>t'. body y t = Some (Next t') \<and> ?keep ys t'" if k: "?keep (y # ys) t" for y ys t
  proof -
    from k obtain k where k: "k \<le> length xs" "y # ys = drop k xs" "reached k t"
      by blast
    then have "k < length xs" "y = xs ! k" "ys = drop (Suc k) xs"
      by (metis drop_all linorder_le_less_linear list.distinct(1), metis nth_via_drop, metis drop_Suc drop_tl list.sel(3))
    then show ?thesis
      using step [OF _ k(3)] by (metis Suc_leI)
  qed
  have "\<exists>t. list_for_each_entry body links MOD_LIST_HEAD s = Some (Next t) \<and> ?keep [] t"
    by (rule list_for_each_entry_steps [of ?keep, OF k0' ring' step'])
  then obtain t k where t: "list_for_each_entry body links MOD_LIST_HEAD s = Some (Next t)"
    and k: "k \<le> length xs" "[] = drop k xs" "reached k t"
    by (elim exE conjE) (rule that)
  have "k = length xs"
    using k(1,2) by simp
  then show ?thesis
    using t k(3) by (auto simp: each_module_def)
qed

lemma free_record_list_frees:
  assumes p: "program_heap s xs ms cs"
  shows "\<exists>t. free_record_list s = Some (Done t) \<and> freeing s xs ms cs (length xs) t"
  unfolding free_record_list_def
proof (rule each_module_steps [of "freeing s xs ms cs"])
  show "freeing s xs ms cs 0 s"
    using program_heapD [OF p] by (simp add: freeing_def)
  show "ring (links t) MOD_LIST_HEAD xs" if "freeing s xs ms cs k t" for k t
    using freeing_ring [OF p that] by (simp add: module_ring_def holds_def)
qed (rule freeing_step [OF p])

lemma heap_given_back:
  assumes "program_heap s xs ms cs"
  shows "\<exists>s'. bnd (free_record_list s) (\<lambda>s. total (FREE_MOD_LIST_HEAD s)) = Some (Done s')
    \<and> (\<forall>(C, B)\<in>set cs. B \<inter> dom (objs s') = {}) \<and> set xs \<inter> dom (objs s') = {} \<and> ring (links s') MOD_LIST_HEAD []
    \<and> (\<forall>a<brk s. a \<notin> cells_all cs \<union> set xs \<longrightarrow> objs s' a = objs s a) \<and> same_env s s'"
proof -
  obtain t where t: "free_record_list s = Some (Done t)" "freeing s xs ms cs (length xs) t"
    using free_record_list_frees [OF assms] by blast
  obtain s' where s': "FREE_MOD_LIST_HEAD t = Some s'" "ring (links s') MOD_LIST_HEAD []"
    "objs s' = objs t |` (- set xs)" "same_env t s'"
    using FREE_MOD_LIST_HEAD_frees [OF _ freeing_ring [OF assms t(2)]] t(2) by (auto simp: freeing_def)
  have "length cs = length xs" "only (cells_all cs) s t" "same_env s t"
    using assms t(2) by (simp_all add: program_heap_def freeing_def)
  moreover have "B \<inter> dom (objs s') = {}" if c: "(C, B) \<in> set cs" for C B
  proof -
    obtain i where "i < length cs" "cs ! i = (C, B)"
      using c unfolding in_set_conv_nth by blast
    then have i: "i < length xs" "snd (cs ! i) = B"
      using \<open>length cs = length xs\<close> by simp_all
    then have "B \<inter> dom (objs t) = {}"
      using t(2) by (auto simp: freeing_def)
    then show ?thesis
      by (auto simp: s'(3) restrict_map_def split: if_splits)
  qed
  ultimately show ?thesis
    using t(1) s' same_env_trans [of s t s']
    by (intro exI [of _ s']) (auto simp: only_def restrict_map_def split: if_splits)
qed

text \<open>
  C4. The end of the program gives everything back: with the modules' lists intact
  and apart, \<open>free_record_list\<close> and \<open>FREE_MOD_LIST_HEAD\<close> run to their end without touching freed
  memory, every record of every module and every module is freed, the ring of modules is
  empty, and every other object is still there.
\<close>

theorem program_frees_everything:
  assumes "program_heap s xs ms cs"
  shows "\<exists>s'. bnd (free_record_list s) (\<lambda>s. total (FREE_MOD_LIST_HEAD s)) = Some (Done s')
    \<and> (\<forall>(C, B)\<in>set cs. B \<inter> dom (objs s') = {}) \<and> set xs \<inter> dom (objs s') = {} \<and> ring (links s') MOD_LIST_HEAD []
    \<and> (\<forall>a<brk s. a \<notin> cells_all cs \<union> set xs \<longrightarrow> objs s' a = objs s a) \<and> same_env s s'"
  by (rule heap_given_back [OF assms])

text \<open>The heap of a program whose one module has one record, to run examples on.\<close>

definition one_module :: st where
  "one_module = boot\<lparr>
     links := [MOD_LIST_HEAD \<mapsto> \<lparr>lh_next = 4096, lh_prev = 4096\<rparr>, 4096 \<mapsto> \<lparr>lh_next = MOD_LIST_HEAD, lh_prev = MOD_LIST_HEAD\<rparr>,
       record_list 4096 \<mapsto> \<lparr>lh_next = 2000000, lh_prev = 2000000\<rparr>,
       2000000 \<mapsto> \<lparr>lh_next = record_list 4096, lh_prev = record_list 4096\<rparr>],
     objs := [4096 \<mapsto> O_module ((registered M_mem)\<lparr>enable := 1\<rparr>), 2000000 \<mapsto> O_mem zero_mem], brk := 3000000\<rparr>"

lemma one_module_heap:
  "program_heap one_module [4096] [(registered M_mem)\<lparr>enable := 1\<rparr>] [({2000000}, {2000000})]"
proof -
  have "holds O_mem one_module (record_list 4096) [2000000] [zero_mem]"
    by (simp add: one_module_def holds_def ring_def link_def rd_next_def rd_prev_def record_list_def
        record_list_offset_def MOD_LIST_HEAD_def)
  then have "flat_at O_mem one_module (record_list 4096) {2000000} {2000000}"
    unfolding flat_at_def by (intro exI [of _ "[2000000]"] exI [of _ "[zero_mem]"]) simp
  moreover have "module_ring one_module [4096] [(registered M_mem)\<lparr>enable := 1\<rparr>]"
    by (simp add: one_module_def module_ring_def holds_def ring_def link_def rd_next_def rd_prev_def record_list_def
        record_list_offset_def MOD_LIST_HEAD_def)
  moreover have "heap_ok one_module"
    by (simp add: one_module_def boot_def heap_ok_def record_list_def record_list_offset_def MOD_LIST_HEAD_def)
  ultimately show ?thesis
    by (simp add: program_heap_def record_list_def record_list_offset_def MOD_LIST_HEAD_def NULL_def)
qed

theorem program_frees_everything_witness:
  "\<exists>s'. bnd (free_record_list one_module) (\<lambda>s. total (FREE_MOD_LIST_HEAD s)) = Some (Done s')
    \<and> {4096, 2000000} \<inter> dom (objs s') = {} \<and> ring (links s') MOD_LIST_HEAD []"
  using program_frees_everything [OF one_module_heap] by auto

subsection \<open>Printing the reports\<close>

text \<open>
  What the report of a module is, from its records alone: the lines of the entries one after the
  other, if there is a line for every one of them and together they fit the array; without an entry the
  text from before stays.
\<close>

definition lines_text :: "('r \<Rightarrow> string option) \<Rightarrow> 'r list \<Rightarrow> string \<Rightarrow> string option" where
  "lines_text line rs old =
     (if rs = [] then Some old
      else case those (map line rs) of
          None \<Rightarrow> None
        | Some ws \<Rightarrow> if length (concat ws) < LEN_1M then Some (concat ws) else None)"

text \<open>
  A query reports all its records, a module with one record or a history the last one, a module
  with a history of lists the entries of the last list.
\<close>

definition reports_all :: "('r \<Rightarrow> obj) \<Rightarrow> ('r \<Rightarrow> string option) \<Rightarrow> st \<Rightarrow> addr \<Rightarrow> string \<Rightarrow> string \<Rightarrow> bool" where
  "reports_all K line s head old w \<longleftrightarrow> (\<exists>ys rs. holds K s head ys rs \<and> lines_text line rs old = Some w)"

definition reports_last :: "('r \<Rightarrow> obj) \<Rightarrow> ('r \<Rightarrow> string option) \<Rightarrow> st \<Rightarrow> addr \<Rightarrow> string \<Rightarrow> string \<Rightarrow> bool" where
  "reports_last K line s head old w \<longleftrightarrow>
     (\<exists>ys rs. holds K s head ys rs \<and> lines_text line (if rs = [] then [] else [last rs]) old = Some w)"

definition reports_last_list :: "('r \<Rightarrow> obj) \<Rightarrow> ('r \<Rightarrow> string option) \<Rightarrow> st \<Rightarrow> addr \<Rightarrow> string \<Rightarrow> string \<Rightarrow> bool" where
  "reports_last_list K line s head old w \<longleftrightarrow>
     (\<exists>ls. nested K s head ls \<and> lines_text line (if ls = [] then [] else snd (snd (last ls))) old = Some w)"

fun module_report :: "mod_file \<Rightarrow> st \<Rightarrow> addr \<Rightarrow> string \<Rightarrow> string \<Rightarrow> bool" where
  "module_report M_cpu = reports_last O_cpu cpu_report_line"
| "module_report M_dns = reports_all O_dns dns_line"
| "module_report M_fs = reports_all O_fs fs_line"
| "module_report M_gateway = reports_last O_gateway gateway_line"
| "module_report M_io = reports_last_list O_io io_report_line"
| "module_report M_ip = reports_all O_interface ip_line"
| "module_report M_load_avg = reports_last O_load load_avg_line"
| "module_report M_mem = reports_last O_mem mem_line"
| "module_report M_network = reports_all O_link network_line"
| "module_report M_proc = reports_last_list O_proc proc_report_line"
| "module_report M_swap = reports_last O_swap swap_line"
| "module_report M_time = reports_last O_time time_line"
| "module_report M_uptime = reports_last O_uptime uptime_line"
| "module_report M_who = reports_all O_login who_line"

lemma those_Some: "those xs = Some ys \<longleftrightarrow> xs = map Some ys"
  by (induction xs arbitrary: ys) (auto split: option.split)

lemma lines_text_Some:
  "lines_text line rs old = Some w \<Longrightarrow> rs \<noteq> [] \<Longrightarrow>
    \<exists>ws. map line rs = map Some ws \<and> length (concat ws) < LEN_1M \<and> w = concat ws"
  by (auto simp: lines_text_def those_Some split: option.splits if_splits)

text \<open>
  What \<open>record_to_str\<close> of a module has to do for the loop: store \<open>w\<close> in its module, change nothing
  else, whatever the other modules hold in the meantime. The fourteen functions do.
\<close>

definition reports :: "addr list \<Rightarrow> st \<Rightarrow> mod_file \<Rightarrow> addr \<Rightarrow> string \<Rightarrow> bool" where
  "reports xs s f m w \<longleftrightarrow> (\<forall>s' md. links s' = links s \<longrightarrow> (\<forall>a. a \<notin> set xs \<longrightarrow> objs s' a = objs s a)
     \<longrightarrow> objs s' m = objs s m \<longrightarrow> objs s m = Some (O_module md)
     \<longrightarrow> (\<exists>n. mod_record_to_str f m s' = Some (n, with_record m md w s')))"

lemma report_stale:
  assumes "mod_record_to_str f m = to_str rep m" "ring (links s) (record_list m) []" "objs s m = Some (O_module md)"
  shows "reports xs s f m (mod_record md)"
proof -
  have "with_record m md (mod_record md) s' = s'" if "objs s' m = objs s m" for s'
    using that assms(3) by (simp add: with_record_def map_upd_triv)
  moreover have "to_str rep m s' = Some (- 1, s')" if "links s' = links s" "objs s' m = objs s m" for s'
    using assms(2,3) that by (intro to_str_empty [where md = md]) simp_all
  ultimately show ?thesis
    using assms(1,3) by (auto simp: reports_def)
qed

lemma module_not_record:
  assumes "module_ring s xs ms" "objs s y = Some ob" "\<And>md. ob \<noteq> O_module md"
  shows "y \<notin> set xs"
  using holds_obj [of O_module s MOD_LIST_HEAD xs ms y] assms by (auto simp: module_ring_def)

lemma lists_at_in: "lists_at K s ls \<Longrightarrow> (a, xs, rs) \<in> set ls \<Longrightarrow> objs s a = Some O_list_list \<and> holds K s (inner_head a) xs rs"
  by (auto simp: lists_at_def)

context record_kind begin

lemma holds_reports:
  assumes "module_ring s xs ms" "holds K s head ys rs" "links s' = links s" "\<And>a. a \<notin> set xs \<Longrightarrow> objs s' a = objs s a"
  shows "holds K s' head ys rs"
proof -
  have "y \<notin> set xs" if y: "y \<in> set ys" for y
  proof -
    obtain r where "objs s y = Some (K r)"
      using holds_obj [OF assms(2) y] by blast
    then show ?thesis
      using module_not_record [OF assms(1)] K_not_module by blast
  qed
  then have "map (objs s') ys = map (objs s) ys"
    using assms(4) by simp
  then show ?thesis
    using assms(2,3) by (simp only: holds_def)
qed

lemma all_reports:
  assumes "module_ring s xs ms" "mod_record_to_str f = to_str_all put un line" "formats put" "objs s m = Some (O_module md)"
    and rep: "reports_all K line s (record_list m) (mod_record md) w"
  shows "reports xs s f m w"
proof -
  obtain ys rs where h: "holds K s (record_list m) ys rs" and w: "lines_text line rs (mod_record md) = Some w"
    using rep by (auto simp: reports_all_def)
  show ?thesis
  proof (cases "rs = []")
    case True
    then have e: "ring (links s) (record_list m) []" "w = mod_record md"
      using holds_ring [OF h] holds_Nil_iff [OF h] w by (simp_all add: lines_text_def)
    show ?thesis
      unfolding e(2) by (rule report_stale [OF fun_cong [OF assms(2), of m, unfolded to_str_all_def] e(1) assms(4)])
  next
    case False
    then obtain ws where ws: "map line rs = map Some ws" "length (concat ws) < LEN_1M" "w = concat ws"
      using lines_text_Some [OF w] by blast
    show ?thesis
      unfolding reports_def assms(2) ws(3)
      by (intro allI impI exI, rule to_str_all_holds [OF assms(3) holds_reports [OF assms(1) h] _ False ws(1,2)]) auto
  qed
qed

lemma last_reports:
  assumes "module_ring s xs ms" "mod_record_to_str f = to_str_last put un line" "formats put" "objs s m = Some (O_module md)"
    and rep: "reports_last K line s (record_list m) (mod_record md) w"
  shows "reports xs s f m w"
proof -
  obtain ys rs where h: "holds K s (record_list m) ys rs"
    and w: "lines_text line (if rs = [] then [] else [last rs]) (mod_record md) = Some w"
    using rep by (auto simp: reports_last_def)
  show ?thesis
  proof (cases "rs = []")
    case True
    then have e: "ring (links s) (record_list m) []" "w = mod_record md"
      using holds_ring [OF h] holds_Nil_iff [OF h] w by (simp_all add: lines_text_def)
    show ?thesis
      unfolding e(2) by (rule report_stale [OF fun_cong [OF assms(2), of m, unfolded to_str_last_def] e(1) assms(4)])
  next
    case False
    then have line: "line (last rs) = Some w" "length w < LEN_1M"
      using lines_text_Some [OF w] by (auto simp: map_eq_Cons_conv)
    show ?thesis
      unfolding reports_def assms(2)
      by (intro allI impI exI, rule to_str_last_holds [where line = line, OF assms(3) holds_reports [OF assms(1) h] _ False line]) auto
  qed
qed

lemma report_entries_lines:
  assumes "formats put" "holds K s head ys rs" "lines_text line rs b = Some w"
  shows "\<exists>n. report_entries put un line head b s = Some (w, n)"
proof (cases "rs = []")
  case True
  then have "ring (links s) head []" "w = b"
    using holds_ring [OF assms(2)] holds_Nil_iff [OF assms(2)] assms(3) by (simp_all add: lines_text_def)
  then have "list_for_each_entry (report_body put un line) (\<lambda>v. links (fst v)) head (s, b, 0)
      = fold_ctl (report_body put un line) [] (s, b, 0)"
    by (intro list_for_each_entry_fold [where keep = "\<lambda>v. fst v = s"]) (auto simp: report_body_def split: bind_splits)
  then show ?thesis
    using \<open>w = b\<close> by (simp add: report_entries_def)
next
  case False
  then obtain ws where ws: "map line rs = map Some ws" "length (concat ws) < LEN_1M" "w = concat ws"
    using lines_text_Some [OF assms(3)] by blast
  then show ?thesis
    using report_entries_holds [OF assms(1,2) False ws(1,2)] by simp
qed

lemma last_list_reports:
  assumes "module_ring s xs ms" "mod_record_to_str f = to_str_last_list put un line" "formats put" "objs s m = Some (O_module md)"
    and rep: "reports_last_list K line s (record_list m) (mod_record md) w"
  shows "reports xs s f m w"
proof -
  obtain ls where n: "nested K s (record_list m) ls"
    and w: "lines_text line (if ls = [] then [] else snd (snd (last ls))) (mod_record md) = Some w"
    using rep by (auto simp: reports_last_list_def)
  have ring: "ring (links s) (record_list m) (map fst ls)"
    using n by (simp add: nested_def)
  show ?thesis
  proof (cases "ls = []")
    case True
    then have e: "ring (links s) (record_list m) []" "w = mod_record md"
      using ring w by (simp_all add: lines_text_def)
    show ?thesis
      unfolding e(2) by (rule report_stale [OF fun_cong [OF assms(2), of m, unfolded to_str_last_list_def] e(1) assms(4)])
  next
    case False
    obtain a ys rs where l: "last ls = (a, ys, rs)"
      by (cases "last ls")
    then have h: "holds K s (inner_head a) ys rs"
      using n False lists_at_in last_in_set unfolding nested_def by metis
    have w: "lines_text line rs (mod_record md) = Some w"
      using w False l by simp
    show ?thesis
      unfolding reports_def
    proof (intro allI impI)
      fix s' :: st and md'
      assume s': "links s' = links s" "\<forall>a. a \<notin> set xs \<longrightarrow> objs s' a = objs s a" "objs s' m = objs s m"
        "objs s m = Some (O_module md')"
      then have md: "md' = md" "objs s' m = Some (O_module md)"
        using assms(4) by simp_all
      obtain k where k: "report_entries put un line (inner_head a) (mod_record md) s' = Some (w, k)"
        using report_entries_lines [OF assms(3) holds_reports [OF assms(1) h s'(1)] w] s'(2) by blast
      have ring': "ring (links s') (record_list m) (map fst ls)"
        using ring s'(1) by simp
      have "rd_prev (record_list m) (links s') = Some a"
        using ring_prev [OF ring'] False l by (simp add: last_map)
      then have "to_str_last_list put un line m s' = Some (of_nat k, with_record m md w s')"
        unfolding to_str_last_list_def using k False by (intro to_str_report [OF md(2) ring']) simp_all
      then show "\<exists>k. mod_record_to_str f m s' = Some (k, with_record m md' w s')"
        using md(1) assms(2) by auto
    qed
  qed
qed

end

text \<open>All fourteen functions keep the contract that the loop needs, for the report of their records.\<close>

lemma module_reports:
  assumes ring: "module_ring s xs ms" and md: "objs s m = Some (O_module md)"
    and rep: "module_report f s (record_list m) (mod_record md) w"
  shows "reports xs s f m w"
proof (cases f)
  case M_cpu
  then show ?thesis
    using k_cpu.last_reports [OF ring _ formats_put(2) md, of M_cpu cpu_report_line] rep by (simp add: cpu_record_to_str_def)
next
  case M_dns
  then show ?thesis
    using k_dns.all_reports [OF ring _ formats_put(1) md, of M_dns dns_line] rep by (simp add: dns_record_to_str_def)
next
  case M_fs
  then show ?thesis
    using k_fs.all_reports [OF ring _ formats_put(2) md, of M_fs fs_line] rep by (simp add: fs_record_to_str_def)
next
  case M_gateway
  then show ?thesis
    using k_gateway.last_reports [OF ring _ formats_put(1) md, of M_gateway gateway_line] rep by (simp add: gateway_record_to_str_def)
next
  case M_io
  then show ?thesis
    using k_io.last_list_reports [OF ring _ formats_put(2) md, of M_io io_report_line] rep by (simp add: io_record_to_str_def)
next
  case M_ip
  then show ?thesis
    using k_interface.all_reports [OF ring _ formats_put(1) md, of M_ip ip_line] rep by (simp add: ip_record_to_str_def)
next
  case M_load_avg
  then show ?thesis
    using k_load.last_reports [OF ring _ formats_put(2) md, of M_load_avg load_avg_line] rep by (simp add: load_avg_record_to_str_def)
next
  case M_mem
  then show ?thesis
    using k_mem.last_reports [OF ring _ formats_put(2) md, of M_mem mem_line] rep by (simp add: mem_record_to_str_def)
next
  case M_network
  then show ?thesis
    using k_link.all_reports [OF ring _ formats_put(2) md, of M_network network_line] rep by (simp add: network_record_to_str_def)
next
  case M_proc
  then show ?thesis
    using k_proc.last_list_reports [OF ring _ formats_put(1) md, of M_proc proc_report_line] rep by (simp add: proc_record_to_str_def)
next
  case M_swap
  then show ?thesis
    using k_swap.last_reports [OF ring _ formats_put(2) md, of M_swap swap_line] rep by (simp add: swap_record_to_str_def)
next
  case M_time
  then show ?thesis
    using k_time.last_reports [OF ring _ formats_put(2) md, of M_time time_line] rep by (simp add: time_record_to_str_def)
next
  case M_uptime
  then show ?thesis
    using k_uptime.last_reports [OF ring _ formats_put(2) md, of M_uptime uptime_line] rep by (simp add: uptime_record_to_str_def)
next
  case M_who
  then show ?thesis
    using k_login.all_reports [OF ring _ formats_put(2) md, of M_who who_line] rep by (simp add: who_record_to_str_def)
qed

text \<open>The loop of \<open>print_mod_record\<close> after \<open>k\<close> modules.\<close>

definition reported :: "module_t list \<Rightarrow> (nat \<Rightarrow> string) \<Rightarrow> nat \<Rightarrow> module_t" where
  "reported ms w i = (if enable (ms ! i) = 0 then ms ! i else (ms ! i)\<lparr>mod_record := w i\<rparr>)"

definition report_text :: "module_t list \<Rightarrow> (nat \<Rightarrow> string) \<Rightarrow> nat \<Rightarrow> string" where
  "report_text ms w k = concat (map (\<lambda>i. if enable (ms ! i) = 0 then '''' else cstr (w i)) [0..<k])"

lemma report_text_Suc:
  "report_text ms w 0 = ''''"
  "report_text ms w (Suc k) = report_text ms w k @ (if enable (ms ! k) = 0 then '''' else cstr (w k))"
  by (simp_all add: report_text_def)

definition printing :: "st \<Rightarrow> addr list \<Rightarrow> module_t list \<Rightarrow> (nat \<Rightarrow> string) \<Rightarrow> nat \<Rightarrow> st \<Rightarrow> bool" where
  "printing s xs ms w k t \<longleftrightarrow> links t = links s \<and> (\<forall>a. a \<notin> set xs \<longrightarrow> objs t a = objs s a)
     \<and> (\<forall>i<length xs. objs t (xs ! i) = Some (O_module (if i < k then reported ms w i else ms ! i)))
     \<and> out t = out s @ report_text ms w k \<and> err t = err s \<and> clock t = clock s \<and> brk t = brk s"

lemma module_ring_objs:
  assumes "module_ring s xs ms"
  shows "length ms = length xs" "distinct xs" "i < length xs \<Longrightarrow> objs s (xs ! i) = Some (O_module (ms ! i))"
proof -
  have h: "holds O_module s MOD_LIST_HEAD xs ms"
    using assms by (simp add: module_ring_def)
  show l: "length ms = length xs" "distinct xs"
    using holds_length [OF h] ring_distinct [OF holds_ring [OF h]] by simp_all
  have "map (objs s) xs ! i = map (\<lambda>r. Some (O_module r)) ms ! i"
    using h by (simp add: holds_def)
  then show "i < length xs \<Longrightarrow> objs s (xs ! i) = Some (O_module (ms ! i))"
    using l by simp
qed

lemma printing_step:
  assumes m: "module_ring s xs ms" and k: "k < length xs" and pr: "printing s xs ms w k t"
    and rep: "enable (ms ! k) \<noteq> 0 \<Longrightarrow> reports xs s (fn_record_to_str (ms ! k)) (xs ! k) (w k)"
  shows "\<exists>t'. print_body (xs ! k) t = Some (Next t') \<and> printing s xs ms w (Suc k) t'"
proof -
  note mr = module_ring_objs [OF m]
  have md: "objs t (xs ! k) = Some (O_module (ms ! k))"
    using pr k by (simp add: printing_def)
  show ?thesis
  proof (cases "enable (ms ! k) = 0")
    case True
    then have "print_body (xs ! k) t = Some (Next t)"
      using md by (simp add: print_body_def obj_at_def as_module_def)
    moreover have "printing s xs ms w (Suc k) t"
      using pr True by (auto simp: printing_def report_text_Suc reported_def less_Suc_eq)
    ultimately show ?thesis by blast
  next
    case False
    let ?u = "with_record (xs ! k) (ms ! k) (w k) t"
    let ?t' = "fputs_out (cstr (w k)) ?u"
    obtain n where n: "mod_record_to_str (fn_record_to_str (ms ! k)) (xs ! k) t = Some (n, ?u)"
      using rep [OF False] pr md mr(3) [OF k] by (auto simp: reports_def printing_def)
    have run: "print_body (xs ! k) t = Some (Next ?t')"
      using md n False by (simp add: print_body_def obj_at_def as_module_def with_record_facts)
    have "objs ?t' (xs ! i) = Some (O_module (if i < Suc k then reported ms w i else ms ! i))" if "i < length xs" for i
      using pr that k False nth_eq_iff_index_eq [OF mr(2) that k]
      by (cases "i = k") (auto simp: printing_def reported_def fputs_out_def with_record_def)
    moreover have "objs ?t' a = objs s a" if "a \<notin> set xs" for a
      using pr that k by (auto simp: printing_def fputs_out_def with_record_def)
    ultimately have "printing s xs ms w (Suc k) ?t'"
      using pr False by (simp add: printing_def report_text_Suc fputs_out_def with_record_def)
    then show ?thesis using run by blast
  qed
qed

lemma print_mod_record_run:
  assumes "module_ring s xs ms"
    and "\<And>i. i < length xs \<Longrightarrow> enable (ms ! i) \<noteq> 0 \<Longrightarrow> reports xs s (fn_record_to_str (ms ! i)) (xs ! i) (w i)"
  shows "\<exists>t. print_mod_record s = Some (Done t) \<and> printing s xs ms w (length xs) t"
  unfolding print_mod_record_def
proof (rule each_module_steps [of "printing s xs ms w"])
  show "printing s xs ms w 0 s"
    using module_ring_objs(3) [OF assms(1)] by (simp add: printing_def report_text_Suc)
  show "ring (links t) MOD_LIST_HEAD xs" if "printing s xs ms w k t" for k t
    using that assms(1) by (simp add: printing_def module_ring_def holds_def)
  show "\<exists>t'. print_body (xs ! k) t = Some (Next t') \<and> printing s xs ms w (Suc k) t'"
    if "k < length xs" "printing s xs ms w k t" for k t
    by (rule printing_step [OF assms(1) that assms(2) [OF that(1)]])
qed

text \<open>
  C11. If the list of every enabled module is intact, with a line for every record to be reported that
  together fit the 1 MiB of a report, \<open>print_mod_record\<close> returns and prints the reports of the enabled modules,
  each once, in the order the modules registered, up to their terminating NUL: of a query the lines of all
  records, of a module with one record or a history the line of the last, of a module with a history of lists the
  lines of the last list, and where there is no record the report of the round before. It stores each
  report in its module and changes nothing else: no list, no record, no disabled module.
\<close>

theorem print_mod_record_prints:
  assumes "module_ring s xs ms"
    and "\<And>i. i < length xs \<Longrightarrow> enable (ms ! i) \<noteq> 0 \<Longrightarrow>
      module_report (fn_record_to_str (ms ! i)) s (record_list (xs ! i)) (mod_record (ms ! i)) (w i)"
  shows "\<exists>s'. print_mod_record s = Some (Done s')
    \<and> out s' = out s @ concat (map (\<lambda>i. if enable (ms ! i) = 0 then '''' else cstr (w i)) [0..<length xs])
    \<and> module_ring s' xs (map (\<lambda>i. if enable (ms ! i) = 0 then ms ! i else (ms ! i)\<lparr>mod_record := w i\<rparr>) [0..<length xs])
    \<and> links s' = links s \<and> (\<forall>a. a \<notin> set xs \<longrightarrow> objs s' a = objs s a) \<and> err s' = err s \<and> clock s' = clock s"
proof -
  have "reports xs s (fn_record_to_str (ms ! i)) (xs ! i) (w i)" if "i < length xs" "enable (ms ! i) \<noteq> 0" for i
    by (rule module_reports [OF assms(1) module_ring_objs(3) [OF assms(1) that(1)] assms(2) [OF that]])
  then obtain t where t: "print_mod_record s = Some (Done t)" "printing s xs ms w (length xs) t"
    using print_mod_record_run [OF assms(1)] by blast
  have "map (objs t) xs = map (\<lambda>r. Some (O_module r)) (map (reported ms w) [0..<length xs])"
    using t(2) by (intro nth_equalityI) (simp_all add: printing_def)
  moreover have links: "links t = links s"
    using t(2) by (simp add: printing_def)
  ultimately have "module_ring t xs (map (reported ms w) [0..<length xs])"
    using assms(1) unfolding module_ring_def holds_def links by (elim conjE, intro conjI)
  then show ?thesis
    using t by (intro exI [of _ t]) (simp add: printing_def report_text_def reported_def [abs_def])
qed

theorem print_mod_record_prints_witness:
  "\<exists>s'. print_mod_record one_module = Some (Done s') \<and> out s' = ''mem=0,0,0;'' @ [newline]"
proof -
  have ring: "module_ring one_module [4096] [(registered M_mem)\<lparr>enable := 1\<rparr>]"
    by (rule program_heapD(2) [OF one_module_heap])
  have "holds O_mem one_module (record_list 4096) [2000000] [zero_mem]"
    by (simp add: one_module_def holds_def ring_def link_def rd_next_def rd_prev_def record_list_def
        record_list_offset_def MOD_LIST_HEAD_def)
  moreover have "lines_text mem_line [zero_mem] old = Some (''mem=0,0,0;'' @ [newline])" for old
    by (simp add: lines_text_def mem_line_def report_line_def statics_defs zero_mem_def print_lu_def dec.simps text_simps)
  ultimately have "module_report M_mem one_module (record_list 4096) old (''mem=0,0,0;'' @ [newline])" for old
    by (force simp: reports_last_def)
  then show ?thesis
    using print_mod_record_prints [OF ring, of "\<lambda>_. ''mem=0,0,0;'' @ [newline]"]
    by (auto simp: one_module_def boot_def cstr_def registered_def zero_module_def)
qed

end
