(* ===== verification/Mod_Frames.thy ===== *)
theory Mod_Frames
  imports Mod_Single Mod_Query Mod_History
begin

text \<open>
  What the readers of \<open>libzsr\<close> do to memory on every path that returns, whatever the machine
  answers: a list grows by new records at its end, or records change in place, and
  nothing else is written. The program's rounds are composed from these frames.
\<close>

subsection \<open>Only the environment changes\<close>

definition same_heap :: "st \<Rightarrow> st \<Rightarrow> bool" where
  "same_heap s s' \<longleftrightarrow> links s' = links s \<and> objs s' = objs s \<and> brk s' = brk s"

lemma same_heap_refl [simp]: "same_heap s s"
  by (simp add: same_heap_def)

lemma same_heap_trans: "same_heap s s' \<Longrightarrow> same_heap s' s'' \<Longrightarrow> same_heap s s''"
  by (simp add: same_heap_def)

lemma same_heap_memory: "same_memory s s' \<Longrightarrow> same_heap s s'"
  by (simp add: same_heap_def same_memory_def)

lemma same_heap_tick [simp]: "same_heap s (tick s)"
  by (simp add: same_heap_def tick_def)

lemma same_heap_ticked [simp]: "same_heap s (tick t) = same_heap s t"
  by (simp add: same_heap_def tick_def)

lemma same_heap_facts:
  assumes "same_heap s s'"
  shows "heap_ok s' = heap_ok s" "holds K s' head xs rs = holds K s head xs rs" "only F s s'"
  using assms by (simp_all add: same_heap_def heap_ok_def holds_def only_def)

lemma read_cpu_stat_heap: "read_cpu_stat os c s = Some (Done (c', s')) \<Longrightarrow> same_heap s s'"
  by (auto simp: read_cpu_stat_def fopen_def bnd_Done_iff split: option.splits prod.splits
      dest!: print_log_l_memory same_heap_memory intro: same_heap_trans [OF same_heap_tick])

subsection \<open>Lists that grow\<close>

definition grows :: "('r \<Rightarrow> obj) \<Rightarrow> addr \<Rightarrow> st \<Rightarrow> st \<Rightarrow> bool" where
  "grows K head s s' \<longleftrightarrow> (\<forall>xs rs. heap_ok s \<longrightarrow> holds K s head xs rs \<longrightarrow>
     (\<exists>ys rs'. holds K s' head (xs @ ys) (rs @ rs') \<and> (\<forall>y\<in>set ys. brk s \<le> y) \<and> heap_ok s'
       \<and> only (insert head (set xs)) s s'))"

lemma growsE:
  assumes "grows K head s s'" "heap_ok s" "holds K s head xs rs"
  obtains ys rs' where "holds K s' head (xs @ ys) (rs @ rs')" "\<forall>y\<in>set ys. brk s \<le> y" "heap_ok s'"
    "only (insert head (set xs)) s s'"
  using assms unfolding grows_def by blast

lemma grows_heap: "same_heap s s' \<Longrightarrow> grows K head s s'"
  unfolding grows_def by (intro allI impI exI [of _ "[]"]) (simp add: same_heap_facts)

lemma grows_trans:
  assumes "grows K head s s1" "grows K head s1 s2"
  shows "grows K head s s2"
  unfolding grows_def
proof (intro allI impI)
  fix xs rs
  assume ok: "heap_ok s" and h: "holds K s head xs rs"
  obtain ys rs1 where 1: "holds K s1 head (xs @ ys) (rs @ rs1)" "\<forall>y\<in>set ys. brk s \<le> y" "heap_ok s1"
    "only (insert head (set xs)) s s1"
    by (rule growsE [OF assms(1) ok h])
  obtain zs rs2 where 2: "holds K s2 head ((xs @ ys) @ zs) ((rs @ rs1) @ rs2)" "\<forall>y\<in>set zs. brk s1 \<le> y" "heap_ok s2"
    "only (insert head (set (xs @ ys))) s1 s2"
    by (rule growsE [OF assms(2) 1(3,1)])
  have "only (insert head (set xs)) s s2"
    using only_trans [OF 1(4) 2(4)] 1(2) by fastforce
  moreover have "\<forall>y\<in>set (ys @ zs). brk s \<le> y"
    using 1(2,4) 2(2) by (auto simp: only_def dest: le_trans)
  ultimately show "\<exists>ys rs'. holds K s2 head (xs @ ys) (rs @ rs') \<and> (\<forall>y\<in>set ys. brk s \<le> y) \<and> heap_ok s2
      \<and> only (insert head (set xs)) s s2"
    using 2(1,3) by (intro exI [of _ "ys @ zs"] exI [of _ "rs1 @ rs2"]) simp
qed

context record_kind begin

lemma grows_add_all: "add_all (K z) (map K rs') head s = Some s' \<Longrightarrow> grows K head s s'"
  unfolding grows_def using add_all_holds [of s head _ _ z rs'] by fastforce

lemma grows_add_new: "add_new (K z) (K r) head s = Some s' \<Longrightarrow> grows K head s s'"
  using grows_add_all [of z "[r]" head s s'] by simp

text \<open>A node is allocated, the machine is asked, the node is filled and linked.\<close>

lemma grows_linked:
  assumes m: "malloc (K z) s = (a, s1)" and e: "same_heap s1 s2"
    and f: "set_obj a (K r) s2 = Some s3" "on_links (list_add_tail a head) s3 = Some s4"
  shows "grows K head s s4"
proof -
  let ?s = "s\<lparr>clock := clock s2, HZ := HZ s2, NUM_OF_CPU := NUM_OF_CPU s2, G_LOG_CONFIG := G_LOG_CONFIG s2,
     log_files := log_files s2, out := out s2, err := err s2\<rparr>"
  have "malloc (K z) ?s = (a, s2)"
    using m e by (auto simp: malloc_def same_heap_def Let_def cong: if_cong)
  then have "add_new (K z) (K r) head ?s = Some s4"
    using f by (simp add: add_new_def)
  moreover have heap: "same_heap s ?s"
    by (simp add: same_heap_def)
  ultimately show ?thesis
    using grows_trans [OF grows_heap grows_add_new] by blast
qed

text \<open>A node that is never linked, or freed again.\<close>

lemma grows_leaked:
  assumes m: "malloc (K z) s = (a, s1)" and e: "same_heap s1 s2"
  shows "grows K head s s2"
  unfolding grows_def
proof (intro allI impI)
  fix xs rs
  assume ok: "heap_ok s" and h: "holds K s head xs rs"
  note mf = malloc_facts [OF m]
  have "only {} s s1"
    using mf(5) by (auto simp: only_def mf(1-3) fresh_K)
  then have only: "only {} s s2"
    using e by (simp add: only_def same_heap_def)
  then show "\<exists>ys rs'. holds K s2 head (xs @ ys) (rs @ rs') \<and> (\<forall>y\<in>set ys. brk s \<le> y) \<and> heap_ok s2
      \<and> only (insert head (set xs)) s s2"
    using holds_frame [OF ok h only] malloc_heap_ok [OF ok m] same_heap_facts(1) [OF e] only_mono [OF only]
    by (intro exI [of _ "[]"]) simp
qed

lemma grows_freed:
  assumes m: "malloc (K z) s = (a, s1)" and f: "set_obj a (K r) s1 = Some s2" "free a s2 = Some s3"
  shows "grows K head s s3"
  unfolding grows_def
proof (intro allI impI)
  fix xs rs
  assume ok: "heap_ok s" and h: "holds K s head xs rs"
  note mf = malloc_facts [OF m]
  have s2: "s2 = s1\<lparr>objs := (objs s1)(a \<mapsto> K r)\<rparr>"
    using f(1) by (auto simp: set_obj_def split: option.splits)
  have s3: "s3 = s2\<lparr>links := (\<lambda>c. if c = a then None else links s1 c), objs := (objs s1)(a := None)\<rparr>"
    using f(2) by (auto simp: free_def s2 fresh_K cong: if_cong)
  have "heap_ok s2"
    using malloc_heap_ok [OF ok m] by (auto simp: heap_ok_def s2 size_K mf)
  then have ok3: "heap_ok s3"
    using free_heap_ok f(2) by blast
  have only: "only {} s s3"
    using mf(5) by (auto simp: only_def s2 s3 mf(1-3) fresh_K)
  then show "\<exists>ys rs'. holds K s3 head (xs @ ys) (rs @ rs') \<and> (\<forall>y\<in>set ys. brk s \<le> y) \<and> heap_ok s3
      \<and> only (insert head (set xs)) s s3"
    using holds_frame [OF ok h only] ok3 only_mono [OF only] by (intro exI [of _ "[]"]) simp
qed

end


subsection \<open>The queries\<close>

lemma get_dns_grows: "get_dns os head s = Some s' \<Longrightarrow> grows O_dns head s s'"
  using grows_trans [OF grows_heap [OF same_heap_tick] k_dns.grows_add_all]
  by (auto simp: get_dns_def dns_loop_eq grows_heap simp del: map_map split: option.splits)

lemma get_network_grows: "get_network os head s = Some s' \<Longrightarrow> grows O_link head s s'"
  using grows_trans [OF grows_heap [OF same_heap_tick] k_link.grows_add_all]
  by (auto simp: get_network_def network_loop_eq grows_heap simp del: map_map split: option.splits)

lemma login_loop_grows: "login_loop ups head s = Some s' \<Longrightarrow> grows O_login head s s'"
proof (induction ups arbitrary: s)
  case (Cons up ups)
  show ?case
  proof (cases "ut_type up = USER_PROCESS")
    case True
    then obtain r s1 where "add_new (O_login zero_login) (O_login r) head s = Some s1" "login_loop ups head s1 = Some s'"
      using Cons.prems by (auto split: bind_splits)
    then show ?thesis
      using grows_trans [OF k_login.grows_add_new] Cons.IH by blast
  qed (use Cons in simp)
qed (simp add: grows_heap)

lemma get_login_user_grows: "get_login_user os head s = Some s' \<Longrightarrow> grows O_login head s s'"
  using grows_trans [OF grows_heap [OF same_heap_tick] login_loop_grows] by (auto simp: get_login_user_def)

lemma set_fs_stat_heap: "set_fs_stat os dir node s = Some (r, s') \<Longrightarrow> same_heap s s'"
  by (auto simp: set_fs_stat_def Let_def split: option.splits bind_splits)

lemma fs_loop_grows: "fs_loop os mns head s = Some s' \<Longrightarrow> grows O_fs head s s'"
proof (induction mns arbitrary: s)
  case (Cons mn mns)
  show ?case
  proof (cases "strncmp_eq (me_fsname mn) ''/'' 1")
    case True
    obtain a s1 where m: "malloc (O_fs (os_fill os (clock s))) s = (a, s1)"
      by (cases "malloc (O_fs (os_fill os (clock s))) s")
    obtain n r s2 s3 s4 where st: "set_fs_stat os (me_dir mn) n s1 = Some (r, s2)" "set_obj a (O_fs r) s2 = Some s3"
      "on_links (list_add_tail a head) s3 = Some s4" "fs_loop os mns head s4 = Some s'"
      using Cons.prems True m by (auto simp: Let_def split: bind_splits)
    show ?thesis
      using grows_trans [OF k_fs.grows_linked [OF m set_fs_stat_heap [OF st(1)] st(2,3)] Cons.IH [OF st(4)]] .
  qed (use Cons in simp)
qed (simp add: grows_heap)

lemma read_fs_stat_grows: "read_fs_stat os head s = Some (Done s') \<Longrightarrow> grows O_fs head s s'"
  using grows_trans [OF grows_heap [OF same_heap_tick] fs_loop_grows]
    grows_heap [OF same_heap_trans [OF same_heap_tick same_heap_memory [OF print_log_l_memory]]]
  by (auto simp: read_fs_stat_def split: option.splits)

text \<open>
  \<open>get_ip_addr\<close> returns only if no address follows one that has no name: after a failed
  \<open>getnameinfo\<close> the node is freed but still pointed to, and its next use is undefined.
\<close>

lemma ip_loop_grows:
  "ip_loop os ifs head node s = Some s' \<Longrightarrow> node = NULL \<or> objs s node = None \<Longrightarrow> grows O_interface head s s'"
proof (induction ifs arbitrary: node s)
  case (Cons i ifs)
  show ?case
  proof (cases "ifa_addr i")
    case None
    then show ?thesis using Cons by simp
  next
    case (Some sa)
    show ?thesis
    proof (cases "sa_family sa = AF_INET \<or> sa_family sa = AF_INET6")
      case False
      then show ?thesis using Cons Some by (simp add: Let_def)
    next
      case fam: True
      let ?len = "if sa_family sa = AF_INET then INET_ADDRSTRLEN else INET6_ADDRSTRLEN"
      have node: "node = NULL"
        using Cons.prems Some fam by (auto simp: Let_def obj_at_def split: if_splits)
      obtain a s1 where m: "malloc (O_interface zero_interface) s = (a, s1)"
        by (cases "malloc (O_interface zero_interface) s")
      let ?h = "os_nameinfo os (Some sa) ?len" and ?n = "os_nameinfo os (ifa_netmask i) ?len"
      show ?thesis
      proof (cases "?h = None \<or> ?n = None")
        case True
        then obtain r s2 s3 where s2: "set_obj a (O_interface r) s1 = Some s2" "free a s2 = Some s3"
          "ip_loop os ifs head a s3 = Some s'"
          using Cons.prems(1) Some fam m node by (auto simp: Let_def split: bind_splits option.splits)
        have "objs s3 a = None"
          using s2(2) by (auto simp: free_def split: option.splits)
        then show ?thesis
          using grows_trans [OF k_interface.grows_freed [OF m s2(1,2)] Cons.IH [OF s2(3)]] by blast
      next
        case False
        then obtain r r' s2 s3 s4 where s2: "set_obj a (O_interface r) s1 = Some s2"
          "set_obj a (O_interface r') s2 = Some s3" "on_links (list_add_tail a head) s3 = Some s4"
          "ip_loop os ifs head NULL s4 = Some s'"
          using Cons.prems(1) Some fam m node by (auto simp: Let_def split: bind_splits option.splits)
        have "set_obj a (O_interface r') s1 = Some s3"
          using s2(1,2) by (auto simp: set_obj_def split: option.splits)
        then show ?thesis
          using grows_trans [OF k_interface.grows_linked [OF m same_heap_refl _ s2(3)] Cons.IH [OF s2(4)]] by blast
      qed
    qed
  qed
qed (simp add: grows_heap)

lemma get_ip_addr_grows: "get_ip_addr os head s = Some s' \<Longrightarrow> grows O_interface head s s'"
  using grows_trans [OF grows_heap [OF same_heap_tick] ip_loop_grows]
  by (auto simp: get_ip_addr_def grows_heap split: option.splits)


subsection \<open>Readings\<close>

lemma get_cpu_time_heap: "get_cpu_time_in_jiffies os s = Some (Done (w, s')) \<Longrightarrow> same_heap s s'"
  by (auto simp: get_cpu_time_in_jiffies_def bnd_Done_iff dest: read_cpu_stat_heap)

lemma read_uptime_heap: "read_uptime_in_jiffies os s = Some (w, s') \<Longrightarrow> same_heap s s'"
  by (auto simp: read_uptime_in_jiffies_def fopen_def split: option.splits prod.splits bind_splits)

lemma get_HZ_heap: "get_HZ os s = Some (Done s') \<Longrightarrow> same_heap s s'"
  by (auto simp: get_HZ_def Let_def same_heap_def tick_def split: if_splits)

lemma get_num_of_cpu_heap: "get_num_of_cpu os s = Some (Done (n, s')) \<Longrightarrow> same_heap s s'"
  by (auto simp: get_num_of_cpu_def fopen_def bnd_Done_iff split: option.splits prod.splits
      dest!: print_log_l_memory same_heap_memory intro: same_heap_trans [OF same_heap_tick])

lemma io_lines_grows: "io_lines os bufs head s = Some (Done s') \<Longrightarrow> grows O_io head s s'"
proof (induction bufs arbitrary: s)
  case (Cons buf bufs)
  obtain a s1 where m: "malloc (O_io zero_io) s = (a, s1)"
    by (cases "malloc (O_io zero_io) s")
  obtain up s2 up0 s3 d where r: "get_cpu_time_in_jiffies os s1 = Some (Done (up, s2))"
    "(if 1 < NUM_OF_CPU s2 then read_uptime_in_jiffies os s2 else Some (is_uptime0 zero_io_stat, s2)) = Some (up0, s3)"
    and d: "scan_disk buf = Some d" and go: "(case d of
          None \<Rightarrow> print_log os LOG_FATAL ''io.c'' 64 ''Unknown /proc/diskstats: Ignore it'' s3
        | Some (dev, v) \<Rightarrow>
            bnd (total (do {
                d \<leftarrow> strncpy (io_dev zero_io) dev LEN_64;
                s \<leftarrow> set_obj a (O_io (zero_io\<lparr>io_dev := d,
                       io_stat := fill_io_stat v (zero_io_stat\<lparr>is_uptime := up, is_uptime0 := up0\<rparr>)\<rparr>)) s3;
                on_links (list_add_tail a head) s
              })) (\<lambda>s. io_lines os bufs head s)) = Some (Done s')"
    using Cons.prems m by (auto simp: bnd_Done_iff)
  have "same_heap s2 s3"
    using r(2) by (auto split: if_splits dest: read_uptime_heap)
  then have heap: "same_heap s1 s3"
    using same_heap_trans [OF get_cpu_time_heap [OF r(1)]] by blast
  show ?case
  proof (cases d)
    case None
    then have "same_heap s1 s'"
      using go heap by (auto dest!: print_log_memory same_heap_memory intro: same_heap_trans)
    then show ?thesis
      using k_io.grows_leaked [OF m] by blast
  next
    case (Some dv)
    then obtain r' s4 s5 where "set_obj a (O_io r') s3 = Some s4" "on_links (list_add_tail a head) s4 = Some s5"
      "io_lines os bufs head s5 = Some (Done s')"
      using go by (cases dv) (auto simp: bnd_Done_iff split: bind_splits)
    then show ?thesis
      using grows_trans [OF k_io.grows_linked [OF m heap]] Cons.IH by blast
  qed
qed (simp add: grows_heap)

lemma read_io_stat_grows: "read_io_stat os head s = Some (Done s') \<Longrightarrow> grows O_io head s s'"
proof -
  assume "read_io_stat os head s = Some (Done s')"
  then obtain n s1 s2 where 1: "get_num_of_cpu os (tick s) = Some (Done (n, s1))" "get_HZ os (s1\<lparr>NUM_OF_CPU := n\<rparr>) = Some (Done s2)"
    and 2: "(case fopen os ''/proc/diskstats'' s2 of
          (None, s) \<Rightarrow> print_log_l os LOG_ERROR (Some ''/proc/diskstats'') s
        | (Some txt, s) \<Rightarrow> io_lines os (fgets_all LEN_256 txt) head s) = Some (Done s')"
    by (auto simp: read_io_stat_def Let_def bnd_Done_iff)
  have "same_heap s (tick s2)"
    using get_num_of_cpu_heap [OF 1(1)] get_HZ_heap [OF 1(2)] by (simp add: same_heap_def tick_def)
  moreover have "grows O_io head (tick s2) s'"
    using 2 by (auto simp: fopen_def split: option.splits
        dest: io_lines_grows grows_heap [OF same_heap_memory [OF print_log_l_memory]])
  ultimately show ?thesis
    using grows_trans [OF grows_heap] by blast
qed

lemma read_pid_stat_heap: "read_pid_stat os p r s = Some (Done (r', s')) \<Longrightarrow> same_heap s s'"
proof -
  assume r: "read_pid_stat os p r s = Some (Done (r', s'))"
  then obtain f where f: "to_proc_file p ''stat'' = Some f"
    by (auto simp: read_pid_stat_def bnd_Done_iff)
  show ?thesis
  proof (cases "os_file os (clock s) f")
    case None
    then have "print_log_l os LOG_ERROR (Some f) (tick s) = Some (Done s')"
      using r f by (auto simp: read_pid_stat_def fopen_def bnd_Done_iff)
    from same_heap_memory [OF print_log_l_memory [OF this]] show ?thesis
      by (simp add: same_heap_def tick_def)
  next
    case (Some t)
    then show ?thesis
      using r f by (auto simp: read_pid_stat_def fopen_def bnd_Done_iff Let_def split: option.splits if_splits)
  qed
qed

lemma read_pid_exe_heap: "read_pid_exe os p r s = Some (r', s') \<Longrightarrow> same_heap s s'"
  by (auto simp: read_pid_exe_def Let_def split: option.splits bind_splits if_splits)

lemma read_pid_status_heap: "read_pid_status os p r s = Some (r', s') \<Longrightarrow> same_heap s s'"
  by (auto simp: read_pid_status_def fopen_def Let_def split: option.splits prod.splits bind_splits
      intro: same_heap_trans [OF same_heap_tick])

lemma set_pid_mem_heap: "set_pid_mem_until os r s = Some (r', s') \<Longrightarrow> same_heap s s'"
  by (auto simp: set_pid_mem_until_def Let_def split: option.splits bind_splits)

lemma store_single_pid_info_heap: "store_single_pid_info os p r s = Some (Done (r', s')) \<Longrightarrow> same_heap s s'"
proof -
  assume "store_single_pid_info os p r s = Some (Done (r', s'))"
  then obtain c s1 r1 s2 r2 s3 r3 s4 where
    "read_cpu_stat os zero_cpu_stat s = Some (Done (c, s1))" "read_pid_stat os p r s1 = Some (Done (r1, s2))"
    "read_pid_exe os p r1 s2 = Some (r2, s3)" "read_pid_status os p r2 s3 = Some (r3, s4)"
    "set_pid_mem_until os (set_sys_cpu_time c r3) s4 = Some (r', s')"
    by (auto simp: store_single_pid_info_def bnd_Done_iff)
  then show ?thesis
    by (auto simp: same_heap_def dest!: read_cpu_stat_heap read_pid_stat_heap read_pid_exe_heap read_pid_status_heap
        set_pid_mem_heap)
qed

lemma proc_loop_grows: "proc_loop os ents head s = Some (Done s') \<Longrightarrow> grows O_proc head s s'"
proof (induction ents arbitrary: s)
  case (Cons e ents)
  obtain d_name is_dir where e: "e = (d_name, is_dir)" by (cases e)
  obtain a s1 where m: "malloc (O_proc zero_proc) s = (a, s1)"
    by (cases "malloc (O_proc zero_proc) s")
  show ?case
  proof (cases "is_dir \<and> is_digit (Some d_name) \<and> \<not> (d_name \<noteq> '''' \<and> hd d_name = CHR ''.'')")
    case True
    then obtain r s2 s3 s4 where "store_single_pid_info os d_name zero_proc s1 = Some (Done (r, s2))"
      "set_obj a (O_proc r) s2 = Some s3" "on_links (list_add_tail a head) s3 = Some s4"
      "proc_loop os ents head s4 = Some (Done s')"
      using Cons.prems e m by (auto simp: bnd_Done_iff split: bind_splits if_splits)
    then show ?thesis
      using grows_trans [OF k_proc.grows_linked [OF m store_single_pid_info_heap]] Cons.IH by blast
  next
    case False
    then show ?thesis
      using Cons e by (auto split: if_splits)
  qed
qed (simp add: grows_heap)

lemma get_all_proc_grows: "get_all_proc os head s = Some (Done s') \<Longrightarrow> grows O_proc head s s'"
  using grows_trans [OF grows_heap [OF same_heap_tick] proc_loop_grows]
  by (auto simp: get_all_proc_def grows_heap split: option.splits)

subsection \<open>Records that change in place\<close>

definition updates :: "('r \<Rightarrow> obj) \<Rightarrow> addr set \<Rightarrow> st \<Rightarrow> st \<Rightarrow> bool" where
  "updates K A s s' \<longleftrightarrow> links s' = links s \<and> brk s' = brk s
     \<and> (\<forall>a. objs s' a = objs s a \<or> a \<in> A \<and> (\<exists>r r'. objs s a = Some (K r) \<and> objs s' a = Some (K r')))"

lemma updates_refl: "updates K A s s"
  by (simp add: updates_def)

lemma updates_heap: "same_heap s s' \<Longrightarrow> updates K A s s'"
  by (simp add: updates_def same_heap_def)

lemma updates_trans:
  assumes "updates K A s s1" "updates K A s1 s2"
  shows "updates K A s s2"
  unfolding updates_def
proof (intro conjI allI)
  show "links s2 = links s" "brk s2 = brk s"
    using assms by (simp_all add: updates_def)
  fix a
  have "objs s1 a = objs s a \<or> a \<in> A \<and> (\<exists>r r'. objs s a = Some (K r) \<and> objs s1 a = Some (K r'))"
    "objs s2 a = objs s1 a \<or> a \<in> A \<and> (\<exists>r r'. objs s1 a = Some (K r) \<and> objs s2 a = Some (K r'))"
    using assms by (simp_all add: updates_def)
  then show "objs s2 a = objs s a \<or> a \<in> A \<and> (\<exists>r r'. objs s a = Some (K r) \<and> objs s2 a = Some (K r'))"
    by metis
qed

lemma updates_mono: "updates K A s s' \<Longrightarrow> A \<subseteq> A' \<Longrightarrow> updates K A' s s'"
  unfolding updates_def by blast

lemma updates_only: "updates K A s s' \<Longrightarrow> only A s s'"
  by (auto simp: updates_def only_def)

lemma updates_set: "set_obj a (K r') s = Some s' \<Longrightarrow> objs s a = Some (K r) \<Longrightarrow> updates K {a} s s'"
  by (auto simp: set_obj_def updates_def split: if_splits)

lemma map_objs_exists:
  assumes "\<And>x. x \<in> set xs \<Longrightarrow> \<exists>r. m x = Some (K r)"
  shows "\<exists>rs. map m xs = map (\<lambda>r. Some (K r)) rs"
  using assms
proof (induction xs)
  case (Cons x xs)
  obtain rs where "map m xs = map (\<lambda>r. Some (K r)) rs"
    using Cons by auto
  moreover obtain r where "m x = Some (K r)"
    using Cons.prems by auto
  ultimately show ?case
    by (intro exI [of _ "r # rs"]) simp
qed simp

text \<open>A loop whose every step updates records updates records.\<close>

lemma fold_ctl_updates:
  assumes "\<And>x t d. x \<in> set xs \<Longrightarrow> updates K A s t \<Longrightarrow> body x t = Some d \<Longrightarrow> updates K A t (ctl_state d)"
    and "updates K A s t" "fold_ctl body xs t = Some c"
  shows "updates K A s (ctl_state c)"
  using assms
proof (induction xs arbitrary: t)
  case (Cons x xs)
  obtain d where d: "body x t = Some d"
    using Cons.prems(3) by (auto split: option.splits)
  have u: "updates K A s (ctl_state d)"
    using Cons.prems(1) [OF _ Cons.prems(2) d] Cons.prems(2) updates_trans by fastforce
  show ?case
  proof (cases d)
    case (Next t')
    show ?thesis
      by (rule Cons.IH [OF Cons.prems(1) [OF list.set_intros(2)], where t = t']) (use u Cons.prems(3) d Next in simp_all)
  next
    case (Leave t')
    then show ?thesis
      using u Cons.prems(3) d by auto
  qed
qed auto

context record_kind begin

lemma updates_holds:
  assumes "updates K A s s'" "holds K s head xs rs"
  shows "\<exists>rs'. holds K s' head xs rs'"
proof -
  have "\<exists>r. objs s' x = Some (K r)" if "x \<in> set xs" for x
    using holds_nonnull [OF assms(2) that] assms(1) unfolding updates_def by metis
  from map_objs_exists [OF this] show ?thesis
    using assms by (auto simp: holds_def updates_def)
qed

lemma updates_heap_ok:
  assumes "updates K A s s'" "heap_ok s"
  shows "heap_ok s'"
proof -
  have "a + obj_size ob \<le> brk s" if "objs s' a = Some ob" for a ob
  proof (cases "objs s' a = objs s a")
    case True
    then show ?thesis using that assms(2) by (simp add: heap_ok_def)
  next
    case False
    then obtain r r' where "objs s a = Some (K r)" "objs s' a = Some (K r')"
      using assms(1) unfolding updates_def by metis
    moreover have "a + obj_size (K r) \<le> brk s"
      using \<open>objs s a = _\<close> assms(2) unfolding heap_ok_def by blast
    ultimately show ?thesis
      using that by (simp add: size_K)
  qed
  then show ?thesis
    using assms by (simp add: heap_ok_def updates_def)
qed

end

subsection \<open>The computations\<close>

lemma compute_io_inner_updates:
  assumes "compute_io_inner x y t = Some c"
  shows "updates O_io {x} t (ctl_state c)"
proof -
  obtain r where "obj_at as_io x t = Some r"
    using assms by (auto simp: compute_io_inner_def split: bind_splits)
  then have "objs t x = Some (O_io r)"
    by (auto simp: obj_at_def as_io_def split: bind_splits obj.splits)
  then show ?thesis
    using assms updates_set [of x O_io] updates_refl
    by (auto simp: compute_io_inner_def split: bind_splits if_splits)
qed

lemma compute_io_outer_updates:
  assumes "ring (links t) prev ys" "compute_io_outer prev x t = Some c"
  shows "updates O_io {x} t (ctl_state c)"
proof -
  obtain d where d: "fold_ctl (compute_io_inner x) ys t = Some d" "ctl_state c = ctl_state d"
    using assms(2) compute_io_inner_loop [OF assms(1), of x] by (auto simp: compute_io_outer_def)
  have "updates O_io {x} t (ctl_state d)"
    by (rule fold_ctl_updates [OF _ updates_refl d(1)]) (auto dest: compute_io_inner_updates)
  then show ?thesis
    using d(2) by simp
qed

lemma compute_io_stat_updates:
  assumes "ring (links s) cur xs" "ring (links s) prev ys" "compute_io_stat os cur prev s = Some (Done s')"
  shows "updates O_io (set xs) s s'"
proof -
  obtain s1 c where s1: "get_HZ os s = Some (Done s1)"
    and c: "list_for_each_entry (compute_io_outer prev) links cur s1 = Some c" "s' = ctl_state c"
    using assms(3) by (auto simp: compute_io_stat_def bnd_Done_iff)
  have l: "links s1 = links s" "updates O_io (set xs) s s1"
    using get_HZ_heap [OF s1] by (simp_all add: same_heap_def updates_heap)
  have "list_for_each_entry (compute_io_outer prev) links cur s1 = fold_ctl (compute_io_outer prev) xs s1"
  proof (rule list_for_each_entry_fold [where keep = "\<lambda>t. links t = links s"])
    show "links t' = links s" if "links t = links s" "compute_io_outer prev x t = Some (Next t')" for x t t'
      using compute_io_outer_updates [of t prev ys x, OF _ that(2)] assms(2) that(1) by (simp add: updates_def)
  qed (use l assms(1) in auto)
  then have fold: "fold_ctl (compute_io_outer prev) xs s1 = Some c"
    using c(1) by simp
  have "updates O_io (set xs) s (ctl_state c)"
  proof (rule fold_ctl_updates [OF _ l(2) fold])
    show "updates O_io (set xs) t (ctl_state d)"
      if "x \<in> set xs" "updates O_io (set xs) s t" "compute_io_outer prev x t = Some d" for x t d
      using updates_mono [OF compute_io_outer_updates [of t prev ys x d, OF _ that(3)]] that assms(2)
      by (simp add: updates_def)
  qed
  then show ?thesis
    using c(2) by simp
qed

lemma store_body_updates:
  assumes "store_body p ct sy x t = Some c"
  shows "updates O_proc {x} t (ctl_state c)"
proof -
  obtain r where "obj_at as_proc x t = Some r"
    using assms by (auto simp: store_body_def split: bind_splits)
  then have "objs t x = Some (O_proc r)"
    by (auto simp: obj_at_def as_proc_def split: bind_splits obj.splits)
  then show ?thesis
    using assms updates_set [of x O_proc] updates_refl
    by (auto simp: store_body_def split: bind_splits if_splits)
qed

lemma store_utils_updates:
  "ring (links s) cur xs \<Longrightarrow> store_utils cs cur is s = Some s' \<Longrightarrow> updates O_proc (set xs) s s'"
proof (induction "is" arbitrary: s)
  case (Cons i "is")
  obtain p ct sy c where c: "list_for_each_entry (store_body p ct sy) links cur s = Some c"
    "store_utils cs cur is (ctl_state c) = Some s'"
    using Cons.prems(2) by (auto split: bind_splits)
  have "list_for_each_entry (store_body p ct sy) links cur s = fold_ctl (store_body p ct sy) xs s"
  proof (rule list_for_each_entry_fold [where keep = "\<lambda>t. links t = links s"])
    show "links t' = links s" if "links t = links s" "store_body p ct sy x t = Some (Next t')" for x t t'
      using store_body_updates [OF that(2)] that(1) by (simp add: updates_def)
  qed (use Cons.prems(1) in auto)
  then have fold: "fold_ctl (store_body p ct sy) xs s = Some c"
    using c(1) by simp
  have step: "updates O_proc (set xs) t (ctl_state d)" if "x \<in> set xs" "store_body p ct sy x t = Some d" for x t d
    using updates_mono [OF store_body_updates [OF that(2)]] that(1) by simp
  have "updates O_proc (set xs) s (ctl_state c)"
    by (rule fold_ctl_updates [OF _ updates_refl fold]) (rule step)
  moreover from this have "ring (links (ctl_state c)) cur xs"
    using Cons.prems(1) by (simp add: updates_def)
  ultimately show ?case
    using updates_trans Cons.IH c(2) by blast
qed (simp add: updates_refl)

lemma compute_proc_updates:
  "ring (links s) cur xs \<Longrightarrow> compute_proc_cpu_stat cur prev s = Some s' \<Longrightarrow> updates O_proc (set xs) s s'"
  by (auto simp: compute_proc_cpu_stat_def intro: store_utils_updates split: bind_splits)

subsection \<open>Collecting into a flat list\<close>

definition flat_kept :: "('r \<Rightarrow> obj) \<Rightarrow> addr \<Rightarrow> st \<Rightarrow> st \<Rightarrow> bool" where
  "flat_kept K head s s' \<longleftrightarrow> (\<forall>xs rs. heap_ok s \<longrightarrow> holds K s head xs rs \<longrightarrow>
     (\<exists>xs' rs'. holds K s' head xs' rs' \<and> (\<forall>x\<in>set xs'. x \<in> set xs \<or> brk s \<le> x) \<and> heap_ok s'
       \<and> only (insert head (set xs)) s s'))"

lemma grows_flat_kept: "grows K head s s' \<Longrightarrow> flat_kept K head s s'"
  unfolding flat_kept_def
proof (intro allI impI)
  fix xs rs
  assume "grows K head s s'" "heap_ok s" "holds K s head xs rs"
  then obtain ys rs' where "holds K s' head (xs @ ys) (rs @ rs')" "\<forall>y\<in>set ys. brk s \<le> y" "heap_ok s'"
    "only (insert head (set xs)) s s'"
    by (rule growsE)
  then show "\<exists>xs' rs'. holds K s' head xs' rs' \<and> (\<forall>x\<in>set xs'. x \<in> set xs \<or> brk s \<le> x) \<and> heap_ok s'
       \<and> only (insert head (set xs)) s s'"
    by (intro exI [of _ "xs @ ys"] exI [of _ "rs @ rs'"]) auto
qed

context record_kind begin

lemma single_entry_kept:
  assumes ok: "heap_ok s" and h: "holds K s (record_list m) xs rs" and e: "single_entry (K z) m s = Some (a, s')"
  shows "\<exists>xs' rs'. holds K s' (record_list m) xs' rs' \<and> a \<in> set xs' \<and> (\<forall>x\<in>set xs'. x \<in> set xs \<or> brk s \<le> x)
    \<and> heap_ok s' \<and> only (insert (record_list m) (set xs)) s s'"
proof (cases "xs = []")
  case True
  obtain b s1 where m: "malloc (K z) s = (b, s1)"
    by (cases "malloc (K z) s")
  note mf = malloc_facts [OF m]
  have "set_obj b (K z) s1 = Some s1"
    by (simp add: set_obj_def mf(2))
  then have "add_new (K z) (K z) (record_list m) s = on_links (list_add_tail b (record_list m)) s1"
    using m by (simp add: add_new_def)
  moreover have "on_links (list_add_tail b (record_list m)) s1 = Some s'" "a = b"
    using e True m list_empty_ring [OF holds_ring [OF h]] by (auto simp: single_entry_def split: bind_splits)
  ultimately show ?thesis
    using add_new_holds [OF ok h, of z z] True mf(1) by auto
next
  case False
  then have "a = last xs" "s' = s"
    using e list_empty_ring [OF holds_ring [OF h]] ring_prev [OF holds_ring [OF h]]
    by (auto simp: single_entry_def split: bind_splits)
  then show ?thesis
    using False ok h by auto
qed

lemma collect_query_kept:
  assumes "\<And>s s'. query (record_list m) s = Some (Done s') \<Longrightarrow> grows K (record_list m) s s'"
    and "collect_query query m s = Some (Done s')"
  shows "flat_kept K (record_list m) s s'"
  unfolding flat_kept_def
proof (intro allI impI)
  fix xs rs
  assume ok: "heap_ok s" and h: "holds K s (record_list m) xs rs"
  obtain s1 where s1: "clear_list m s = Some s1" "ring (links s1) (record_list m) []" "brk s1 = brk s" "heap_ok s1"
    "only (insert (record_list m) (set xs)) s s1"
    using clear_list_empties [OF ok holds_ring [OF h]] by blast
  have "grows K (record_list m) s1 s'"
    using assms s1(1) by (simp add: collect_query_def)
  moreover have "holds K s1 (record_list m) [] []"
    using s1(2) by (simp add: holds_def)
  ultimately obtain ys rs' where "holds K s' (record_list m) ys rs'" "\<forall>y\<in>set ys. brk s \<le> y" "heap_ok s'"
    "only {record_list m} s1 s'"
    using growsE [OF _ s1(4), of K "record_list m" s' "[]" "[]"] s1(3) by auto
  moreover have "only (insert (record_list m) (set xs)) s s'"
    using only_trans [OF s1(5) \<open>only {record_list m} s1 s'\<close>] by simp
  ultimately show "\<exists>xs' rs'. holds K s' (record_list m) xs' rs' \<and> (\<forall>x\<in>set xs'. x \<in> set xs \<or> brk s \<le> x)
      \<and> heap_ok s' \<and> only (insert (record_list m) (set xs)) s s'"
    by blast
qed

end

context single_module begin

lemma collect_single_kept:
  assumes "collect_single K un zero (read os) m s = Some (Done s')"
  shows "flat_kept K (record_list m) s s'"
  unfolding flat_kept_def
proof (intro allI impI)
  fix xs rs
  assume ok: "heap_ok s" and h: "holds K s (record_list m) xs rs"
  obtain a s1 r r' s2 where s1: "single_entry (K zero) m s = Some (a, s1)" "obj_at un a s1 = Some r"
    "read os r s1 = Some (Done (r', s2))" "set_obj a (K r') s2 = Some s'"
    using assms by (auto simp: collect_single_def bnd_Done_iff)
  obtain xs' rs' where k: "holds K s1 (record_list m) xs' rs'" "a \<in> set xs'"
    "\<forall>x\<in>set xs'. x \<in> set xs \<or> brk s \<le> x" "heap_ok s1" "only (insert (record_list m) (set xs)) s s1"
    using single_entry_kept [OF ok h s1(1)] by blast
  note heap = same_heap_memory [OF read_memory [OF s1(3)]]
  have "objs s2 = objs s1"
    using heap by (simp add: same_heap_def)
  then obtain q where "objs s2 a = Some (K q)"
    using holds_nonnull [OF k(1,2)] by auto
  then have u: "updates K {a} s1 s'"
    using updates_trans [OF updates_heap [OF heap] updates_set [where K = K, OF s1(4)]] by blast
  have "only (insert (record_list m) (set xs)) s s'"
    using only_trans [OF k(5) updates_only [OF u]] k(2,3) by fastforce
  then show "\<exists>xs' rs'. holds K s' (record_list m) xs' rs' \<and> (\<forall>x\<in>set xs'. x \<in> set xs \<or> brk s \<le> x)
      \<and> heap_ok s' \<and> only (insert (record_list m) (set xs)) s s'"
    using updates_holds [OF u k(1)] updates_heap_ok [OF u k(4)] k(3) by blast
qed

end

lemma cpu_collect_grows: "cpu_collect_record os m s = Some (Done s') \<Longrightarrow> grows O_cpu (record_list m) s s'"
proof -
  obtain a s1 where m: "malloc (O_cpu zero_cpu) s = (a, s1)"
    by (cases "malloc (O_cpu zero_cpu) s")
  assume "cpu_collect_record os m s = Some (Done s')"
  then obtain stat s2 e s3 where "read_cpu_stat os (cpu_stat zero_cpu) s1 = Some (Done (stat, s2))"
    "set_obj a (O_cpu e) s2 = Some s3" "on_links (list_add_tail a (record_list m)) s3 = Some s'"
    using m by (auto simp: cpu_collect_record_def bnd_Done_iff Let_def bind_eq_Some_conv)
  then show ?thesis
    using k_cpu.grows_linked [OF m read_cpu_stat_heap] by blast
qed

subsection \<open>Collecting into a history\<close>

lemma lists_at_links:
  assumes "lists_at K s ls" "objs s' = objs s"
    and "\<And>a xs rs c. (a, xs, rs) \<in> set ls \<Longrightarrow> c \<in> insert (inner_head a) (set xs) \<Longrightarrow> links s' c = links s c"
  shows "lists_at K s' ls"
proof -
  have "objs s' a = Some O_list_list \<and> holds K s' (inner_head a) xs rs" if l: "(a, xs, rs) \<in> set ls" for a xs rs
  proof -
    have "objs s a = Some O_list_list" "holds K s (inner_head a) xs rs"
      using assms(1) l by (auto simp: lists_at_def)
    then show ?thesis
      using ring_agree [of "inner_head a" xs "links s'" "links s"] assms(2) assms(3) [OF l] by (simp add: holds_def)
  qed
  then show ?thesis
    by (auto simp: lists_at_def)
qed

context record_kind begin

text \<open>A reading is allocated, its list made empty and filled: nothing old is written.\<close>

lemma new_reading:
  assumes ok: "heap_ok s" and m: "malloc O_list_list s = (a, s1)" and i: "on_links (INIT_LIST_HEAD (inner_head a)) s1 = Some s2"
    and r: "grows K (inner_head a) s2 s3"
  shows "\<exists>ys rs. holds K s3 (inner_head a) ys rs \<and> (\<forall>y\<in>set ys. inner_head a < y) \<and> brk s = a
    \<and> objs s3 a = Some O_list_list \<and> a \<in> dom (links s3) \<and> heap_ok s3 \<and> only {} s s3"
proof -
  note mf = malloc_facts [OF m]
  have a: "brk s = a" "fresh_cells a O_list_list = {a, inner_head a}" "inner_head a < brk s1" "a < inner_head a"
    using mf(1,3) fresh_list_list by (simp_all add: inner_head_def head_offset_def)
  obtain h where h: "INIT_LIST_HEAD (inner_head a) (links s1) = Some h" "ring h (inner_head a) []"
    "same_except {inner_head a} (links s1) h"
    using INIT_LIST_HEAD_ring [of "inner_head a" "links s1"] mf(4) a(2) by auto
  have ok1: "heap_ok s1"
    by (rule malloc_heap_ok [OF ok m])
  have s2: "s2 = s1\<lparr>links := h\<rparr>" "heap_ok s2" "only {inner_head a} s1 s2"
    using i on_links_ring [of "INIT_LIST_HEAD (inner_head a)" s1 h, OF h(1,3) ok1] by auto
  have "holds K s2 (inner_head a) [] []"
    using h(2) s2(1) by (simp add: holds_def)
  then obtain ys rs where ys: "holds K s3 (inner_head a) ys rs" "\<forall>y\<in>set ys. brk s2 \<le> y" "heap_ok s3"
    "only {inner_head a} s2 s3"
    using growsE [OF r s2(2), of "[]" "[]"] by auto
  have "c \<notin> {a, inner_head a}" if "c < brk s" for c
    using that a(1,4) by auto
  then have "only {} s s1"
    using mf(5) a(1,2) unfolding only_def by (simp add: mf(2,3))
  then have "only {} s s2"
    by (rule only_trans [OF _ s2(3)]) (use a(1,4) in auto)
  then have "only {} s s3"
    by (rule only_trans [OF _ ys(4)]) (use a(1,4) in auto)
  moreover have "objs s3 a = Some O_list_list"
    using ys(4) a(3,4) s2(1) mf(2) by (simp add: only_def)
  moreover have "links s3 a = links s2 a"
    using ys(4) a(3,4) s2(1) by (simp add: only_def)
  then have "a \<in> dom (links s3)"
    using mf(4) a(2) s2(1) same_exceptD(2) [OF h(3)] by (auto simp: dom_def)
  moreover have "\<forall>y\<in>set ys. inner_head a < y"
    using ys(2) a(3) s2(1) by auto
  ultimately show ?thesis
    using ys(1,3) a(1) by blast
qed

text \<open>The reading is linked at the end of the history.\<close>

lemma link_reading:
  assumes ok: "heap_ok s" and n: "nested K s head ls" and h: "holds K s (inner_head a) ys rs"
    and a: "objs s a = Some O_list_list" "a \<in> dom (links s)"
    and new: "\<And>c. c \<in> insert head (set (cells_of ls)) \<Longrightarrow> c < a" "\<forall>y\<in>set ys. inner_head a < y"
    and l: "on_links (list_add_tail a head) s = Some s'"
  shows "nested K s' head (ls @ [(a, ys, rs)]) \<and> heap_ok s' \<and> only (insert a (insert head (set (cells_of ls)))) s s'"
proof -
  have ring: "ring (links s) head (map fst ls)" and at: "lists_at K s ls" and dist: "distinct (head # cells_of ls)"
    using n by (simp_all add: nested_def)
  have ai: "a < inner_head a"
    by (simp add: inner_head_def head_offset_def)
  have sub: "fst ` set ls \<subseteq> set (cells_of ls)"
    by (force simp: cells_of_def)
  have a_new: "a \<notin> insert head (set (map fst ls))"
    using new(1) sub by fastforce
  obtain h5 where h5: "list_add_tail a head (links s) = Some h5" "ring h5 head (map fst ls @ [a])"
    "same_except {a, last (head # map fst ls), head} (links s) h5"
    using list_add_tail_ring [OF ring a(2) a_new] by blast
  have "last (head # map fst ls) \<in> insert head (fst ` set ls)"
    using last_Cons_mem [of head "map fst ls"] by simp
  then have touched: "{a, last (head # map fst ls), head} \<subseteq> insert a (insert head (fst ` set ls))"
    by auto
  have s': "s' = s\<lparr>links := h5\<rparr>" "heap_ok s'" "only (insert a (insert head (set (cells_of ls)))) s s'"
    using l on_links_ring [of "list_add_tail a head" s h5, OF h5(1,3) ok] touched sub by auto
  have same: "links s' c = links s c" if "c \<notin> insert a (insert head (fst ` set ls))" for c
    using same_exceptD(1) [OF h5(3), of c] touched that s'(1) by auto
  have "lists_at K s' ls"
  proof (rule lists_at_links [OF at])
    fix b xs qs c
    assume b: "(b, xs, qs) \<in> set ls" "c \<in> insert (inner_head b) (set xs)"
    then have c: "c \<in> set (cells_of ls)"
      using in_cells_of [OF b(1)] by auto
    have "c \<noteq> a"
      using new(1) [of c] c by auto
    moreover have "c \<noteq> head"
      using dist c by auto
    moreover have "c \<notin> fst ` set ls"
      using cells_apart [OF _ b] dist by simp
    ultimately show "links s' c = links s c"
      by (intro same) simp
  qed (simp add: s'(1))
  moreover have "holds K s' (inner_head a) ys rs"
  proof -
    have "c \<notin> insert a (insert head (fst ` set ls))" if "c \<in> insert (inner_head a) (set ys)" for c
    proof -
      have "a < c" using that new(2) ai by auto
      moreover have "\<forall>b\<in>insert head (fst ` set ls). b < a"
        using new(1) sub by blast
      ultimately have "c \<notin> insert head (fst ` set ls)" "c \<noteq> a"
        using less_asym by blast+
      then show ?thesis
        by simp
    qed
    then have "ring (links s') (inner_head a) ys"
      using ring_agree [of "inner_head a" ys "links s'" "links s"] holds_ring [OF h] same by blast
    then show ?thesis
      using h s'(1) by (simp add: holds_def)
  qed
  moreover have "distinct (head # cells_of (ls @ [(a, ys, rs)]))"
  proof -
    have "distinct ys" "inner_head a \<notin> set ys"
      using ring_distinct [OF holds_ring [OF h]] by auto
    moreover have "c \<notin> set (a # inner_head a # ys)" if "c \<in> insert head (set (cells_of ls))" for c
      using new(1) [OF that] new(2) ai by auto
    ultimately show ?thesis
      using dist new(2) ai by auto
  qed
  ultimately show ?thesis
    using h5(2) a(1) s' by (simp add: nested_def lists_at_def)
qed

lemma collect_lists_keeps:
  assumes reads: "\<And>head s s'. read head s = Some (Done s') \<Longrightarrow> grows K head s s'"
    and computes: "\<And>cur prev xs ys s s'. ring (links s) cur xs \<Longrightarrow> ring (links s) prev ys \<Longrightarrow>
      compute cur prev s = Some (Done s') \<Longrightarrow> updates K (set xs) s s'"
    and run: "collect_lists read compute m s = Some (Done s')" and ok: "heap_ok s" and n: "nested K s (record_list m) ls"
  shows "\<exists>a ys rs. nested K s' (record_list m) (ls @ [(a, ys, rs)]) \<and> (\<forall>c\<in>set (a # inner_head a # ys). brk s \<le> c)
    \<and> heap_ok s' \<and> only (insert (record_list m) (set (cells_of ls))) s s'"
proof -
  let ?head = "record_list m"
  obtain a s1 where m: "malloc O_list_list s = (a, s1)"
    by (cases "malloc O_list_list s")
  obtain s2 s3 where s2: "on_links (INIT_LIST_HEAD (inner_head a)) s1 = Some s2"
    and s3: "read (inner_head a) s2 = Some (Done s3)" and rest: "bnd (total (list_empty ?head (links s3))) (\<lambda>empty.
      bnd (if empty then Some (Done s3)
           else bnd (total (rd_prev ?head (links s3))) (\<lambda>prev_list.
             compute (inner_head a) (inner_head prev_list) s3)) (\<lambda>s.
      total (on_links (list_add_tail a ?head) s))) = Some (Done s')"
    using run m by (auto simp: collect_lists_def bnd_Done_iff)
  obtain ys rs where ys: "holds K s3 (inner_head a) ys rs" "\<forall>y\<in>set ys. inner_head a < y" "brk s = a"
    "objs s3 a = Some O_list_list" "a \<in> dom (links s3)" "heap_ok s3" "only {} s s3"
    using new_reading [OF ok m s2 reads [OF s3]] by blast
  have n3: "nested K s3 ?head ls"
    by (rule nested_frame [OF ok n ys(7)]) simp
  have below: "c < a" if "c \<in> insert ?head (set (cells_of ls))" for c
    using nested_below [OF ok n that] ys(3) by simp
  have ai: "a < inner_head a"
    by (simp add: inner_head_def head_offset_def)
  obtain s4 where s4: "updates K (set ys) s3 s4" "on_links (list_add_tail a ?head) s4 = Some s'"
  proof (cases "ls = []")
    case True
    then have "list_empty ?head (links s3) = Some True"
      using n3 list_empty_ring [of "links s3" ?head "[]"] by (simp add: nested_def)
    then show thesis
      using that [OF updates_refl] rest by simp
  next
    case False
    then obtain us p xs qs where ls: "ls = us @ [(p, xs, qs)]"
      by (metis prod_cases3 rev_exhaust)
    have ring: "ring (links s3) ?head (map fst ls)"
      using n3 by (simp add: nested_def)
    have "ring (links s3) (inner_head p) xs"
      using n3 ls by (auto simp: nested_def lists_at_def intro: holds_ring)
    moreover have "list_empty ?head (links s3) = Some False" "rd_prev ?head (links s3) = Some p"
      using list_empty_ring [OF ring] ring_prev [OF ring] ls by simp_all
    then obtain s4 where "compute (inner_head a) (inner_head p) s3 = Some (Done s4)"
      "on_links (list_add_tail a ?head) s4 = Some s'"
      using rest by (auto simp: bnd_Done_iff)
    ultimately show thesis
      using that computes [OF holds_ring [OF ys(1)]] by blast
  qed
  have apart: "c \<notin> set ys" if "c \<in> insert ?head (set (cells_of ls))" for c
    using below [OF that] ys(2) ai by auto
  have n4: "nested K s4 ?head ls"
    by (rule nested_frame [OF ys(6) n3 updates_only [OF s4(1)]]) (use apart in auto)
  obtain rs' where h4: "holds K s4 (inner_head a) ys rs'"
    using updates_holds [OF s4(1) ys(1)] by blast
  have "objs s4 a = Some O_list_list"
  proof -
    have "a \<notin> set ys" using ys(2) ai by auto
    then show ?thesis
      using s4(1) ys(4) unfolding updates_def by metis
  qed
  moreover have "a \<in> dom (links s4)"
    using s4(1) ys(5) by (simp add: updates_def)
  ultimately have l: "nested K s' ?head (ls @ [(a, ys, rs')]) \<and> heap_ok s' \<and> only (insert a (insert ?head (set (cells_of ls)))) s4 s'"
    by (intro link_reading [OF updates_heap_ok [OF s4(1) ys(6)] n4 h4 _ _ below ys(2) s4(2)])
  have "only {} s s4"
    by (rule only_trans [OF ys(7) updates_only [OF s4(1)]]) (use ys(2,3) ai in auto)
  then have "only (insert ?head (set (cells_of ls))) s s4"
    by (rule only_mono) simp
  then have "only (insert ?head (set (cells_of ls))) s s'"
    by (rule only_trans [OF _ conjunct2 [OF conjunct2 [OF l]]]) (use ys(3) in auto)
  then show ?thesis
    using l ys(2,3) ai by (intro exI [of _ a] exI [of _ ys] exI [of _ rs']) auto
qed

end

end
