(* ===== verification/Tool_Rounds.thy ===== *)
theory Tool_Rounds
  imports Tool_Heap Mod_Frames
begin

text \<open>
  The rounds of the main loop on the heap of the program: whatever the machine answers, collecting
  and printing keep the lists of all modules intact, apart from each other and filled with
  records of the module's own type, so that the end of the program can free them.
\<close>

subsection \<open>Stores that collect\<close>

text \<open>
  A store of records with a function that collects into it. The list it leaves is made of cells it
  had before and of fresh ones; nothing else is written.
\<close>

locale collecting_stores = record_stores store free_all
  for store :: "'f \<Rightarrow> st \<Rightarrow> addr \<Rightarrow> addr set \<Rightarrow> addr set \<Rightarrow> bool" and free_all :: "'f \<Rightarrow> addr \<Rightarrow> st \<Rightarrow> st option" +
  fixes collect :: "'f \<Rightarrow> addr \<Rightarrow> st \<Rightarrow> (st, st) result"
  assumes collects: "heap_ok s \<Longrightarrow> store f s (record_list m) C B \<Longrightarrow> collect f m s = Some (Done s') \<Longrightarrow>
      \<exists>C' B'. store f s' (record_list m) C' B' \<and> (\<forall>c\<in>C'. c \<in> C \<or> brk s \<le> c) \<and> (\<forall>b\<in>B'. b \<in> B \<or> brk s \<le> b)
        \<and> heap_ok s' \<and> only (insert (record_list m) C) s s'"
begin

text \<open>The other stores stay, and the new cells are not theirs.\<close>

lemma collects_apart:
  assumes ok: "heap_ok s" and at: "store f s (record_list m) C B" and run: "collect f m s = Some (Done s')"
    and null: "NULL \<notin> B"
  shows "\<exists>C' B'. store f s' (record_list m) C' B' \<and> NULL \<notin> B' \<and> heap_ok s' \<and> only (insert (record_list m) C) s s'
    \<and> (\<forall>X. (\<forall>x\<in>X. x < brk s) \<longrightarrow> X \<inter> C = {} \<longrightarrow> X \<inter> C' = {})
    \<and> (\<forall>f' h D E. store f' s h D E \<longrightarrow> insert h D \<inter> insert (record_list m) C = {} \<longrightarrow>
        store f' s' h D E \<and> insert h D \<inter> C' = {})"
proof -
  obtain C' B' where new: "store f s' (record_list m) C' B'" "\<forall>c\<in>C'. c \<in> C \<or> brk s \<le> c" "\<forall>b\<in>B'. b \<in> B \<or> brk s \<le> b"
    "heap_ok s'" "only (insert (record_list m) C) s s'"
    using collects [OF ok at run] by blast
  have apart: "X \<inter> C' = {}" if "\<forall>x\<in>X. x < brk s" "X \<inter> C = {}" for X
    using that new(2) by fastforce
  have "0 < brk s"
    using ok by (simp add: heap_ok_def)
  then have "NULL \<notin> B'"
    using null new(3) by (auto simp: NULL_def)
  moreover have "insert h D \<inter> C' = {}" if "store f' s h D E" "insert h D \<inter> insert (record_list m) C = {}" for f' h D E
    using apart [of "insert h D"] store_below [OF ok that(1)] that(2) by blast
  moreover have "store f' s' h D E" if "store f' s h D E" "insert h D \<inter> insert (record_list m) C = {}" for f' h D E
    by (rule store_frame [OF ok that(1) new(5) that(2)])
  ultimately show ?thesis
    using new(1,4,5) apart by - (rule exI [of _ C'], rule exI [of _ B'], simp)
qed

end

text \<open>Both shapes of lists collect, by the frame lemmas of the modules.\<close>

lemma flat_at_collects:
  assumes "flat_kept K (record_list m) s s'" "heap_ok s" "flat_at K s (record_list m) C B"
  shows "\<exists>C' B'. flat_at K s' (record_list m) C' B' \<and> (\<forall>c\<in>C'. c \<in> C \<or> brk s \<le> c) \<and> (\<forall>b\<in>B'. b \<in> B \<or> brk s \<le> b)
    \<and> heap_ok s' \<and> only (insert (record_list m) C) s s'"
  using assms unfolding flat_at_def flat_kept_def by metis

context record_kind begin

lemma nested_at_collects:
  assumes "\<And>head s s'. read head s = Some (Done s') \<Longrightarrow> grows K head s s'"
    and "\<And>cur prev xs ys s s'. ring (links s) cur xs \<Longrightarrow> ring (links s) prev ys \<Longrightarrow>
      compute cur prev s = Some (Done s') \<Longrightarrow> updates K (set xs) s s'"
    and "collect_lists read compute m s = Some (Done s')" "heap_ok s" "nested_at K s (record_list m) C B"
  shows "\<exists>C' B'. nested_at K s' (record_list m) C' B' \<and> (\<forall>c\<in>C'. c \<in> C \<or> brk s \<le> c) \<and> (\<forall>b\<in>B'. b \<in> B \<or> brk s \<le> b)
    \<and> heap_ok s' \<and> only (insert (record_list m) C) s s'"
proof -
  obtain ls where ls: "nested K s (record_list m) ls" "C = set (cells_of ls)" "B = blocks_of ls"
    using assms(5) by (auto simp: nested_at_def)
  obtain a ys rs where new: "nested K s' (record_list m) (ls @ [(a, ys, rs)])" "\<forall>c\<in>set (a # inner_head a # ys). brk s \<le> c"
    "heap_ok s'" "only (insert (record_list m) (set (cells_of ls))) s s'"
    using collect_lists_keeps [of read compute, OF _ _ assms(3,4) ls(1)] assms(1,2)
    by (elim meta_impE exE conjE) (assumption | rule that)+
  let ?ls = "ls @ [(a, ys, rs)]"
  have "nested_at K s' (record_list m) (set (cells_of ?ls)) (blocks_of ?ls)"
    using new(1) unfolding nested_at_def by blast
  moreover have "\<forall>c\<in>set (cells_of ?ls). c \<in> C \<or> brk s \<le> c" "\<forall>b\<in>blocks_of ?ls. b \<in> B \<or> brk s \<le> b"
    using new(2) by (auto simp: ls(2,3))
  ultimately show ?thesis
    using new(3,4) ls(2) by blast
qed

end


lemma dns_query_grows: "dns_query os head s = Some (Done s') \<Longrightarrow> grows O_dns head s s'"
  by (simp add: dns_query_def get_dns_grows)

lemma network_query_grows: "network_query os head s = Some (Done s') \<Longrightarrow> grows O_link head s s'"
  by (simp add: network_query_def get_network_grows)

lemma who_query_grows: "who_query os head s = Some (Done s') \<Longrightarrow> grows O_login head s s'"
  by (simp add: who_query_def get_login_user_grows)

lemma ip_query_grows: "ip_query os head s = Some (Done s') \<Longrightarrow> grows O_interface head s s'"
  by (simp add: ip_query_def get_ip_addr_grows)

lemma proc_compute_updates:
  "ring (links s) cur xs \<Longrightarrow> proc_compute cur prev s = Some (Done s') \<Longrightarrow> updates O_proc (set xs) s s'"
  by (simp add: proc_compute_def compute_proc_updates)

lemma io_collects:
  "io_collect_record os m s = Some (Done s') \<Longrightarrow> heap_ok s \<Longrightarrow> nested_at O_io s (record_list m) C B \<Longrightarrow>
    \<exists>C' B'. nested_at O_io s' (record_list m) C' B' \<and> (\<forall>c\<in>C'. c \<in> C \<or> brk s \<le> c) \<and> (\<forall>b\<in>B'. b \<in> B \<or> brk s \<le> b)
    \<and> heap_ok s' \<and> only (insert (record_list m) C) s s'"
  unfolding io_collect_record_def
  by (rule k_io.nested_at_collects [OF read_io_stat_grows compute_io_stat_updates])

lemma proc_collects:
  "proc_collect_record os m s = Some (Done s') \<Longrightarrow> heap_ok s \<Longrightarrow> nested_at O_proc s (record_list m) C B \<Longrightarrow>
    \<exists>C' B'. nested_at O_proc s' (record_list m) C' B' \<and> (\<forall>c\<in>C'. c \<in> C \<or> brk s \<le> c) \<and> (\<forall>b\<in>B'. b \<in> B \<or> brk s \<le> b)
    \<and> heap_ok s' \<and> only (insert (record_list m) C) s s'"
  unfolding proc_collect_record_def
  by (rule k_proc.nested_at_collects [OF get_all_proc_grows proc_compute_updates])

lemma dns_kept: "dns_collect_record os m s = Some (Done s') \<Longrightarrow> flat_kept O_dns (record_list m) s s'"
  unfolding dns_collect_record_def by (rule k_dns.collect_query_kept [OF dns_query_grows])

lemma fs_kept: "fs_collect_record os m s = Some (Done s') \<Longrightarrow> flat_kept O_fs (record_list m) s s'"
  unfolding fs_collect_record_def by (rule k_fs.collect_query_kept [OF read_fs_stat_grows])

lemma ip_kept: "ip_collect_record os m s = Some (Done s') \<Longrightarrow> flat_kept O_interface (record_list m) s s'"
  unfolding ip_collect_record_def by (rule k_interface.collect_query_kept [OF ip_query_grows])

lemma network_kept: "network_collect_record os m s = Some (Done s') \<Longrightarrow> flat_kept O_link (record_list m) s s'"
  unfolding network_collect_record_def by (rule k_link.collect_query_kept [OF network_query_grows])

lemma who_kept: "who_collect_record os m s = Some (Done s') \<Longrightarrow> flat_kept O_login (record_list m) s s'"
  unfolding who_collect_record_def by (rule k_login.collect_query_kept [OF who_query_grows])

lemma gateway_kept: "gateway_collect_record os m s = Some (Done s') \<Longrightarrow> flat_kept O_gateway (record_list m) s s'"
  unfolding gateway_collect_record_def by (rule gateway_module.collect_single_kept)

lemma load_avg_kept: "load_avg_collect_record os m s = Some (Done s') \<Longrightarrow> flat_kept O_load (record_list m) s s'"
  unfolding load_avg_collect_record_def by (rule load_avg_module.collect_single_kept)

lemma mem_kept: "mem_collect_record os m s = Some (Done s') \<Longrightarrow> flat_kept O_mem (record_list m) s s'"
  unfolding mem_collect_record_def by (rule mem_module.collect_single_kept)

lemma swap_kept: "swap_collect_record os m s = Some (Done s') \<Longrightarrow> flat_kept O_swap (record_list m) s s'"
  unfolding swap_collect_record_def by (rule swap_module.collect_single_kept)

lemma time_kept: "time_collect_record os m s = Some (Done s') \<Longrightarrow> flat_kept O_time (record_list m) s s'"
  unfolding time_collect_record_def by (rule time_module.collect_single_kept)

lemma uptime_kept: "uptime_collect_record os m s = Some (Done s') \<Longrightarrow> flat_kept O_uptime (record_list m) s s'"
  unfolding uptime_collect_record_def by (rule uptime_module.collect_single_kept)

lemmas flat_collects = flat_at_collects [OF grows_flat_kept [OF cpu_collect_grows]]
  flat_at_collects [OF dns_kept] flat_at_collects [OF fs_kept] flat_at_collects [OF ip_kept] flat_at_collects [OF network_kept]
  flat_at_collects [OF who_kept] flat_at_collects [OF gateway_kept] flat_at_collects [OF load_avg_kept] flat_at_collects [OF mem_kept]
  flat_at_collects [OF swap_kept] flat_at_collects [OF time_kept] flat_at_collects [OF uptime_kept]

lemma mod_collects:
  assumes "heap_ok s" "list_at f s (record_list m) C B" "mod_collect_record os f m s = Some (Done s')"
  shows "\<exists>C' B'. list_at f s' (record_list m) C' B' \<and> (\<forall>c\<in>C'. c \<in> C \<or> brk s \<le> c) \<and> (\<forall>b\<in>B'. b \<in> B \<or> brk s \<le> b)
    \<and> heap_ok s' \<and> only (insert (record_list m) C) s s'"
  using assms
  by (cases f) (simp_all only: list_at.simps mod_collect_record.simps, (rule flat_collects io_collects proc_collects; assumption)+)

interpretation collectors: collecting_stores list_at mod_free_record_list "mod_collect_record os" for os
  by unfold_locales (rule mod_collects)

subsection \<open>Loops over the modules that may stop\<close>

text \<open>What a loop over the modules keeps as it goes on holds when it has seen all of them.\<close>

lemma each_module_ends:
  assumes k0: "reached 0 s" and ring: "\<And>k t. reached k t \<Longrightarrow> ring (links t) MOD_LIST_HEAD xs"
    and step: "\<And>k t t'. k < length xs \<Longrightarrow> reached k t \<Longrightarrow> body (xs ! k) t = Some (Next t') \<Longrightarrow> reached (Suc k) t'"
    and leave: "\<And>c. list_for_each_entry body links MOD_LIST_HEAD s \<noteq> Some (Leave (Done c))"
    and run: "each_module body s = Some (Done s')"
  shows "reached (length xs) s'"
proof -
  let ?keep = "\<lambda>ys t. \<exists>k \<le> length xs. ys = drop k xs \<and> reached k t"
  have loop: "list_for_each_entry body links MOD_LIST_HEAD s = Some (Next s')"
    using run leave [of s'] by (auto simp: each_module_def elim: ctl.exhaust split: ctl.splits) (metis ctl.exhaust)
  have k0': "?keep xs s"
    using k0 by (intro exI [of _ 0]) simp
  have ring': "ring (links t) MOD_LIST_HEAD xs" if "?keep ys t" for ys t
    using that ring by blast
  have step': "?keep ys t'" if k: "?keep (y # ys) t" and b: "body y t = Some (Next t')" for y ys t t'
  proof -
    from k obtain k where k: "k \<le> length xs" "y # ys = drop k xs" "reached k t"
      by blast
    then have "k < length xs" "y = xs ! k" "ys = drop (Suc k) xs"
      by (metis drop_all linorder_le_less_linear list.distinct(1), metis nth_via_drop, metis drop_Suc drop_tl list.sel(3))
    then show ?thesis
      using step [OF _ k(3)] b by (metis Suc_leI)
  qed
  have "?keep [] s'"
    by (rule list_for_each_entry_ends [of ?keep, OF k0' ring' step' loop])
  then obtain k where "k \<le> length xs" "[] = drop k xs" "reached k s'"
    by (elim exE conjE) (rule that)
  then show ?thesis
    by simp
qed

text \<open>A loop whose body never returns from the function does not end by returning.\<close>

lemma each_from_result:
  "each_from body lk p x t = Some c \<Longrightarrow> (\<forall>x t r. body x t = Some (Leave r) \<longrightarrow> P r) \<longrightarrow> (\<forall>r. c = Leave r \<longrightarrow> P r)"
  by (induct rule: each_from.raw_induct [rotated, consumes 1]) (auto split: option.splits ctl.splits if_splits)

lemma list_for_each_entry_Leave:
  assumes "\<And>x t r. body x t = Some (Leave r) \<Longrightarrow> P r" "list_for_each_entry body lk p s = Some (Leave r)"
  shows "P r"
  using each_from_result [where P = P] assms by (fastforce simp: list_for_each_entry_def split: option.splits)

subsection \<open>Collecting keeps the heap of the program\<close>

text \<open>Each module collects with the function of the file that also frees its records.\<close>

definition own_functions :: "module_t list \<Rightarrow> bool" where
  "own_functions ms \<longleftrightarrow> (\<forall>md\<in>set ms. fn_collect_record md = fn_free_record_list md)"

lemma module_ring_apart:
  assumes "module_ring s xs ms" "i < length xs" "j < length xs"
  shows "record_list (xs ! i) \<noteq> xs ! j" "record_list (xs ! i) \<noteq> MOD_LIST_HEAD"
    "i \<noteq> j \<Longrightarrow> record_list (xs ! i) \<noteq> record_list (xs ! j)"
proof -
  have sorted: "sorted_wrt (\<lambda>x y. x + 1048976 \<le> y) xs" and above: "\<forall>x\<in>set xs. MOD_LIST_HEAD < x"
    using assms(1) by (simp_all add: module_ring_def)
  have far: "i < j \<Longrightarrow> xs ! i + 1048976 \<le> xs ! j" "j < i \<Longrightarrow> xs ! j + 1048976 \<le> xs ! i"
    using sorted assms(2,3) by (auto simp: sorted_wrt_iff_nth_less)
  show "record_list (xs ! i) \<noteq> xs ! j" "i \<noteq> j \<Longrightarrow> record_list (xs ! i) \<noteq> record_list (xs ! j)"
    using far by (cases i j rule: linorder_cases; simp add: record_list_def record_list_offset_def)+
  show "record_list (xs ! i) \<noteq> MOD_LIST_HEAD"
    using above assms(2) nth_mem by (fastforce simp: record_list_def)
qed

lemma module_cells_below:
  assumes "program_heap s xs ms cs" "c \<in> insert MOD_LIST_HEAD (set xs \<union> record_list ` set xs)"
  shows "c < brk s"
proof -
  note p = program_heapD [OF assms(1)]
  have "c < brk s" if "c \<in> record_list ` set xs"
    using that stores.store_below [OF p(1) p(4)] by (auto simp: in_set_conv_nth)
  moreover have "c < brk s" if "c \<in> insert MOD_LIST_HEAD (set xs)"
    using p(2) holds_below [where K = O_module, OF p(1) _ that] by (auto simp: module_ring_def)
  ultimately show ?thesis
    using assms(2) by auto
qed

lemma go_on_iff:
  "go_on r = Some (Next s) \<longleftrightarrow> r = Some (Done s)"
  "go_on r = Some (Leave q) \<Longrightarrow> q \<noteq> Done s"
  by (cases r; cases "the r"; auto simp: go_on_def)+

lemma collect_step:
  assumes p: "program_heap s xs ms cs" and k: "k < length xs" and own: "own_functions ms"
    and run: "collect_body os (xs ! k) s = Some (Next s')"
  shows "\<exists>C B. program_heap s' xs ms (cs[k := (C, B)])"
proof -
  note d = program_heapD [OF p]
  let ?m = "xs ! k" and ?F = "insert (record_list (xs ! k)) (fst (cs ! k))"
  have len: "length ms = length xs"
    using module_ring_objs(1) [OF d(2)] .
  have at: "list_at (fn_collect_record (ms ! k)) s (record_list ?m) (fst (cs ! k)) (snd (cs ! k))"
    using d(4) [OF k] own nth_mem [of k ms] k len by (simp add: own_functions_def)
  have "mod_collect_record os (fn_collect_record (ms ! k)) ?m s = Some (Done s')"
    using run module_ring_at [OF d(2) k] by (simp add: collect_body_def go_on_iff)
  from collectors.collects_apart [OF d(1) at this d(5) [OF k]]
  obtain C B where new: "list_at (fn_collect_record (ms ! k)) s' (record_list ?m) C B" "NULL \<notin> B" "heap_ok s'"
      "only ?F s s'" "\<And>X. \<forall>x\<in>X. x < brk s \<Longrightarrow> X \<inter> fst (cs ! k) = {} \<Longrightarrow> X \<inter> C = {}"
    and others: "\<And>f h D E. list_at f s h D E \<Longrightarrow> insert h D \<inter> ?F = {} \<Longrightarrow> list_at f s' h D E \<and> insert h D \<inter> C = {}"
    by (elim exE conjE) (rule that, assumption+, simp_all)
  let ?M = "insert MOD_LIST_HEAD (set xs \<union> record_list ` set xs)" and ?cs = "cs[k := (C, B)]"
  have "record_list ?m \<notin> set xs" "record_list ?m \<noteq> MOD_LIST_HEAD"
    using module_ring_apart(1) [OF d(2) k] module_ring_apart(2) [OF d(2) k k] by (metis in_set_conv_nth)+
  then have "?F \<inter> insert MOD_LIST_HEAD (set xs) = {}"
    using d(6) [OF k] by blast
  then have ring: "module_ring s' xs ms"
    by (rule module_ring_frame [OF d(1,2) new(4)])
  have "C \<inter> ?M = {}"
    using new(5) [of ?M] module_cells_below [OF p] d(6) [OF k] by blast
  moreover have other: "list_at (fn_free_record_list (ms ! i)) s' (record_list (xs ! i)) (fst (cs ! i)) (snd (cs ! i))
      \<and> fst (cs ! i) \<inter> C = {}" if "i < length xs" "i \<noteq> k" for i
  proof -
    have "insert (record_list (xs ! i)) (fst (cs ! i)) \<inter> ?F = {}"
      using d(6) [OF k] d(6) [OF that(1)] d(7) [OF that(1) k] module_ring_apart(3) [OF d(2) that(1) k] that k nth_mem
      by blast
    then show ?thesis
      using others [OF d(4) [OF that(1)]] by blast
  qed
  moreover have "fn_free_record_list (ms ! k) = fn_collect_record (ms ! k)"
    using own nth_mem [of k ms] k len by (simp add: own_functions_def)
  ultimately have "program_heap s' xs ms ?cs"
    using new(1-3) ring d(3,5,6,7) k by (auto simp: program_heap_def nth_list_update)
  then show ?thesis by blast
qed

lemma program_heap_ring: "program_heap s xs ms cs \<Longrightarrow> ring (links s) MOD_LIST_HEAD xs"
  by (simp add: program_heap_def module_ring_def holds_def)

lemma collect_record_keeps:
  assumes p: "program_heap s xs ms cs" and own: "own_functions ms" and run: "collect_record os s = Some (Done s')"
  shows "\<exists>cs'. program_heap s' xs ms cs'"
proof (rule each_module_ends [of "\<lambda>k t. \<exists>cs'. program_heap t xs ms cs'" s xs "collect_body os" s'])
  show "\<exists>cs'. program_heap s xs ms cs'"
    using p by blast
  show "ring (links t) MOD_LIST_HEAD xs" if "\<exists>cs'. program_heap t xs ms cs'" for k t
    using that program_heap_ring by blast
  show "\<exists>cs'. program_heap t' xs ms cs'"
    if "k < length xs" "\<exists>cs'. program_heap t xs ms cs'" "collect_body os (xs ! k) t = Some (Next t')" for k t t'
    using that collect_step own by blast
  show "list_for_each_entry (collect_body os) links MOD_LIST_HEAD s \<noteq> Some (Leave (Done c))" for c
    using list_for_each_entry_Leave [of "collect_body os" "\<lambda>r. r \<noteq> Done c"]
    by (fastforce simp: collect_body_def split: bind_splits dest: go_on_iff(2))
  show "each_module (collect_body os) s = Some (Done s')"
    using run by (simp add: collect_record_def)
qed

subsection \<open>Printing keeps the heap of the program\<close>

lemma to_str_stores:
  assumes "to_str rep m s = Some (n, s')" "objs s m = Some (O_module md)"
  shows "\<exists>w. s' = with_record m md w s"
proof -
  have "s' = s \<or> (\<exists>w. set_obj m (O_module (md\<lparr>mod_record := w\<rparr>)) s = Some s')"
    using assms by (auto simp: to_str_def obj_at_def as_module_def split: bind_splits if_splits)
  moreover have "with_record m md (mod_record md) s = s"
    using assms(2) by (simp add: with_record_def map_upd_triv)
  ultimately show ?thesis
    using assms(2) by (metis (no_types) set_obj_def option.distinct(1) option.inject with_record_def option.simps(5))
qed

lemma record_to_str_stores:
  assumes "mod_record_to_str f m s = Some (n, s')" "objs s m = Some (O_module md)"
  shows "\<exists>w. s' = with_record m md w s"
proof -
  have "\<exists>rep. mod_record_to_str f m s = to_str rep m s"
    by (cases f) (auto simp: to_str_all_def to_str_last_def to_str_last_list_def cpu_record_to_str_def dns_record_to_str_def
        fs_record_to_str_def gateway_record_to_str_def io_record_to_str_def ip_record_to_str_def load_avg_record_to_str_def
        mem_record_to_str_def network_record_to_str_def proc_record_to_str_def swap_record_to_str_def
        time_record_to_str_def uptime_record_to_str_def who_record_to_str_def)
  then show ?thesis
    using to_str_stores assms by metis
qed

text \<open>A module's object may change, its place in the ring and the lists stay.\<close>

lemma module_changes:
  assumes p: "program_heap s xs ms cs" and k: "k < length xs"
    and s': "links s' = links s" "objs s' = (objs s)(xs ! k \<mapsto> O_module md)" "brk s' = brk s"
    and free: "fn_free_record_list md = fn_free_record_list (ms ! k)"
  shows "program_heap s' xs (ms[k := md]) cs"
proof -
  note d = program_heapD [OF p] and mr = module_ring_objs [OF program_heapD(2) [OF p]]
  have only: "only {xs ! k} s s'"
    using s' by (simp add: only_def)
  have ok: "heap_ok s'"
  proof -
    have "xs ! k + obj_size (O_module (ms ! k)) \<le> brk s"
      using d(1) mr(3) [OF k] unfolding heap_ok_def by blast
    then show ?thesis
      using d(1) by (auto simp: heap_ok_def s')
  qed
  have "map (objs s') xs = map (\<lambda>r. Some (O_module r)) (ms[k := md])"
  proof (rule nth_equalityI)
    show "map (objs s') xs ! i = map (\<lambda>r. Some (O_module r)) (ms[k := md]) ! i" if "i < length (map (objs s') xs)" for i
      using that mr k nth_eq_iff_index_eq [OF mr(2), of k i] by (cases "i = k") (auto simp: s')
  qed (simp add: mr(1))
  then have ring: "module_ring s' xs (ms[k := md])"
    using d(2) by (simp add: module_ring_def holds_def s'(1))
  have "list_at f s' (record_list (xs ! i)) (fst (cs ! i)) (snd (cs ! i))"
    if "i < length xs" "list_at f s (record_list (xs ! i)) (fst (cs ! i)) (snd (cs ! i))" for f i
  proof (rule stores.store_frame [OF d(1) that(2) only])
    show "insert (record_list (xs ! i)) (fst (cs ! i)) \<inter> {xs ! k} = {}"
      using d(6) [OF that(1)] module_ring_apart(1) [OF d(2) that(1) k] nth_mem [OF k] by auto
  qed
  then show "program_heap s' xs (ms[k := md]) cs"
    using ok ring d(3-7) mr(1) k free by (auto simp: program_heap_def nth_list_update)
qed

text \<open>A module apart from its report.\<close>

definition plain :: "module_t list \<Rightarrow> module_t list" where
  "plain ms = map (\<lambda>md. md\<lparr>mod_record := ''''\<rparr>) ms"

lemma plain_update: "k < length ms \<Longrightarrow> plain (ms[k := (ms ! k)\<lparr>mod_record := w\<rparr>]) = plain ms"
  by (rule nth_equalityI) (auto simp: plain_def nth_list_update)

lemma own_functions_plain: "own_functions (plain ms) = own_functions ms"
  by (simp add: own_functions_def plain_def)

lemma print_step:
  assumes p: "program_heap s xs ms cs" and k: "k < length xs" and run: "print_body (xs ! k) s = Some (Next s')"
  shows "\<exists>w. program_heap s' xs (ms[k := (ms ! k)\<lparr>mod_record := w\<rparr>]) cs"
proof -
  note d = program_heapD [OF p] and mr = module_ring_objs [OF program_heapD(2) [OF p]]
  note md = module_ring_at [OF d(2) k]
  show ?thesis
  proof (cases "enable (ms ! k) = 0")
    case True
    then have "s' = s"
      using run md by (simp add: print_body_def)
    moreover have "ms[k := (ms ! k)\<lparr>mod_record := mod_record (ms ! k)\<rparr>] = ms"
      by simp
    ultimately show ?thesis
      using p by metis
  next
    case False
    then obtain n t u where t: "mod_record_to_str (fn_record_to_str (ms ! k)) (xs ! k) s = Some (n, t)" "s' = fputs_out u t"
      using run md by (auto simp: print_body_def split: bind_splits)
    obtain w where "t = with_record (xs ! k) (ms ! k) w s"
      using record_to_str_stores [OF t(1) mr(3) [OF k]] by blast
    then have "program_heap s' xs (ms[k := (ms ! k)\<lparr>mod_record := w\<rparr>]) cs"
      by (intro module_changes [OF p k]) (simp_all add: t(2) fputs_out_def with_record_def)
    then show ?thesis by blast
  qed
qed

text \<open>The modules as they are, apart from their reports, with intact lists.\<close>

definition running :: "addr list \<Rightarrow> module_t list \<Rightarrow> st \<Rightarrow> bool" where
  "running xs ms s \<longleftrightarrow> (\<exists>ms' cs. program_heap s xs ms' cs \<and> plain ms' = plain ms)"

lemma running_ring: "running xs ms s \<Longrightarrow> ring (links s) MOD_LIST_HEAD xs"
  using program_heap_ring by (auto simp: running_def)

lemma collect_record_running:
  assumes "running xs ms s" "own_functions ms" "collect_record os s = Some (Done s')"
  shows "running xs ms s'"
proof -
  obtain ms' cs where p: "program_heap s xs ms' cs" "plain ms' = plain ms"
    using assms(1) by (auto simp: running_def)
  then have "own_functions ms'"
    using assms(2) own_functions_plain by metis
  then show ?thesis
    using collect_record_keeps [OF p(1) _ assms(3)] p(2) by (auto simp: running_def)
qed

lemma print_mod_record_running:
  assumes "running xs ms s" "print_mod_record s = Some (Done s')"
  shows "running xs ms s'"
proof (rule each_module_ends [of "\<lambda>k. running xs ms" s xs print_body s'])
  show "running xs ms t'" if "k < length xs" "running xs ms t" "print_body (xs ! k) t = Some (Next t')" for k t t'
  proof -
    obtain ms' cs where p: "program_heap t xs ms' cs" "plain ms' = plain ms"
      using \<open>running xs ms t\<close> by (auto simp: running_def)
    obtain w where w: "program_heap t' xs (ms'[k := (ms' ! k)\<lparr>mod_record := w\<rparr>]) cs"
      using print_step [OF p(1) \<open>k < length xs\<close>] \<open>print_body (xs ! k) t = Some (Next t')\<close> by blast
    have "k < length ms'"
      using module_ring_objs(1) [OF program_heapD(2) [OF p(1)]] \<open>k < length xs\<close> by simp
    then show ?thesis
      using w p(2) plain_update unfolding running_def by metis
  qed
  show "list_for_each_entry print_body links MOD_LIST_HEAD s \<noteq> Some (Leave (Done c))" for c
    using list_for_each_entry_Leave [of print_body "\<lambda>r. r \<noteq> Done c"]
    by (fastforce simp: print_body_def split: bind_splits if_splits)
  show "each_module print_body s = Some (Done s')"
    using assms(2) by (simp add: print_mod_record_def)
qed (rule assms(1), rule running_ring)

lemma program_heap_sleep: "program_heap (sleep d s) xs ms cs = program_heap s xs ms cs"
proof -
  have "program_heap t xs ms cs" if "program_heap s xs ms cs" "links t = links s" "objs t = objs s" "brk t = brk s" for s t
  proof (cases "xs = []")
    case False
    then have k: "0 < length xs" by simp
    note mr = module_ring_objs [OF program_heapD(2) [OF that(1)]]
    have "program_heap t xs (ms[0 := ms ! 0]) cs"
      using that(2-4) mr(3) [OF k] by (intro module_changes [OF that(1) k]) (simp_all add: map_upd_triv)
    then show ?thesis by simp
  next
    case True
    then show ?thesis
      using that by (simp add: program_heap_def heap_ok_def module_ring_def holds_def)
  qed
  from this [of s "sleep d s"] this [of "sleep d s" s] show ?thesis
    by (auto simp: sleep_def)
qed

lemma round_once_running:
  assumes "running xs ms s" "own_functions ms" "round_once os d i s = Some (Done s')"
  shows "running xs ms s'"
proof -
  have start: "running xs ms (if i \<noteq> 1 then sleep d s else s)"
    using assms(1) by (simp add: running_def program_heap_sleep)
  obtain t where t: "collect_record os (if i \<noteq> 1 then sleep d s else s) = Some (Done t)" "print_mod_record t = Some (Done s')"
    using assms(3) unfolding round_once_def bnd_Done_iff by blast
  show ?thesis
    by (rule print_mod_record_running [OF collect_record_running [OF start assms(2) t(1)] t(2)])
qed

lemma rounds_running:
  "running xs ms s \<Longrightarrow> own_functions ms \<Longrightarrow> rounds os d n i s = Some (Done s') \<Longrightarrow> running xs ms s'"
proof (induction n arbitrary: i s)
  case (Suc n)
  then obtain t where "round_once os d (i + 1) s = Some (Done t)" "rounds os d n (i + 1) t = Some (Done s')"
    unfolding rounds.simps bnd_Done_iff by blast
  then show ?case
    using Suc.IH [OF round_once_running [OF Suc.prems(1,2)] Suc.prems(2)] by blast
qed simp




subsection \<open>A round on a bare machine\<close>

text \<open>
  A machine on which every file is missing but an empty \<open>/proc/stat\<close>, to run the whole program on.
  Its first round returns.
\<close>

definition bare_os :: os where
  "bare_os = quiet_os (\<lambda>_ path. if path = ''/proc/stat'' then Some '''' else None)"

lemma bare_os_simps [simp]:
  "os_file bare_os t path = (if path = ''/proc/stat'' then Some '''' else None)" "os_log_open bare_os t path"
  "os_clk_tck bare_os t = 100" "os_nameservers bare_os t = None" "os_mtab bare_os t = None" "os_ifaddrs bare_os t = None"
  "os_utmp bare_os t = []" "os_proc_dir bare_os t = None"
  by (simp_all add: bare_os_def quiet_os_def)

lemma bare_log: "\<exists>s'. print_log_l bare_os lvl title s = Some (Done s')"
  by (simp add: print_log_l_def print_log_def open_log_file_def Let_def split: option.split log_output_stream_t.split)

lemma bare_log_then: "\<exists>s'. bnd (print_log_l bare_os lvl title s) (\<lambda>s. Some (Done (r, s))) = Some (Done (r, s'))"
  using bare_log [of lvl title s] by auto

lemma bare_singles:
  "\<exists>s'. get_gateway bare_os r1 s = Some (Done (r1, s'))" "\<exists>s'. read_load_stat bare_os r2 s = Some (Done (r2, s'))"
  "\<exists>s'. read_mem_stat bare_os r3 s = Some (Done (r3, s'))" "\<exists>s'. read_swap_stat bare_os r4 s = Some (Done (r4, s'))"
  "\<exists>s'. read_uptime_stat bare_os r5 s = Some (Done (r5, s'))"
  by (simp_all add: get_gateway_def read_load_stat_def read_mem_stat_def read_swap_stat_def read_uptime_stat_def fopen_def
      bare_log_then)

lemma bare_lists:
  "\<exists>s'. read_io_stat bare_os head s = Some (Done s')" "\<exists>s'. get_all_proc bare_os head s = Some (Done s')"
  by (simp_all add: read_io_stat_def get_all_proc_def get_num_of_cpu_def get_HZ_def fopen_def Let_def
      fgets_all.simps fgets_def bare_log)

lemma bare_queries:
  "dns_query bare_os head s = Some (Done (tick s))" "ip_query bare_os head s = Some (Done (tick s))"
  "network_query bare_os head s = Some (Done (tick s))" "who_query bare_os head s = Some (Done (tick s))"
  "\<exists>s'. read_fs_stat bare_os head s = Some (Done s')"
  by (simp_all add: dns_query_def ip_query_def network_query_def who_query_def get_dns_def get_ip_addr_def get_network_def
      get_login_user_def read_fs_stat_def bare_log)

lemma flat_at_empty:
  "flat_at K s head {} {} \<longleftrightarrow> holds K s head [] []"
  "flat_at K s head C B \<Longrightarrow> ring (links s) head [] \<Longrightarrow> C = {} \<and> B = {}"
proof -
  show "flat_at K s head {} {} \<longleftrightarrow> holds K s head [] []"
    by (auto simp: flat_at_def holds_def)
  assume "flat_at K s head C B" "ring (links s) head []"
  then obtain xs where "ring (links s) head xs" "C = set xs" "B = set xs" "ring (links s) head []"
    by (auto simp: flat_at_def holds_def)
  then show "C = {} \<and> B = {}"
    using list_empty_ring [of "links s" head xs] list_empty_ring [of "links s" head "[]"] by auto
qed

context single_module begin

lemma bare_collect_single:
  assumes "\<And>r s. \<exists>s'. read os r s = Some (Done (r, s'))" "heap_ok s" "flat_at K s (record_list m) {} {}"
  shows "\<exists>s'. collect_single K un zero (read os) m s = Some (Done s')"
  using collect_single_holds [of s m "[]" "[]" os zero] assms flat_at_empty(1) by fastforce

end

context record_kind begin

lemma bare_collect_query:
  assumes "\<And>head s. \<exists>s'. query head s = Some (Done s')" "heap_ok s" "flat_at K s (record_list m) {} {}"
  shows "\<exists>s'. collect_query query m s = Some (Done s')"
  using clear_list_empties [of s m "[]"] assms flat_at_empty(1) [of K s] by (auto simp: collect_query_def holds_def)

lemma bare_collect_lists:
  assumes reads: "\<And>head s. \<exists>s'. read head s = Some (Done s')"
    and grows: "\<And>head s s'. read head s = Some (Done s') \<Longrightarrow> grows K head s s'"
    and ok: "heap_ok s" and at: "nested_at K s (record_list m) {} {}"
  shows "\<exists>s'. collect_lists read compute m s = Some (Done s')"
proof -
  have n: "nested K s (record_list m) []"
  proof -
    obtain ls where ls: "nested K s (record_list m) ls" "set (cells_of ls) = {}"
      using at by (auto simp: nested_at_def)
    then have "ls = []"
      by (cases ls) auto
    then show ?thesis using ls by simp
  qed
  obtain a s1 where m: "malloc O_list_list s = (a, s1)"
    by (cases "malloc O_list_list s")
  have "inner_head a \<in> dom (links s1)"
    using malloc_facts(4) [OF m] by (simp add: fresh_list_list)
  then obtain h where "INIT_LIST_HEAD (inner_head a) (links s1) = Some h"
    using INIT_LIST_HEAD_ring [of "inner_head a" "links s1"] by auto
  then have s2: "on_links (INIT_LIST_HEAD (inner_head a)) s1 = Some (s1\<lparr>links := h\<rparr>)"
    by (simp add: on_links_def)
  obtain s3 where s3: "read (inner_head a) (s1\<lparr>links := h\<rparr>) = Some (Done s3)"
    using reads by blast
  obtain ys rs where ys: "a \<in> dom (links s3)" "heap_ok s3" "only {} s s3" "brk s = a"
    using new_reading [OF ok m s2 grows [OF s3]] by blast
  have "ring (links s3) (record_list m) []"
    using nested_frame [OF ok n ys(3)] by (simp add: nested_def)
  moreover have "record_list m \<noteq> a"
    using nested_below [OF ok n] ys(4) by fastforce
  ultimately obtain s4 where "on_links (list_add_tail a (record_list m)) s3 = Some s4"
      "list_empty (record_list m) (links s3) = Some True"
    using list_add_tail_ring [of "links s3" "record_list m" "[]" a] ys(1) list_empty_ring [of "links s3" "record_list m" "[]"]
    by (auto simp: on_links_def)
  then show ?thesis
    using m s2 s3 by (simp add: collect_lists_def)
qed

end

lemma bare_collects:
  assumes ok: "heap_ok s" and "list_at f s (record_list m) {} {}"
  shows "\<exists>s'. mod_collect_record bare_os f m s = Some (Done s')"
proof -
  have cpu: "\<exists>s'. cpu_collect_record bare_os m s = Some (Done s')" if "flat_at O_cpu s (record_list m) {} {}"
    using cpu_collect_appends [of s m "[]" "[]" bare_os "''''"] ok that flat_at_empty(1) by fastforce
  have "\<exists>s'. set_sys_time bare_os zero_time t = Some (Done (zero_time, s'))" for t
    by (simp add: set_sys_time_def get_sys_time_def bare_os_def quiet_os_def zero_time_def)
  then have time: "\<exists>s'. time_collect_record bare_os m s = Some (Done s')" if "flat_at O_time s (record_list m) {} {}"
    using time_module.collect_single_holds [of s m "[]" "[]" bare_os zero_time] ok that flat_at_empty(1)
    unfolding time_collect_record_def by fastforce
  have dns: "\<exists>s'. dns_collect_record bare_os m s = Some (Done s')" if "flat_at O_dns s (record_list m) {} {}"
    using that unfolding dns_collect_record_def by - (rule k_dns.bare_collect_query [OF _ ok]; simp add: bare_queries)
  have fs: "\<exists>s'. fs_collect_record bare_os m s = Some (Done s')" if "flat_at O_fs s (record_list m) {} {}"
    using that unfolding fs_collect_record_def by - (rule k_fs.bare_collect_query [OF _ ok]; simp add: bare_queries)
  have ip: "\<exists>s'. ip_collect_record bare_os m s = Some (Done s')" if "flat_at O_interface s (record_list m) {} {}"
    using that unfolding ip_collect_record_def by - (rule k_interface.bare_collect_query [OF _ ok]; simp add: bare_queries)
  have network: "\<exists>s'. network_collect_record bare_os m s = Some (Done s')" if "flat_at O_link s (record_list m) {} {}"
    using that unfolding network_collect_record_def by - (rule k_link.bare_collect_query [OF _ ok]; simp add: bare_queries)
  have who: "\<exists>s'. who_collect_record bare_os m s = Some (Done s')" if "flat_at O_login s (record_list m) {} {}"
    using that unfolding who_collect_record_def by - (rule k_login.bare_collect_query [OF _ ok]; simp add: bare_queries)
  have gateway: "\<exists>s'. gateway_collect_record bare_os m s = Some (Done s')" if "flat_at O_gateway s (record_list m) {} {}"
    using that unfolding gateway_collect_record_def by - (rule gateway_module.bare_collect_single [OF bare_singles(1) ok])
  have load_avg: "\<exists>s'. load_avg_collect_record bare_os m s = Some (Done s')" if "flat_at O_load s (record_list m) {} {}"
    using that unfolding load_avg_collect_record_def by - (rule load_avg_module.bare_collect_single [OF bare_singles(2) ok])
  have mem: "\<exists>s'. mem_collect_record bare_os m s = Some (Done s')" if "flat_at O_mem s (record_list m) {} {}"
    using that unfolding mem_collect_record_def by - (rule mem_module.bare_collect_single [OF bare_singles(3) ok])
  have swap: "\<exists>s'. swap_collect_record bare_os m s = Some (Done s')" if "flat_at O_swap s (record_list m) {} {}"
    using that unfolding swap_collect_record_def by - (rule swap_module.bare_collect_single [OF bare_singles(4) ok])
  have uptime: "\<exists>s'. uptime_collect_record bare_os m s = Some (Done s')" if "flat_at O_uptime s (record_list m) {} {}"
    using that unfolding uptime_collect_record_def by - (rule uptime_module.bare_collect_single [OF bare_singles(5) ok])
  have io: "\<exists>s'. io_collect_record bare_os m s = Some (Done s')" if "nested_at O_io s (record_list m) {} {}"
    using that unfolding io_collect_record_def by - (rule k_io.bare_collect_lists [OF bare_lists(1) read_io_stat_grows ok])
  have proc: "\<exists>s'. proc_collect_record bare_os m s = Some (Done s')" if "nested_at O_proc s (record_list m) {} {}"
    using that unfolding proc_collect_record_def by - (rule k_proc.bare_collect_lists [OF bare_lists(2) get_all_proc_grows ok])
  note all = cpu time dns fs ip network who gateway load_avg mem swap uptime io proc
  show ?thesis
    using assms(2) all by (cases f) simp_all
qed

lemma bare_dns_empty:
  assumes "heap_ok s" "flat_at O_dns s (record_list m) {} {}" "dns_collect_record bare_os m s = Some (Done s')"
  shows "ring (links s') (record_list m) []"
  using clear_list_empties [of s m "[]"] assms flat_at_empty(1) [of O_dns s]
  by (auto simp: dns_collect_record_def collect_query_def holds_def bare_queries tick_def)

text \<open>When the modules have registered the heap is one of a program, with no record.\<close>

lemma flat_at_nil: "ring (links s) head [] \<Longrightarrow> flat_at K s head {} {}"
  by (simp add: flat_at_empty(1) holds_def)

lemma nested_at_nil: "ring (links s) head [] \<Longrightarrow> nested_at K s head {} {}"
  unfolding nested_at_def by (intro exI [of _ "[]"]) (simp add: nested_def)

lemma list_at_nil: "ring (links s) head [] \<Longrightarrow> list_at f s head {} {}"
  by (cases f) (simp_all add: flat_at_nil nested_at_nil)

lemma tool_state_heap:
  assumes "tool_state E s"
  shows "\<exists>xs. program_heap s xs (flags E) (replicate (length xs) ({}, {}))"
proof -
  obtain xs where m: "heap_ok s" "modules s xs (flags E)"
    using assms by (auto simp: tool_state_def)
  have "list_at f s (record_list (xs ! i)) {} {}" if "i < length xs" for f i
    using m(2) nth_mem [OF that] list_at_nil unfolding modules_def by blast
  then show ?thesis
    using m by (auto simp: program_heap_def modules_def)
qed

lemma own_functions_flags: "own_functions (flags E)"
  by (simp add: own_functions_def flags_def registered_def zero_module_def)

lemma bare_collect_step:
  assumes p: "program_heap t xs ms cs" "\<And>i. i < length xs \<Longrightarrow> k \<le> i \<or> fn_collect_record (ms ! i) = M_dns \<Longrightarrow> cs ! i = ({}, {})"
    and own: "own_functions ms" and k: "k < length xs"
  shows "\<exists>t' cs'. collect_body bare_os (xs ! k) t = Some (Next t') \<and> program_heap t' xs ms cs'
    \<and> (\<forall>i<length xs. Suc k \<le> i \<or> fn_collect_record (ms ! i) = M_dns \<longrightarrow> cs' ! i = ({}, {}))"
proof -
  note d = program_heapD [OF p(1)]
  let ?f = "fn_collect_record (ms ! k)"
  have "length ms = length xs"
    using module_ring_objs(1) [OF d(2)] .
  then have f: "fn_free_record_list (ms ! k) = ?f"
    using own nth_mem [of k ms] k by (simp add: own_functions_def)
  then have at: "list_at ?f t (record_list (xs ! k)) {} {}"
    using d(4) [OF k] p(2) [OF k] by simp
  obtain t' where t': "mod_collect_record bare_os ?f (xs ! k) t = Some (Done t')"
    using bare_collects [OF d(1) at] by blast
  have run: "collect_body bare_os (xs ! k) t = Some (Next t')"
    using t' module_ring_at [OF d(2) k] by (simp add: collect_body_def go_on_iff)
  obtain C B where CB: "program_heap t' xs ms (cs[k := (C, B)])"
    using collect_step [OF p(1) k own run] by blast
  have "C = {} \<and> B = {}" if "?f = M_dns"
  proof -
    have "flat_at O_dns t' (record_list (xs ! k)) C B"
      using program_heapD(4) [OF CB k] d(3) k f that by simp
    moreover have "ring (links t') (record_list (xs ! k)) []"
      using bare_dns_empty [OF d(1), of "xs ! k" t'] at t' that by simp
    ultimately show ?thesis
      by (rule flat_at_empty(2))
  qed
  then have "(cs[k := (C, B)]) ! i = ({}, {})" if "i < length xs" "Suc k \<le> i \<or> fn_collect_record (ms ! i) = M_dns" for i
    using p(2) [of i] that d(3) by (cases "i = k") auto
  then show ?thesis
    using run CB by blast
qed

lemma bare_round:
  assumes "program_heap s xs (flags {M_dns}) (replicate (length xs) ({}, {}))"
  shows "\<exists>s'. round_once bare_os d 1 s = Some (Done s')"
proof -
  let ?ms = "flags {M_dns}"
  let ?reached = "\<lambda>k t. \<exists>cs. program_heap t xs ?ms cs
    \<and> (\<forall>i<length xs. k \<le> i \<or> fn_collect_record (?ms ! i) = M_dns \<longrightarrow> cs ! i = ({}, {}))"
  have "\<exists>t. collect_record bare_os s = Some (Done t) \<and> ?reached (length xs) t"
    unfolding collect_record_def
  proof (rule each_module_steps [of ?reached])
    show "?reached 0 s"
      using assms by (intro exI [of _ "replicate (length xs) ({}, {})"]) simp
    show "ring (links t) MOD_LIST_HEAD xs" if "?reached k t" for k t
      using that program_heap_ring by blast
    show "\<exists>t'. collect_body bare_os (xs ! k) t = Some (Next t') \<and> ?reached (Suc k) t'"
      if "k < length xs" "?reached k t" for k t
      using bare_collect_step [OF _ _ own_functions_flags that(1), of t] that(2) by blast
  qed
  then obtain t cs where t: "collect_record bare_os s = Some (Done t)" "program_heap t xs ?ms cs"
    "\<And>i. i < length xs \<Longrightarrow> fn_collect_record (?ms ! i) = M_dns \<Longrightarrow> cs ! i = ({}, {})"
    by blast
  note m = program_heapD [OF t(2)] and mr = module_ring_objs [OF program_heapD(2) [OF t(2)]]
  have "reports xs t (fn_record_to_str (?ms ! i)) (xs ! i) (mod_record (?ms ! i))"
    if i: "i < length xs" "enable (?ms ! i) \<noteq> 0" for i
  proof -
    have f: "mod_files ! i = M_dns" "i < length mod_files"
      using i mr(1) by (auto simp: flags_nth split: if_splits)
    then have fn: "?ms ! i = (registered M_dns)\<lparr>enable := 1\<rparr>"
      by (simp add: flags_nth)
    have "flat_at O_dns t (record_list (xs ! i)) {} {}"
      using m(4) [OF i(1)] t(3) [OF i(1)] fn by (simp add: registered_def zero_module_def)
    then have "ring (links t) (record_list (xs ! i)) []"
      by (simp add: flat_at_empty(1) holds_def)
    then show ?thesis
      using mr(3) [OF i(1)] unfolding fn
      by (intro report_stale [where rep = "\<lambda>md. report_entries sprintf_at as_dns dns_line (record_list (xs ! i)) (mod_record md)"])
         (simp_all add: registered_def zero_module_def dns_record_to_str_def to_str_all_def)
  qed
  then obtain s' where "print_mod_record t = Some (Done s')"
    using print_mod_record_run [OF m(2), of "\<lambda>i. mod_record (?ms ! i)"] by blast
  then show ?thesis
    using t(1) by (simp add: round_once_def)
qed

subsection \<open>The rounds and the end of the program\<close>

text \<open>
  C7. Collecting keeps the type of a module's list: whenever \<open>collect_record\<close> of a module returns, whatever the
  machine has answered, a list of the module's own records has become a list of the module's own records; its
  cells are old cells of the list or fresh memory, and no other memory is written. (With some
  answers it does not return: the program exits, or the result is undefined.)
\<close>

theorem collect_record_keeps_type:
  assumes "heap_ok s" "list_at f s (record_list m) C B" "mod_collect_record os f m s = Some (Done s')"
  shows "\<exists>C' B'. list_at f s' (record_list m) C' B' \<and> (\<forall>c\<in>C'. c \<in> C \<or> brk s \<le> c) \<and> (\<forall>b\<in>B'. b \<in> B \<or> brk s \<le> b)
    \<and> heap_ok s' \<and> only (insert (record_list m) C) s s'"
  by (rule mod_collects [OF assms])

theorem collect_record_keeps_type_witness:
  "\<exists>s' C B. mod_collect_record bare_os M_mem 4096 one_module = Some (Done s')
    \<and> list_at M_mem s' (record_list 4096) C B \<and> (\<forall>c\<in>C. c = 2000000 \<or> 3000000 \<le> c)"
proof -
  note p = program_heapD [OF one_module_heap]
  have at: "list_at M_mem one_module (record_list 4096) {2000000} {2000000}"
    using p(4) [of 0] by (simp add: registered_def zero_module_def)
  then obtain xs rs where h: "holds O_mem one_module (record_list 4096) xs rs" "set xs = {2000000}"
    by (auto simp: flat_at_def)
  have "length rs = 1"
    using holds_length [OF h(1)] ring_distinct [OF holds_ring [OF h(1)]] h(2) distinct_card [of xs] by simp
  then obtain s' where "mem_collect_record bare_os 4096 one_module = Some (Done s')"
    using mem_module.collect_single_holds [OF p(1) h(1), of bare_os "if rs = [] then zero_mem else hd rs"] bare_singles(3)
    unfolding mem_collect_record_def by auto
  then show ?thesis
    using collect_record_keeps_type [OF p(1) at, of bare_os] by (auto simp: one_module_def)
qed

text \<open>
  C5. The invariant of the main loop: if the modules are registered, collect with their own
  functions and have intact lists in memory of their own, then after any number of rounds
  that return, with any answers of the machine, it is so again: the same modules in the same
  order, with the same flags and functions, whose lists are intact, apart and hold records of
  the module's own type.
\<close>

theorem rounds_keep_program_heap:
  assumes "program_heap s xs ms cs" "own_functions ms" "rounds os d n i s = Some (Done s')"
  shows "\<exists>ms' cs'. program_heap s' xs ms' cs' \<and> plain ms' = plain ms"
proof -
  have "running xs ms s"
    using assms(1) unfolding running_def by blast
  then show ?thesis
    using rounds_running assms(2,3) unfolding running_def by blast
qed

lemma bare_boot:
  "\<exists>s xs. program_heap s xs (flags {M_dns}) (replicate (length xs) ({}, {}))"
proof -
  obtain s where "tool_state {} s"
    using loaded_tool_state [OF boot_heap_ok] by (auto simp: boot_def)
  moreover have "find (\<lambda>f. mod_opt_of f = mod_opt_of M_dns) mod_files = Some M_dns"
    unfolding mod_opt_of_inj by (simp add: mod_files_def)
  ultimately obtain s' where "tool_state {M_dns} s'"
    using enable_module_flags [of "{}" s "mod_opt_of M_dns"] by auto
  then show ?thesis
    using tool_state_heap by blast
qed

theorem rounds_keep_program_heap_witness:
  "\<exists>s xs s' ms cs. rounds bare_os 2 1 0 s = Some (Done s') \<and> program_heap s' xs ms cs \<and> plain ms = plain (flags {M_dns})"
proof -
  obtain s xs where s: "program_heap s xs (flags {M_dns}) (replicate (length xs) ({}, {}))"
    using bare_boot by blast
  obtain s' where "rounds bare_os 2 1 0 s = Some (Done s')"
    using bare_round [OF s, of 2] by auto
  then show ?thesis
    using rounds_keep_program_heap [OF s own_functions_flags] by blast
qed

text \<open>
  The end of \<open>main\<close> on the heap that the rounds leave.
\<close>

lemma program_ends:
  assumes "program_heap s xs ms cs"
  shows "\<exists>s'. bnd (free_record_list s) (\<lambda>s. bnd (total (FREE_MOD_LIST_HEAD s)) (\<lambda>s. Some (Done (0 :: int, s)))) = Some (Done (0, s'))
    \<and> (\<forall>(C, B)\<in>set cs. B \<inter> dom (objs s') = {}) \<and> set xs \<inter> dom (objs s') = {} \<and> ring (links s') MOD_LIST_HEAD []
    \<and> same_env s s'"
proof -
  obtain s' where s': "bnd (free_record_list s) (\<lambda>s. total (FREE_MOD_LIST_HEAD s)) = Some (Done s')"
    "\<forall>(C, B)\<in>set cs. B \<inter> dom (objs s') = {}" "set xs \<inter> dom (objs s') = {}" "ring (links s') MOD_LIST_HEAD []" "same_env s s'"
    using heap_given_back [OF assms] by blast
  then have "bnd (free_record_list s) (\<lambda>s. bnd (total (FREE_MOD_LIST_HEAD s)) (\<lambda>s. Some (Done (0 :: int, s)))) = Some (Done (0, s'))"
    by (auto simp: bnd_Done_iff)
  then show ?thesis
    using s'(2-5) by blast
qed

lemma main_runs:
  assumes "heap_ok s" "MOD_LIST_HEAD \<in> dom (links s)" "arguments_given evs"
    and "abs_options evs ({}, - 1, 2) = Inr (E, c, d)" "E \<noteq> {}" "0 < c"
  shows "\<exists>s1. tool_state E s1 \<and> same_env s s1 \<and>
    (case rounds os d (nat c) 0 s1 of
       None \<Rightarrow> main os evs s = None
     | Some (Exit code s2) \<Rightarrow> main os evs s = Some (Exit code s2)
     | Some (Done s2) \<Rightarrow> \<exists>xs ms cs s'. program_heap s2 xs ms cs \<and> plain ms = plain (flags E)
         \<and> main os evs s = Some (Done (0, s')) \<and> (\<forall>(C, B)\<in>set cs. B \<inter> dom (objs s') = {})
         \<and> set xs \<inter> dom (objs s') = {} \<and> ring (links s') MOD_LIST_HEAD [] \<and> same_env s2 s')"
proof -
  obtain s1 where s1: "tool_state E s1" "same_env s s1" and run: "main os evs s
      = bnd (rounds os d (nat c) 0 s1) (\<lambda>s. bnd (free_record_list s) (\<lambda>s.
          bnd (total (FREE_MOD_LIST_HEAD s)) (\<lambda>s. Some (Done (0, s)))))"
    using main_follows [OF assms(1-3), of os] assms(4-6) by auto
  obtain xs where p: "program_heap s1 xs (flags E) (replicate (length xs) ({}, {}))"
    using tool_state_heap [OF s1(1)] by blast
  then have r: "running xs (flags E) s1"
    unfolding running_def by blast
  have "\<exists>xs ms cs s'. program_heap s2 xs ms cs \<and> plain ms = plain (flags E)
      \<and> main os evs s = Some (Done (0, s')) \<and> (\<forall>(C, B)\<in>set cs. B \<inter> dom (objs s') = {})
      \<and> set xs \<inter> dom (objs s') = {} \<and> ring (links s') MOD_LIST_HEAD [] \<and> same_env s2 s'"
    if fin: "rounds os d (nat c) 0 s1 = Some (Done s2)" for s2
  proof -
    obtain ms cs where h: "program_heap s2 xs ms cs" "plain ms = plain (flags E)"
      using rounds_running [OF r own_functions_flags fin] by (auto simp: running_def)
    show ?thesis
      using program_ends [OF h(1)] h run fin by auto
  qed
  then show ?thesis
    using s1 run by (intro exI [of _ s1]) (auto split: option.split outcome.split)
qed

end
