(* ===== verification/Command_Line.thy ===== *)
theory Command_Line
  imports Tool_Rounds "HOL-Library.Sublist"
begin

text \<open>
  What \<open>getopt_long\<close> makes of the command line with the tables of \<open>zsr/tool_zsr.c\<close>: the options of
  the tool are answered with their letters, the options of the modules, which the tables do not
  contain, with a question mark. The whole program on its arguments.
\<close>

subsection \<open>The tables\<close>

datatype has_arg = no_argument | required_argument | optional_argument

definition longopts :: "(string \<times> has_arg \<times> char) list" where
  "longopts =
     [(''all'', no_argument, CHR ''a''),
      (''count'', required_argument, CHR ''c''),
      (''delay'', required_argument, CHR ''d''),
      (''list'', no_argument, CHR ''l''),
      (''load'', no_argument, CHR ''L''),
      (''help'', no_argument, CHR ''h'')]"

text \<open>It starts with a colon: \<open>getopt_long\<close> prints nothing and answers a missing argument with a colon.\<close>

definition optstring :: string where
  "optstring = ''::alLh::c:d:''"

fun strchr_arg :: "string \<Rightarrow> char \<Rightarrow> has_arg option" where
  "strchr_arg [] c = None"
| "strchr_arg (x # r) c =
     (if x = c then Some (case r of
          CHR '':'' # CHR '':'' # _ \<Rightarrow> optional_argument
        | CHR '':'' # _ \<Rightarrow> required_argument
        | _ \<Rightarrow> no_argument)
      else strchr_arg r c)"

definition short_option :: "char \<Rightarrow> has_arg option" where
  "short_option c = (if c = CHR '':'' then None else strchr_arg optstring c)"

text \<open>
  A long option may be abbreviated. The result \<open>None\<close> stands for no option and for several.
\<close>

definition long_option :: "string \<Rightarrow> (has_arg \<times> char) option" where
  "long_option w = (case find (\<lambda>(name, _). name = w) longopts of
       Some (_, r) \<Rightarrow> Some r
     | None \<Rightarrow> (case map snd (filter (\<lambda>(name, _). prefix w name) longopts) of
           [] \<Rightarrow> None
         | r # rs \<Rightarrow> if list_all (\<lambda>r'. r' = r) rs then Some r else None))"

subsection \<open>One call\<close>

text \<open>
  The state between two calls: the arguments from \<open>optind\<close> on, the rest of a group of short options
  (then \<open>optind\<close> is still at the group), the argument before \<open>optind\<close>, and the last argument
  that is not an option. \<open>getopt_long\<close> moves those behind the options it has seen, so
  that from the next call on it is such an argument that stands before \<open>optind\<close>.
\<close>

record getopt_t =
  rest :: "string list"
  nextchar :: string
  before :: string
  nonopt :: "string option"

definition getopt_start :: "string \<Rightarrow> string list \<Rightarrow> getopt_t" where
  "getopt_start prog args = \<lparr>rest = args, nextchar = '''', before = prog, nonopt = None\<rparr>"

definition argv_before :: "getopt_t \<Rightarrow> string" where
  "argv_before g = (case nonopt g of Some w \<Rightarrow> w | None \<Rightarrow> before g)"

definition nonoption :: "string \<Rightarrow> bool" where
  "nonoption w \<longleftrightarrow> (case w of CHR ''-'' # _ # _ \<Rightarrow> False | _ \<Rightarrow> True)"

definition skip_nonoptions :: "getopt_t \<Rightarrow> getopt_t" where
  "skip_nonoptions g =
     (let ws = takeWhile nonoption (rest g)
      in g\<lparr>rest := dropWhile nonoption (rest g), nonopt := if ws = [] then nonopt g else Some (last ws)\<rparr>)"

text \<open>The argument \<open>a\<close>, and \<open>x\<close> after it, are done.\<close>

definition past :: "string \<Rightarrow> string list \<Rightarrow> getopt_t \<Rightarrow> getopt_t" where
  "past a args g = g\<lparr>rest := args, nextchar := '''', before := a\<rparr>"

definition getopt_short :: "char \<Rightarrow> string \<Rightarrow> string \<Rightarrow> string list \<Rightarrow> getopt_t \<Rightarrow> getopt_event \<times> getopt_t" where
  "getopt_short c cs a args g =
     (let single = (\<lambda>opt. if cs = '''' then ((opt, None, Some a), past a args g)
        else ((opt, None, Some (argv_before g)), g\<lparr>rest := a # args, nextchar := cs\<rparr>))
      in case short_option c of
        None \<Rightarrow> single (CHR ''?'')
      | Some no_argument \<Rightarrow> single c
      | Some optional_argument \<Rightarrow> ((c, if cs \<noteq> '''' then Some cs else None, Some a), past a args g)
      | Some required_argument \<Rightarrow>
          if cs \<noteq> '''' then ((c, Some cs, Some a), past a args g)
          else (case args of
              [] \<Rightarrow> ((CHR '':'', None, Some a), past a [] g)
            | x # args \<Rightarrow> ((c, Some x, Some x), past x args g)))"

definition getopt_double :: "string \<Rightarrow> string list \<Rightarrow> getopt_t \<Rightarrow> getopt_event \<times> getopt_t" where
  "getopt_double a args g =
     (let name = takeWhile (\<lambda>c. c \<noteq> CHR ''='') (drop 2 a);
          val = dropWhile (\<lambda>c. c \<noteq> CHR ''='') (drop 2 a)
      in case long_option name of
        None \<Rightarrow> ((CHR ''?'', None, Some a), past a args g)
      | Some (arg, opt) \<Rightarrow>
          if val \<noteq> '''' then
            (if arg = no_argument then ((CHR ''?'', None, Some a), past a args g)
             else ((opt, Some (tl val), Some a), past a args g))
          else if arg = required_argument then
            (case args of
               [] \<Rightarrow> ((CHR '':'', None, Some a), past a [] g)
             | x # args \<Rightarrow> ((opt, Some x, Some x), past x args g))
          else ((opt, None, Some a), past a args g))"

text \<open>\<open>None\<close> is the answer \<open>-1\<close>.\<close>

definition getopt_long :: "getopt_t \<Rightarrow> (getopt_event \<times> getopt_t) option" where
  "getopt_long g =
     (case nextchar g of
        c # cs \<Rightarrow> (case rest g of [] \<Rightarrow> None | a # args \<Rightarrow> Some (getopt_short c cs a args g))
      | [] \<Rightarrow>
          (let g = skip_nonoptions g
           in case rest g of
             [] \<Rightarrow> None
           | a # args \<Rightarrow>
               if a = ''--'' then None
               else if take 2 a = ''--'' then Some (getopt_double a args g)
               else (case tl a of [] \<Rightarrow> None | c # cs \<Rightarrow> Some (getopt_short c cs a args g))))"

subsection \<open>All calls\<close>

text \<open>Every call gets further: in the arguments, or in the group it is in.\<close>

definition chars_left :: "string list \<Rightarrow> nat" where
  "chars_left ws = sum_list (map (\<lambda>w. Suc (length w)) ws)"

definition getopt_left :: "getopt_t \<Rightarrow> nat" where
  "getopt_left g = (if nextchar g = '''' then chars_left (rest g) else chars_left (tl (rest g)) + length (nextchar g))"

lemma chars_left_simps [simp]:
  "chars_left [] = 0" "chars_left (w # ws) = Suc (length w + chars_left ws)"
  by (simp_all add: chars_left_def)

lemma past_simps [simp]: "rest (past a args g) = args" "nextchar (past a args g) = ''''"
  by (simp_all add: past_def)

lemma getopt_short_left:
  "getopt_short c cs a args g = (ev, g') \<Longrightarrow> getopt_left g' \<le> chars_left args + length cs"
  by (auto simp: getopt_short_def getopt_left_def Let_def split: option.splits has_arg.splits if_splits list.splits)

lemma getopt_double_left: "getopt_double a args g = (ev, g') \<Longrightarrow> getopt_left g' \<le> chars_left args"
  by (auto simp: getopt_double_def getopt_left_def Let_def split: option.splits prod.splits if_splits list.splits)

lemma skip_nonoptions_left: "chars_left (rest (skip_nonoptions g)) \<le> chars_left (rest g)"
proof -
  have "chars_left (dropWhile nonoption ws) \<le> chars_left ws" for ws
    by (induction ws) auto
  then show ?thesis
    by (simp add: skip_nonoptions_def Let_def)
qed

lemma getopt_long_left:
  assumes "getopt_long g = Some (ev, g')"
  shows "getopt_left g' < getopt_left g"
proof (cases "nextchar g")
  case (Cons c cs)
  then obtain a args where "rest g = a # args" "getopt_short c cs a args g = (ev, g')"
    using assms by (auto simp: getopt_long_def split: list.splits)
  then show ?thesis
    using getopt_short_left [of c cs a args g ev g'] Cons by (simp add: getopt_left_def)
next
  case Nil
  let ?g = "skip_nonoptions g"
  obtain a args where a: "rest ?g = a # args"
    using assms Nil by (auto simp: getopt_long_def Let_def split: list.splits)
  have "getopt_left g' < chars_left (a # args)"
  proof (cases "take 2 a = ''--''")
    case True
    then have "getopt_double a args ?g = (ev, g')"
      using assms Nil a by (auto simp: getopt_long_def Let_def split: if_splits)
    then show ?thesis
      using getopt_double_left [of a args ?g ev g'] by simp
  next
    case False
    then obtain c cs where "tl a = c # cs" "getopt_short c cs a args ?g = (ev, g')"
      using assms Nil a by (auto simp: getopt_long_def Let_def split: if_splits list.splits)
    moreover from this(1) have "length cs < length a"
      by (cases a) auto
    ultimately show ?thesis
      using getopt_short_left [of c cs a args ?g ev g'] by simp
  qed
  then show ?thesis
    using skip_nonoptions_left [of g] a Nil by (simp add: getopt_left_def)
qed

function getopt_answers :: "getopt_t \<Rightarrow> getopt_event list" where
  "getopt_answers g = (case getopt_long g of None \<Rightarrow> [] | Some (ev, g') \<Rightarrow> ev # getopt_answers g')"
  by pat_completeness auto
termination
  by (relation "measure getopt_left") (auto dest: getopt_long_left)

declare getopt_answers.simps [simp del]

text \<open>The program on its arguments.\<close>

definition main_argv :: "os \<Rightarrow> string \<Rightarrow> string list \<Rightarrow> st \<Rightarrow> (st, int \<times> st) result" where
  "main_argv os prog args s = main os (getopt_answers (getopt_start prog args)) s"

subsection \<open>An option that requires an argument has one\<close>

lemma strchr_arg_required: "short_option (CHR ''c'') = Some required_argument" "short_option (CHR ''d'') = Some required_argument"
  by (simp_all add: short_option_def optstring_def)

lemma long_option_in:
  assumes "long_option w = Some r"
  shows "r \<in> snd ` set longopts"
proof (cases "find (\<lambda>(name, _). name = w) longopts")
  case (Some p)
  then have "p \<in> set longopts"
    using nth_mem by (fastforce simp: find_Some_iff)
  then show ?thesis
    using assms Some by (auto simp: long_option_def split: prod.splits intro: rev_image_eqI)
next
  case None
  then obtain rs where "map snd (filter (\<lambda>(name, _). prefix w name) longopts) = r # rs"
    using assms by (auto simp: long_option_def split: list.splits if_splits)
  then have "r \<in> set (map snd (filter (\<lambda>(name, _). prefix w name) longopts))"
    by (simp only: list.set_intros)
  then show ?thesis by auto
qed

lemma long_option_required: "long_option w = Some (arg, CHR ''c'') \<or> long_option w = Some (arg, CHR ''d'') \<Longrightarrow> arg = required_argument"
  using long_option_in [of w] by (fastforce simp: longopts_def)

definition answered :: "getopt_event \<Rightarrow> bool" where
  "answered ev \<longleftrightarrow> (case ev of (opt, optarg, arg) \<Rightarrow> (opt = CHR ''c'' \<or> opt = CHR ''d'' \<longrightarrow> optarg \<noteq> None) \<and> arg \<noteq> None)"

lemma getopt_short_answered: "getopt_short c cs a args g = (ev, g') \<Longrightarrow> answered ev"
  using strchr_arg_required
  by (auto simp: getopt_short_def answered_def Let_def split: option.splits has_arg.splits if_splits list.splits)

lemma getopt_double_answered: "getopt_double a args g = (ev, g') \<Longrightarrow> answered ev"
  using long_option_required
  by (fastforce simp: getopt_double_def answered_def Let_def split: option.splits prod.splits if_splits list.splits)

lemma getopt_long_answered: "getopt_long g = Some (ev, g') \<Longrightarrow> answered ev"
  by (auto simp: getopt_long_def Let_def split: list.splits if_splits intro: getopt_short_answered getopt_double_answered)

lemma getopt_answers_answered: "ev \<in> set (getopt_answers g) \<Longrightarrow> answered ev"
proof (induction g rule: getopt_answers.induct)
  case (1 g)
  show ?case
  proof (cases "getopt_long g")
    case (Some r)
    obtain ev' g' where r: "r = (ev', g')" by (cases r)
    have "ev = ev' \<or> ev \<in> set (getopt_answers g')"
      using 1(2) Some r by (simp add: getopt_answers.simps [of g])
    then show ?thesis
      using getopt_long_answered [of g ev' g'] 1(1) [OF Some] Some r by auto
  qed (use 1(2) in \<open>simp add: getopt_answers.simps [of g]\<close>)
qed

lemma getopt_arguments_given: "arguments_given (getopt_answers g)"
  using getopt_answers_answered by (fastforce simp: arguments_given_def answered_def)

subsection \<open>What a command line asks for\<close>

text \<open>The options of the modules are not in the tables and no abbreviations of what is there.\<close>

lemma module_option:
  "take 2 (mod_opt_of f) = ''--''" "mod_opt_of f \<noteq> ''--''" "\<not> nonoption (mod_opt_of f)" "sublist ''--'' (mod_opt_of f)"
  "long_option (takeWhile (\<lambda>c. c \<noteq> CHR ''='') (drop 2 (mod_opt_of f))) = None"
  by (cases f; simp add: statics_defs nonoption_def long_option_def longopts_def sublist_Cons_right)+

lemma answers_module:
  "getopt_answers (getopt_start b (mod_opt_of f # args))
    = (CHR ''?'', None, Some (mod_opt_of f)) # getopt_answers (getopt_start (mod_opt_of f) args)"
  using module_option [of f]
  by (subst getopt_answers.simps) (simp add: getopt_long_def getopt_start_def
      skip_nonoptions_def getopt_double_def past_def Let_def)

lemma answers_modules:
  "getopt_answers (getopt_start b (map mod_opt_of fs @ args))
    = map (\<lambda>f. (CHR ''?'', None, Some (mod_opt_of f))) fs @ getopt_answers (getopt_start (last (b # map mod_opt_of fs)) args)"
  by (induction fs arbitrary: b) (simp_all add: answers_module del: last.simps, simp_all)

text \<open>A short option and its argument, as two words.\<close>

lemma answers_short_arg:
  assumes "short_option c = Some required_argument" "c \<noteq> CHR ''-''"
  shows "getopt_answers (getopt_start b ([CHR ''-'', c] # x # args)) = (c, Some x, Some x) # getopt_answers (getopt_start x args)"
  using assms
  by (subst getopt_answers.simps) (simp add: getopt_long_def getopt_start_def
      skip_nonoptions_def getopt_short_def past_def nonoption_def Let_def)

lemma answers_end: "getopt_answers (getopt_start b []) = []"
  by (subst getopt_answers.simps) (simp add: getopt_long_def getopt_start_def skip_nonoptions_def)

lemma atoi_dec: "n < 2 ^ 31 \<Longrightarrow> atoi (dec n) = int n"
  using scan_d_dec [of n "[]"] by (simp add: atoi_def)

lemma abs_options_modules:
  "abs_options (map (\<lambda>f. (CHR ''?'', None, Some (mod_opt_of f))) fs @ evs) (E, c, d) = abs_options evs (set fs \<union> E, c, d)"
proof (induction fs arbitrary: E)
  case (Cons f fs)
  have "find (\<lambda>g. mod_opt_of g = mod_opt_of f) mod_files = Some f"
    unfolding mod_opt_of_inj by (cases f) (simp_all add: mod_files_def)
  then have "abs_switch (CHR ''?'', None, Some (mod_opt_of f)) (E, c, d) = Inr (insert f E, c, d)"
    using module_option(4) [of f] by (simp add: abs_switch_def)
  then show ?case
    using Cons.IH [of "insert f E"] by simp
qed simp

lemma command_line_options:
  assumes "n < 2 ^ 31" "0 < d" "d < 2 ^ 31"
  shows "abs_options (getopt_answers (getopt_start prog (map mod_opt_of fs @ [''-c'', dec n, ''-d'', dec d]))) ({}, - 1, 2)
    = Inr (set fs, int n, int d)"
  using assms strchr_arg_required
  by (simp add: answers_modules answers_short_arg answers_end abs_options_modules abs_switch_def atoi_dec)

text \<open>
  C6. The command line decides what happens: with the options of some modules, a count and a
  delay, both positive numbers below \<open>2\<^sup>3\<^sup>1\<close> in decimal, the program runs that many rounds at that
  delay with exactly these modules enabled; if they return it returns 0, and by then every record in
  the lists and every module is freed.
\<close>

theorem command_line_runs:
  assumes "heap_ok s" "MOD_LIST_HEAD \<in> dom (links s)" "fs \<noteq> []" "0 < n" "n < 2 ^ 31" "0 < d" "d < 2 ^ 31"
  shows "\<exists>s1. tool_state (set fs) s1 \<and> same_env s s1 \<and>
    (case rounds os (int d) n 0 s1 of
       None \<Rightarrow> main_argv os prog (map mod_opt_of fs @ [''-c'', dec n, ''-d'', dec d]) s = None
     | Some (Exit code s2) \<Rightarrow> main_argv os prog (map mod_opt_of fs @ [''-c'', dec n, ''-d'', dec d]) s = Some (Exit code s2)
     | Some (Done s2) \<Rightarrow> \<exists>xs ms cs s'. program_heap s2 xs ms cs \<and> plain ms = plain (flags (set fs))
         \<and> main_argv os prog (map mod_opt_of fs @ [''-c'', dec n, ''-d'', dec d]) s = Some (Done (0, s'))
         \<and> (\<forall>(C, B)\<in>set cs. B \<inter> dom (objs s') = {}) \<and> set xs \<inter> dom (objs s') = {}
         \<and> ring (links s') MOD_LIST_HEAD [] \<and> same_env s2 s')"
  using main_runs [OF assms(1,2) getopt_arguments_given command_line_options [OF assms(5-7)], of fs os prog] assms(3,4)
  unfolding main_argv_def by simp

theorem command_line_runs_witness:
  "\<exists>s'. main_argv bare_os ''zsr'' [''--dns'', ''-c'', ''1'', ''-d'', ''5''] boot = Some (Done (0, s'))
    \<and> ring (links s') MOD_LIST_HEAD []"
proof -
  have args: "[''--dns'', ''-c'', ''1'', ''-d'', ''5''] = map mod_opt_of [M_dns] @ [''-c'', dec 1, ''-d'', dec 5]"
    by (simp add: statics_defs dec.simps text_simps)
  have h: "MOD_LIST_HEAD \<in> dom (links boot)"
    by (simp add: boot_def)
  obtain s1 where s1: "tool_state {M_dns} s1" "\<And>s2. rounds bare_os 5 1 0 s1 = Some (Done s2) \<Longrightarrow>
      \<exists>s'. main_argv bare_os ''zsr'' (map mod_opt_of [M_dns] @ [''-c'', dec 1, ''-d'', dec 5]) boot = Some (Done (0, s'))
        \<and> ring (links s') MOD_LIST_HEAD []"
    using command_line_runs [OF boot_heap_ok h, of "[M_dns]" 1 5 bare_os "''zsr''"] by fastforce
  obtain xs where "program_heap s1 xs (flags {M_dns}) (replicate (length xs) ({}, {}))"
    using tool_state_heap [OF s1(1)] by blast
  then obtain s2 where "rounds bare_os 5 1 0 s1 = Some (Done s2)"
    using bare_round [of s1 xs 5] by auto
  then show ?thesis
    using s1(2) args by simp
qed

text \<open>An unknown letter in a group of short options: the argument before the group is looked at.\<close>

lemma answers_unknown:
  assumes "short_option c = None" "c \<noteq> CHR ''-''"
  shows "getopt_answers (getopt_start b [[CHR ''-'', c]]) = [(CHR ''?'', None, Some [CHR ''-'', c])]"
    "getopt_answers (getopt_start b [[CHR ''-'', c, CHR ''a'']])
      = [(CHR ''?'', None, Some b), (CHR ''a'', None, Some [CHR ''-'', c, CHR ''a''])]"
proof -
  have a: "short_option (CHR ''a'') = Some no_argument"
    by (simp add: short_option_def optstring_def)
  have e: "getopt_answers \<lparr>rest = [], nextchar = '''', before = w, nonopt = None\<rparr> = []" for w
    using answers_end [of w] by (simp add: getopt_start_def)
  have g: "getopt_answers \<lparr>rest = [[CHR ''-'', c, CHR ''a'']], nextchar = ''a'', before = b, nonopt = None\<rparr>
      = [(CHR ''a'', None, Some [CHR ''-'', c, CHR ''a''])]"
    by (subst getopt_answers.simps) (simp add: getopt_long_def getopt_short_def a past_def e)
  show "getopt_answers (getopt_start b [[CHR ''-'', c]]) = [(CHR ''?'', None, Some [CHR ''-'', c])]"
    using assms
    by (subst getopt_answers.simps)
       (simp add: getopt_long_def getopt_start_def skip_nonoptions_def nonoption_def getopt_short_def past_def e Let_def)
  show "getopt_answers (getopt_start b [[CHR ''-'', c, CHR ''a'']])
      = [(CHR ''?'', None, Some b), (CHR ''a'', None, Some [CHR ''-'', c, CHR ''a''])]"
    using assms
    by (subst getopt_answers.simps)
       (simp add: getopt_long_def getopt_start_def skip_nonoptions_def nonoption_def getopt_short_def argv_before_def g Let_def)
qed

text \<open>
  C37. An unknown short option is not always reported. Alone it makes \<open>main\<close> print the help and
  exit; in a group, as in \<open>-xa\<close> after \<open>--mem\<close>, \<open>argv[optind - 1]\<close> is not the group but the argument before it,
  which is enabled once more, and the rest of the group goes on: here all modules are enabled.
\<close>

theorem unknown_option_hidden:
  assumes "tool_state {} s" "short_option c = None" "c \<noteq> CHR ''-''"
  shows "(\<exists>s'. main_options (getopt_answers (getopt_start prog [mod_opt_of f, [CHR ''-'', c]])) (- 1, 2, s)
        = Some (Exit 0 s') \<and> err s' = err s @ help_text {f})
    \<and> (\<exists>s'. main_options (getopt_answers (getopt_start prog [mod_opt_of f, [CHR ''-'', c, CHR ''a'']])) (- 1, 2, s)
        = Some (Done (- 1, 2, s')) \<and> tool_state UNIV s' \<and> same_env s s')"
proof -
  have m: "abs_options ((CHR ''?'', None, Some (mod_opt_of f)) # evs) (E, c', d) = abs_options evs (insert f E, c', d)" for evs E c' d
    using abs_options_modules [of "[f]" evs E c' d] by simp
  have "\<not> sublist ''--'' [CHR ''-'', c]"
    using assms(3) by (simp add: sublist_Cons_right)
  then have one: "abs_options (getopt_answers (getopt_start prog [mod_opt_of f, [CHR ''-'', c]])) ({}, - 1, 2) = Inl ('''', help_text {f})"
    unfolding answers_module answers_unknown [OF assms(2,3)] m by (simp add: abs_switch_def)
  have two: "abs_options (getopt_answers (getopt_start prog [mod_opt_of f, [CHR ''-'', c, CHR ''a'']])) ({}, - 1, 2)
      = Inr (UNIV, - 1, 2)"
    unfolding answers_module answers_unknown [OF assms(2,3)] m by (simp add: abs_switch_def)
  show ?thesis
    using main_options_abs [OF assms(1) getopt_arguments_given, of "getopt_start prog [mod_opt_of f, [CHR ''-'', c]]" "- 1" 2]
      main_options_abs [OF assms(1) getopt_arguments_given, of "getopt_start prog [mod_opt_of f, [CHR ''-'', c, CHR ''a'']]" "- 1" 2]
    unfolding one two by auto
qed

theorem unknown_option_hidden_witness:
  "\<exists>s s'. main_options (getopt_answers (getopt_start ''zsr'' [''--mem'', ''-xa''])) (- 1, 2, s) = Some (Done (- 1, 2, s'))
    \<and> tool_state UNIV s'"
proof -
  obtain s where "tool_state {} s"
    using loaded_tool_state [OF boot_heap_ok] by (auto simp: boot_def)
  moreover have "short_option (CHR ''x'') = None" "''--mem'' = mod_opt_of M_mem"
    by (simp_all add: short_option_def optstring_def statics_defs)
  ultimately show ?thesis
    using unknown_option_hidden [of s "CHR ''x''" "''zsr''" M_mem] by auto
qed

end
