(* ===== verification/Spec2Isabelle.thy ===== *)
theory Spec2Isabelle
  imports List_Claims List_Entry Unit_Test Command_Line
begin

text \<open>
  A model of \<open>zsr\<close>, a reporter of system statistics for Linux: the library \<open>libzsr\<close> (\<open>src/libzsr\<close>,
  \<open>src/include/zsr\<close>) reads counters from \<open>/proc\<close> and from the C library, and the program (\<open>src/zsr\<close>)
  runs fourteen modules over it that collect, print and free records.

  \<^bold>\<open>How the parts interact.\<close> \<open>main\<close> registers the modules in the ring at \<open>MOD_LIST_HEAD\<close>, enables those the
  command line names, and then, once per round, lets every module collect into its own ring of
  records and prints the reports of the enabled ones. A module's \<open>collect_record\<close> calls
  one reader of \<open>libzsr\<close>; the readers parse text with \<open>sscanf\<close>, append records with
  \<open>list_add_tail\<close>, and log and exit on errors.

  \<^bold>\<open>Theories and sources.\<close>
  \<^item> Prelude: outcomes (\<open>Done\<close>, \<open>Exit\<close> for \<open>exit\<close>, \<open>None\<close> for what C leaves undefined) and shared lemmas.
  \<^item> List_Head, List_Loop, List_Claims: \<open>include/zsr/list.h\<close>. A list cell is an address in a map of
    \<open>next\<close>/\<open>prev\<close> pairs; \<open>ring h p xs\<close> is the abstraction to the list \<open>xs\<close> of entries, and every
    operation is shown to be the list operation it stands for. Loops are partial functions
    (\<open>None\<close> when there is no end); over a ring they are folds, also when the body frees its entry. A cell
    is identified with the struct it begins; List_Entry models the macros that compute the struct
    (\<open>container_of\<close>) and shows that the loop over structs, at any offset, is the same fold.
  \<^item> C_Text, C_Double: the C library functions the sources use on text (\<open>fgets\<close>, the \<open>sscanf\<close> conversions,
    \<open>strtok\<close>, \<open>strncpy\<close>, \<open>printf\<close>) and IEEE arithmetic with \<open>%.2f\<close>.
  \<^item> Zsr_Types: the structs of \<open>define.h\<close>, \<open>zsr.h\<close> and \<open>framework.h\<close> as records. Machine: the state \<open>st\<close> (list
    cells, objects, allocator, the static variables, the output streams, a clock) and the
    record \<open>os\<close> of services.
  \<^item> Zsr_Log (\<open>log.c\<close>), Common (\<open>common.c\<close>), Records (lists of structs: \<open>holds K s head xs rs\<close>, frames
    \<open>only\<close>, appending and freeing, in the locale \<open>record_kind\<close>, interpreted for every kind of struct).
  \<^item> Cpu, Mem_Swap, Uptime_Load (\<open>time.c\<close> too), Net (\<open>dns.c\<close>, \<open>gateway.c\<close>, \<open>ip.c\<close>, \<open>network.c\<close>), Fs_Who, Io, Proc: the
    files of \<open>libzsr\<close> of the same names, one definition per function, one more per loop.
  \<^item> Framework (\<open>zsr/framework.c\<close> and the registrations in \<open>zsr/module\<close>), Mod_Common with Mod_Single, Mod_Query
    and Mod_History (the functions of the fourteen files \<open>zsr/module/mod_*.c\<close>, by the way they
    keep their records), Tool_Zsr (\<open>zsr/tool_zsr.c\<close>), Tool_Heap (the heap of the running program),
    Mod_Frames and Tool_Rounds (what collecting and printing write, and the rounds on that heap),
    Command_Line (the option tables, \<open>getopt_long\<close> on them, the program on its arguments).
  \<^item> Unit_Test: the assertions of \<open>test/common.c\<close>, which hold of the model.

  \<^bold>\<open>What the lemmas show.\<close>
  \<^item> Lists: the operations refine the list operations, cutting and splicing are inverse, loops terminate.
  \<^item> Readers: text as the kernel prints it is read back as the numbers it was printed from
    (round trips for the memory, swap, load, process and disk files; of the processor line three columns arrive
    in fields of other names, which is stated as it is); a query appends
    one record per answer in order, leaves the older ones alone and writes nowhere else.
  \<^item> Computations: the percentages of \<open>compute_cpu_stat\<close> and of file systems lie between 0 and 100, every rate
    and mean of \<open>io_update\<close> is the rounded quotient of its own counters, the nested matching loops of \<open>compute_io_stat\<close> and \<open>compute_proc_cpu_stat\<close> are
    maps over the current list. The misbehaviour of these loops on unequal lists, of
    \<open>get_ip_addr\<close> after a name that cannot be found, of process names with blanks, of processes of
    unknown users and of file systems without inodes is proved too.
  \<^item> Modules: a round of collecting and printing, for one module of each way of keeping records; the
    locales \<open>single_module\<close> and \<open>query_module\<close> are interpreted for all eleven modules they cover.
  \<^item> Program: the options are refined by a function on sets of modules, the main loop runs the
    given number of rounds or never returns, printing shows exactly the enabled modules, each with the
    text that \<open>module_report\<close> of Tool_Heap computes from its records, and the
    end of the program frees every object once (locale \<open>record_stores\<close>, all fourteen modules).
  \<^item> Rounds: whenever it returns, whatever the machine has answered, a module's \<open>collect_record\<close> has kept its
    list intact and of its own type and written only its list and fresh memory (locale \<open>collecting_stores\<close>, which extends
    \<open>record_stores\<close>, all fourteen modules); so the rounds keep the heap of the program, and a program whose
    rounds return ends with everything freed. The command line determines the modules, the number of
    rounds and the delay.

  \<^bold>\<open>Bounds.\<close> Unsigned C integers are words; signed ones are \<open>int\<close> with their range tested where the code can
  leave it (the conversions, the round counter). \<open>mod->record\<close> has \<open>2\<^sup>2\<^sup>0\<close> bytes; formatting past its end is
  undefined. There is no fuel: loops recurse over the lists they are given or are partial functions.

  \<^bold>\<open>Parameters.\<close> The kernel and the parts of the C library that read the outside world are the record \<open>os\<close> of
  Machine; an answer may depend on the time of the question. \<open>main\<close> takes the answers of \<open>getopt_long\<close>,
  \<open>main_argv\<close> the arguments themselves; \<open>getopt_long\<close> behaves as without \<open>POSIXLY_CORRECT\<close>, permuting the
  arguments. \<open>malloc\<close> never fails.

  \<^bold>\<open>Not modelled.\<close> The text of the date in a log line (\<open>strftime\<close>) and of \<open>errno\<close>, which the record \<open>os\<close> gives,
  and the contents of freed or uninitialised memory (any use of them is undefined in the
  model). That the rounds return is shown for a machine without files only: with other answers the
  report of a module may be undefined, and the claims about each module say when it is not.
\<close>

end
